(* ===== verification/Prelude.thy ===== *)
theory Prelude
  imports Main "HOL-Library.AList" "HOL-Library.Sublist" "HOL-Library.Char_ord"
    "HOL-Library.List_Lexorder"
begin

section \<open>Shared vocabulary: JavaScript values, strings, ordered maps\<close>

text \<open>
  The types and generic lemmas every component of the development uses.

  \<^item> \<open>jsval\<close> is a JavaScript value as JSON and YAML documents carry it. A number is an
    integer, a terminating decimal that is not an integer, NaN or an infinity.
  \<^item> A JavaScript object and a \<open>Map\<close> enumerate their entries in insertion order, and storing an
    existing key keeps its place: both are association lists with \<^const>\<open>AList.update\<close>,
    read by \<^const>\<open>map_of\<close>. (Keys that look like array indices, which an object enumerates
    first, are not treated specially.)
  \<^item> A string is the list of its UTF-8 bytes. The code's character classes are all ASCII.
  \<^item> A \<open>Result\<close> of the code is a sum: \<open>Inl\<close> the error, \<open>Inr\<close> the value; so is a call that
    may throw.
\<close>

named_theorems string_simps \<open>evaluation of the string operations\<close>
named_theorems io_simps \<open>unfolding of the effectful programs\<close>

subsection \<open>Values\<close>

datatype jsnum = NInt int | NDec int nat | NNaN | NInf bool

datatype jsval =
    JUndef
  | JNull
  | JBool bool
  | JNum jsnum
  | JStr string
  | JArr "jsval list"
  | JObj "(string \<times> jsval) list"

type_synonym obj = "(string \<times> jsval) list"
type_synonym path = string

text \<open>\<open>NDec m e\<close> is the number \<open>m / 10 ^ Suc e\<close>; documents use it for non-integers only.\<close>

fun num_less :: "jsnum \<Rightarrow> jsnum \<Rightarrow> bool" where
  "num_less NNaN y = False"
| "num_less x NNaN = False"
| "num_less (NInf a) (NInf b) = (\<not> a \<and> b)"
| "num_less (NInf a) y = (\<not> a)"
| "num_less x (NInf b) = b"
| "num_less (NInt m) (NInt n) = (m < n)"
| "num_less (NInt m) (NDec n e) = (m * 10 ^ Suc e < n)"
| "num_less (NDec m d) (NInt n) = (m < n * 10 ^ Suc d)"
| "num_less (NDec m d) (NDec n e) = (m * 10 ^ Suc e < n * 10 ^ Suc d)"

definition max_safe :: int where
  "max_safe = 9007199254740991"

fun num_is_integer :: "jsnum \<Rightarrow> bool" where
  "num_is_integer (NInt n) = True"
| "num_is_integer _ = False"

fun num_is_safe :: "jsnum \<Rightarrow> bool" where
  "num_is_safe (NInt n) = (\<bar>n\<bar> \<le> max_safe)"
| "num_is_safe _ = False"

fun num_is_finite :: "jsnum \<Rightarrow> bool" where
  "num_is_finite NNaN = False"
| "num_is_finite (NInf _) = False"
| "num_is_finite _ = True"

definition is_integer :: "jsval \<Rightarrow> bool" where
  "is_integer v = (case v of JNum n \<Rightarrow> num_is_integer n | _ \<Rightarrow> False)"

definition is_safe_integer :: "jsval \<Rightarrow> bool" where
  "is_safe_integer v = (case v of JNum n \<Rightarrow> num_is_safe n | _ \<Rightarrow> False)"

definition is_string :: "jsval \<Rightarrow> bool" where
  "is_string v = (case v of JStr _ \<Rightarrow> True | _ \<Rightarrow> False)"

text \<open>\<open>isRecord\<close> of the code: an object that is neither null nor an array.\<close>

definition is_record :: "jsval \<Rightarrow> bool" where
  "is_record v = (case v of JObj _ \<Rightarrow> True | _ \<Rightarrow> False)"

definition obj_of :: "jsval \<Rightarrow> obj" where
  "obj_of v = (case v of JObj kvs \<Rightarrow> kvs | _ \<Rightarrow> [])"

text \<open>Reading a property: an absent one is \<open>undefined\<close>.\<close>

definition get_prop :: "obj \<Rightarrow> string \<Rightarrow> jsval" where
  "get_prop d k = (case map_of d k of Some v \<Rightarrow> v | None \<Rightarrow> JUndef)"

definition prop_of :: "jsval \<Rightarrow> string \<Rightarrow> jsval" where
  "prop_of v k = get_prop (obj_of v) k"

subsection \<open>Lists\<close>

text \<open>\<open>[...new Set(xs)]\<close>: the first occurrence of each element, in order.\<close>

fun uniq :: "'a list \<Rightarrow> 'a list" where
  "uniq [] = []"
| "uniq (x # xs) = x # filter (\<lambda>y. y \<noteq> x) (uniq xs)"

lemma set_uniq [simp]: "set (uniq xs) = set xs"
  by (induction xs) auto

lemma distinct_uniq [simp]: "distinct (uniq xs)"
  by (induction xs) auto

lemma uniq_distinct: "distinct xs \<Longrightarrow> uniq xs = xs"
  by (induction xs) (auto intro: filter_True)

lemma uniq_eq_Nil [simp]: "uniq xs = [] \<longleftrightarrow> xs = []"
  by (cases xs) auto

text \<open>A stable sort by a comparison, as \<open>Array.prototype.sort\<close> is.\<close>

fun insert_by :: "('a \<Rightarrow> 'a \<Rightarrow> bool) \<Rightarrow> 'a \<Rightarrow> 'a list \<Rightarrow> 'a list" where
  "insert_by le x [] = [x]"
| "insert_by le x (y # ys) = (if le x y then x # y # ys else y # insert_by le x ys)"

definition sort_by :: "('a \<Rightarrow> 'a \<Rightarrow> bool) \<Rightarrow> 'a list \<Rightarrow> 'a list" where
  "sort_by le xs = foldr (insert_by le) xs []"

lemma set_insert_by [simp]: "set (insert_by le x xs) = insert x (set xs)"
  by (induction xs) auto

lemma set_sort_by [simp]: "set (sort_by le xs) = set xs"
  by (induction xs) (auto simp: sort_by_def)

lemma distinct_insert_by: "distinct (insert_by le x xs) = (x \<notin> set xs \<and> distinct xs)"
  by (induction xs) auto

lemma distinct_sort_by [simp]: "distinct (sort_by le xs) = distinct xs"
  by (induction xs) (simp_all add: sort_by_def distinct_insert_by set_sort_by [unfolded sort_by_def])

text \<open>A loop body that may fail, over a list: it stops at the first failure.\<close>

fun fold_err :: "('a \<Rightarrow> 's \<Rightarrow> 'e + 's) \<Rightarrow> 'a list \<Rightarrow> 's \<Rightarrow> 'e + 's" where
  "fold_err f [] s = Inr s"
| "fold_err f (x # xs) s = (case f x s of Inl e \<Rightarrow> Inl e | Inr s' \<Rightarrow> fold_err f xs s')"

fun map_err :: "('a \<Rightarrow> 'e + 'b) \<Rightarrow> 'a list \<Rightarrow> 'e + 'b list" where
  "map_err f [] = Inr []"
| "map_err f (x # xs) = (case f x of Inl e \<Rightarrow> Inl e
     | Inr y \<Rightarrow> (case map_err f xs of Inl e \<Rightarrow> Inl e | Inr ys \<Rightarrow> Inr (y # ys)))"

lemma map_err_Inr: "map_err f xs = Inr ys \<Longrightarrow> list_all2 (\<lambda>x y. f x = Inr y) xs ys"
  by (induction xs arbitrary: ys) (auto split: sum.splits)

lemma map_err_all: "(\<And>x. x \<in> set xs \<Longrightarrow> f x = Inr (g x)) \<Longrightarrow> map_err f xs = Inr (map g xs)"
  by (induction xs) auto

fun all_some :: "'a option list \<Rightarrow> 'a list option" where
  "all_some [] = Some []"
| "all_some (x # xs) = (case x of None \<Rightarrow> None | Some y \<Rightarrow>
     (case all_some xs of None \<Rightarrow> None | Some ys \<Rightarrow> Some (y # ys)))"

lemma all_some_map [simp]: "all_some (map Some ys) = Some ys"
  by (induction ys) simp_all

lemma all_some_iff: "all_some xs = Some ys \<longleftrightarrow> xs = map Some ys"
  by (induction xs arbitrary: ys) (auto split: option.splits)

definition bind_err :: "'e + 'a \<Rightarrow> ('a \<Rightarrow> 'e + 'b) \<Rightarrow> 'e + 'b" where
  "bind_err r f = (case r of Inl e \<Rightarrow> Inl e | Inr x \<Rightarrow> f x)"

lemma bind_err_simps [simp]:
  "bind_err (Inl e) f = Inl e"
  "bind_err (Inr x) f = f x"
  by (simp_all add: bind_err_def)

lemma bind_err_Inr_iff:
  "bind_err r f = Inr y \<longleftrightarrow> (\<exists>x. r = Inr x \<and> f x = Inr y)"
  by (cases r) auto

definition when_err :: "bool \<Rightarrow> 'e \<Rightarrow> 'e + unit" where
  "when_err c e = (if c then Inl e else Inr ())"

lemma when_err_Inr [simp]: "when_err c e = Inr u \<longleftrightarrow> \<not> c"
  by (simp add: when_err_def)

lemma bind_when_err_Inr [simp]:
  "bind_err (when_err c e) f = Inr y \<longleftrightarrow> \<not> c \<and> f () = Inr y"
  by (simp add: when_err_def)

subsection \<open>Ordered maps\<close>

lemma map_of_alist_update [simp]: "map_of (AList.update k v xs) = (map_of xs)(k \<mapsto> v)"
  by (rule update_conv')

lemma map_of_alist_delete [simp]: "map_of (AList.delete k xs) = (map_of xs)(k := None)"
  by (rule delete_conv')

lemma dom_keys_update [simp]: "fst ` set (AList.update k v xs) = insert k (fst ` set xs)"
  by (simp add: AList.dom_update)

lemma keys_delete_subset: "fst ` set (AList.delete k xs) \<subseteq> fst ` set xs"
  by (auto simp: AList.delete_eq)

definition keys :: "('k \<times> 'v) list \<Rightarrow> 'k list" where
  "keys xs = map fst xs"

definition has_key :: "('k \<times> 'v) list \<Rightarrow> 'k \<Rightarrow> bool" where
  "has_key xs k = (map_of xs k \<noteq> None)"

lemma has_key_iff: "has_key xs k \<longleftrightarrow> k \<in> set (keys xs)"
  by (simp add: has_key_def keys_def map_of_eq_None_iff)

lemma set_keys: "set (keys xs) = fst ` set xs"
  by (simp add: keys_def)

subsection \<open>Strings\<close>

definition sq :: string where
  "sq = [CHR 0x27]"

definition quoted :: "string \<Rightarrow> string" where
  "quoted s = sq @ s @ sq"

definition starts_with :: "string \<Rightarrow> string \<Rightarrow> bool" where
  "starts_with p s = (take (length p) s = p)"

definition ends_with :: "string \<Rightarrow> string \<Rightarrow> bool" where
  "ends_with p s = (length p \<le> length s \<and> drop (length s - length p) s = p)"

lemma starts_with_iff: "starts_with p s \<longleftrightarrow> (\<exists>t. s = p @ t)"
  unfolding starts_with_def by (metis append_eq_conv_conj append_take_drop_id)

lemma starts_with_append [simp]: "starts_with p (p @ t)"
  by (auto simp: starts_with_iff)

lemma ends_with_iff: "ends_with p s \<longleftrightarrow> (\<exists>t. s = t @ p)"
proof
  assume "ends_with p s"
  then have "s = take (length s - length p) s @ p"
    unfolding ends_with_def by (metis append_take_drop_id)
  then show "\<exists>t. s = t @ p" ..
qed (auto simp: ends_with_def)

lemma ends_with_append [simp]: "ends_with p (t @ p)"
  by (auto simp: ends_with_iff)

text \<open>\<open>s.slice(n, -m)\<close>: without the first \<open>n\<close> and the last \<open>m\<close> characters.\<close>

definition slice :: "nat \<Rightarrow> nat \<Rightarrow> string \<Rightarrow> string" where
  "slice n m s = take (length s - m - n) (drop n s)"

lemma slice_middle [simp]: "slice (length p) (length q) (p @ s @ q) = s"
  by (simp add: slice_def)

fun contains :: "string \<Rightarrow> string \<Rightarrow> bool" where
  "contains p [] = (p = [])"
| "contains p (c # s) = (starts_with p (c # s) \<or> contains p s)"

lemma contains_iff: "contains p s \<longleftrightarrow> (\<exists>u v. s = u @ p @ v)"
proof (induction s)
  case Nil
  then show ?case by auto
next
  case (Cons c s)
  show ?case
  proof
    assume "contains p (c # s)"
    then consider "starts_with p (c # s)" | "contains p s" by auto
    then show "\<exists>u v. c # s = u @ p @ v"
    proof cases
      case 1
      then obtain t where "c # s = [] @ p @ t" by (auto simp: starts_with_iff)
      then show ?thesis by blast
    next
      case 2
      with Cons obtain u v where "c # s = (c # u) @ p @ v" by auto
      then show ?thesis by blast
    qed
  next
    assume "\<exists>u v. c # s = u @ p @ v"
    then obtain u v where uv: "c # s = u @ p @ v" by blast
    show "contains p (c # s)"
    proof (cases u)
      case Nil
      then have "starts_with p (c # s)" using uv by (simp add: starts_with_iff)
      then show ?thesis by simp
    next
      case (Cons d u')
      then have "s = u' @ p @ v" using uv by simp
      then show ?thesis using \<open>contains p s \<longleftrightarrow> (\<exists>u v. s = u @ p @ v)\<close> by auto
    qed
  qed
qed

text \<open>\<open>s.split(c)\<close> for a one-character separator, and \<open>xs.join(sep)\<close>.\<close>

fun split_on :: "char \<Rightarrow> string \<Rightarrow> string list" where
  "split_on c [] = [[]]"
| "split_on c (x # xs) =
     (if x = c then [] # split_on c xs
      else (case split_on c xs of [] \<Rightarrow> [[x]] | p # ps \<Rightarrow> (x # p) # ps))"

fun join :: "string \<Rightarrow> string list \<Rightarrow> string" where
  "join sep [] = []"
| "join sep [x] = x"
| "join sep (x # xs) = x @ sep @ join sep xs"

lemma split_on_not_Nil [simp]: "split_on c s \<noteq> []"
  by (induction s) (auto split: list.splits)

lemma join_split_on: "join [c] (split_on c s) = s"
proof (induction s)
  case (Cons x xs)
  obtain p ps where s: "split_on c xs = p # ps"
    by (cases "split_on c xs") auto
  with Cons show ?case by (cases ps) auto
qed simp

lemma split_on_no_sep: "c \<notin> set s \<Longrightarrow> split_on c s = [s]"
  by (induction s) auto

lemma split_on_append: "c \<notin> set p \<Longrightarrow> split_on c (p @ c # s) = p # split_on c s"
  by (induction p) auto

lemma split_on_parts: "p \<in> set (split_on c s) \<Longrightarrow> c \<notin> set p"
  by (induction s arbitrary: p) (auto split: if_splits list.splits)

definition is_ws :: "char \<Rightarrow> bool" where
  "is_ws c = (c \<in> {CHR '' '', CHR 0x09, CHR 0x0A, CHR 0x0B, CHR 0x0C, CHR 0x0D})"

definition trim :: "string \<Rightarrow> string" where
  "trim s = rev (dropWhile is_ws (rev (dropWhile is_ws s)))"

definition is_upper :: "char \<Rightarrow> bool" where
  "is_upper c = (CHR ''A'' \<le> c \<and> c \<le> CHR ''Z'')"

definition is_lower :: "char \<Rightarrow> bool" where
  "is_lower c = (CHR ''a'' \<le> c \<and> c \<le> CHR ''z'')"

definition is_digit :: "char \<Rightarrow> bool" where
  "is_digit c = (CHR ''0'' \<le> c \<and> c \<le> CHR ''9'')"

definition to_lower_char :: "char \<Rightarrow> char" where
  "to_lower_char c = (if is_upper c then char_of (of_char c + 32 :: nat) else c)"

definition to_upper_char :: "char \<Rightarrow> char" where
  "to_upper_char c = (if is_lower c then char_of (of_char c - 32 :: nat) else c)"

definition to_lower :: "string \<Rightarrow> string" where
  "to_lower s = map to_lower_char s"

definition to_upper :: "string \<Rightarrow> string" where
  "to_upper s = map to_upper_char s"

subsection \<open>Printing numbers\<close>

definition digit_char :: "nat \<Rightarrow> char" where
  "digit_char d = char_of (48 + d :: nat)"

fun nat_str :: "nat \<Rightarrow> string" where
  "nat_str n = (if n < 10 then [digit_char n] else nat_str (n div 10) @ [digit_char (n mod 10)])"

declare nat_str.simps [simp del]

definition int_str :: "int \<Rightarrow> string" where
  "int_str i = (if i < 0 then ''-'' @ nat_str (nat (- i)) else nat_str (nat i))"

text \<open>\<open>String(n)\<close> for numbers below \<open>10 ^ 21\<close>, where JavaScript prints no exponent.\<close>

definition dec_str :: "int \<Rightarrow> nat \<Rightarrow> string" where
  "dec_str m e = (let ds = nat_str (nat \<bar>m\<bar>);
      padded = replicate (Suc (Suc e) - length ds) CHR ''0'' @ ds;
      n = length padded - Suc e
    in (if m < 0 then ''-'' else '''') @ take n padded @ ''.'' @ drop n padded)"

fun num_str :: "jsnum \<Rightarrow> string" where
  "num_str (NInt n) = int_str n"
| "num_str (NDec m e) = dec_str m e"
| "num_str NNaN = ''NaN''"
| "num_str (NInf p) = (if p then ''Infinity'' else ''-Infinity'')"

text \<open>\<open>String(v)\<close>.\<close>

fun to_str :: "jsval \<Rightarrow> string" and elem_str :: "jsval \<Rightarrow> string" where
  "to_str JUndef = ''undefined''"
| "to_str JNull = ''null''"
| "to_str (JBool b) = (if b then ''true'' else ''false'')"
| "to_str (JNum n) = num_str n"
| "to_str (JStr s) = s"
| "to_str (JArr vs) = join '','' (map elem_str vs)"
| "to_str (JObj _) = ''[object Object]''"
| "elem_str v = (case v of JUndef \<Rightarrow> '''' | JNull \<Rightarrow> '''' | JBool b \<Rightarrow> (if b then ''true'' else ''false'')
     | JNum n \<Rightarrow> num_str n | JStr s \<Rightarrow> s | JArr vs \<Rightarrow> join '','' (map elem_str vs)
     | JObj _ \<Rightarrow> ''[object Object]'')"

text \<open>JavaScript truthiness.\<close>

fun truthy :: "jsval \<Rightarrow> bool" where
  "truthy JUndef = False"
| "truthy JNull = False"
| "truthy (JBool b) = b"
| "truthy (JNum n) = (n \<noteq> NInt 0 \<and> n \<noteq> NNaN)"
| "truthy (JStr s) = (s \<noteq> [])"
| "truthy _ = True"

lemma digit_char_inj: "d < 10 \<Longrightarrow> d' < 10 \<Longrightarrow> digit_char d = digit_char d' \<Longrightarrow> d = d'"
proof -
  assume a: "d < 10" "d' < 10" "digit_char d = digit_char d'"
  then have "of_char (digit_char d) = (of_char (digit_char d') :: nat)" by simp
  with a show "d = d'" by (simp add: digit_char_def)
qed

lemma nat_str_not_Nil [simp]: "nat_str n \<noteq> []"
  by (subst nat_str.simps) simp

lemma is_digit_digit_char: "d < 10 \<Longrightarrow> is_digit (digit_char d)"
proof -
  assume "d < 10"
  then have "d \<in> {0, 1, 2, 3, 4, 5, 6, 7, 8, 9}" by auto
  then show ?thesis by (elim insertE emptyE) (simp_all add: is_digit_def digit_char_def less_eq_char_def)
qed

lemma nat_str_digits: "c \<in> set (nat_str n) \<Longrightarrow> is_digit c"
proof (induction n rule: nat_str.induct)
  case (1 n)
  then show ?case
    by (cases "n < 10") (auto simp: nat_str.simps [of n] is_digit_digit_char)
qed

end
