(* ===== verification/Paths.thy ===== *)
theory Paths
  imports Prelude
begin

section \<open>Database paths (src/store/database-path.ts)\<close>

text \<open>
  Which paths the engine accepts: the lexical check of \<open>databasePath\<close> over Node's
  \<open>path.posix.normalize\<close>, and the path prefixes that \<open>assertNoSymlinks\<close> looks at. The lemmas
  characterise the accepted paths by their segments.
\<close>

subsection \<open>The check\<close>

text \<open>\<open>path.posix.normalize\<close>: the segments are resolved on a stack, last one first.\<close>

fun norm_step :: "bool \<Rightarrow> string \<Rightarrow> string list \<Rightarrow> string list" where
  "norm_step absolute s stack =
     (if s = '''' \<or> s = ''.'' then stack
      else if s = ''..'' then
        (case stack of [] \<Rightarrow> (if absolute then [] else [''..''])
         | t # ts \<Rightarrow> (if t = ''..'' then ''..'' # t # ts else ts))
      else s # stack)"

definition is_absolute :: "string \<Rightarrow> bool" where
  "is_absolute p = starts_with ''/'' p"

definition normalize :: "string \<Rightarrow> string" where
  "normalize p =
     (if p = '''' then ''.''
      else let absolute = is_absolute p;
               trailing = ends_with ''/'' p;
               body = join ''/'' (rev (fold (norm_step absolute) (split_on (CHR ''/'') p) []));
               body' = (if body = '''' \<and> \<not> absolute then ''.'' else body);
               body'' = (if body' \<noteq> '''' \<and> trailing then body' @ ''/'' else body')
           in (if absolute then ''/'' @ body'' else body''))"

definition bad_part :: "string \<Rightarrow> bool" where
  "bad_part s = (s = ''..'' \<or> s = ''.'' \<or> starts_with ''.'' s)"

definition database_path :: "string \<Rightarrow> string + string" where
  "database_path p =
     (if p = '''' \<or> is_absolute p \<or> normalize p \<noteq> p \<or> list_ex bad_part (split_on (CHR ''/'') p)
      then Inl (''invalid database path: '' @ p) else Inr p)"

text \<open>The candidates \<open>assertNoSymlinks\<close> looks at: the root, then every prefix of the path.\<close>

fun path_prefixes :: "string \<Rightarrow> string list \<Rightarrow> string list" where
  "path_prefixes base [] = [base]"
| "path_prefixes base (s # ss) = base # path_prefixes (if base = '''' then s else base @ ''/'' @ s) ss"

subsection \<open>The accepted paths\<close>

definition plain_part :: "string \<Rightarrow> bool" where
  "plain_part s = (s \<noteq> '''' \<and> \<not> starts_with ''.'' s \<and> CHR ''/'' \<notin> set s)"

lemma norm_step_plain: "s \<noteq> '''' \<Longrightarrow> \<not> starts_with ''.'' s \<Longrightarrow> norm_step a s st = s # st"
  by (auto simp: starts_with_def)

lemma fold_norm_plain: "\<forall>s \<in> set ss. \<not> starts_with ''.'' s \<Longrightarrow>
    fold (norm_step a) ss st = rev (filter (\<lambda>s. s \<noteq> '''') ss) @ st"
proof (induction ss arbitrary: st)
  case (Cons s ss)
  then show ?case by (cases "s = ''''") (simp_all add: norm_step_plain del: norm_step.simps, simp)
qed simp

lemma split_on_join: "ss \<noteq> [] \<Longrightarrow> \<forall>s \<in> set ss. c \<notin> set s \<Longrightarrow> split_on c (join [c] ss) = ss"
proof (induction "[c]" ss rule: join.induct)
  case (2 x)
  then show ?case by (simp add: split_on_no_sep)
next
  case (3 x y xs)
  then show ?case by (simp add: split_on_append)
qed simp

lemma last_join: "ss \<noteq> [] \<Longrightarrow> last ss \<noteq> [] \<Longrightarrow> last (join sep ss) = last (last ss) \<and> join sep ss \<noteq> []"
  by (induction sep ss rule: join.induct) auto

lemma join_snoc: "ss \<noteq> [] \<Longrightarrow> join sep (ss @ [x]) = join sep ss @ sep @ x"
proof (induction sep ss rule: join.induct)
  case (3 sep y z xs)
  then show ?case by (cases xs) auto
qed auto

lemma hd_join: "ss \<noteq> [] \<Longrightarrow> hd ss \<noteq> [] \<Longrightarrow> hd (join sep ss) = hd (hd ss)"
  by (induction sep ss rule: join.induct) auto

lemma ends_with_single: "ends_with [c] s \<longleftrightarrow> s \<noteq> [] \<and> last s = c"
  by (auto simp: ends_with_iff) (metis append_butlast_last_id)

lemma starts_with_single: "starts_with [c] s \<longleftrightarrow> s \<noteq> [] \<and> hd s = c"
  by (cases s) (auto simp: starts_with_def)

lemma database_path_Inr: "database_path p = Inr q \<Longrightarrow> q = p"
  by (auto simp: database_path_def split: if_splits)

lemma database_path_parts:
  assumes "database_path p = Inr q"
  shows "\<exists>ss. ss \<noteq> [] \<and> (p = join ''/'' ss \<or> p = join ''/'' ss @ ''/'') \<and> (\<forall>s \<in> set ss. plain_part s)"
proof -
  let ?parts = "split_on (CHR ''/'') p"
  let ?ss = "filter (\<lambda>s. s \<noteq> '''') ?parts"
  from assms have p: "p \<noteq> ''''" "\<not> is_absolute p" "normalize p = p" and bad: "\<forall>s \<in> set ?parts. \<not> starts_with ''.'' s"
    by (auto simp: database_path_def list_ex_iff bad_part_def split: if_splits)
  have plain: "\<forall>s \<in> set ?ss. plain_part s"
    using bad split_on_parts by (auto simp: plain_part_def)
  obtain s0 rest where parts: "?parts = s0 # rest" by (cases ?parts) auto
  have "s0 \<noteq> ''''"
  proof
    assume "s0 = ''''"
    then have "hd p = CHR ''/''" using parts p(1) by (cases p) (auto split: if_splits list.splits)
    then show False using p(1,2) by (simp add: is_absolute_def starts_with_single)
  qed
  then have ne: "?ss \<noteq> []" using parts by simp
  then have body: "join ''/'' ?ss \<noteq> ''''"
    using last_join [OF ne] plain last_in_set [OF ne] by (auto simp: plain_part_def)
  have "normalize p = join ''/'' ?ss \<or> normalize p = join ''/'' ?ss @ ''/''"
    using p(1,2) body by (simp add: normalize_def Let_def fold_norm_plain [OF bad])
  then show ?thesis using p(3) ne plain by metis
qed

lemma database_path_plain:
  assumes "ss \<noteq> []" and "\<forall>s \<in> set ss. plain_part s" and "p = join ''/'' ss \<or> p = join ''/'' ss @ ''/''"
  shows "database_path p = Inr p"
proof -
  have noslash: "\<forall>s \<in> set ss. CHR ''/'' \<notin> set s" and nodot: "\<forall>s \<in> set ss. \<not> starts_with ''.'' s"
    and nonempty: "\<forall>s \<in> set ss. s \<noteq> ''''"
    using assms(2) by (auto simp: plain_part_def)
  have split: "split_on (CHR ''/'') (join ''/'' ss) = ss" by (rule split_on_join [OF assms(1) noslash])
  have last: "last (join ''/'' ss) = last (last ss)" "join ''/'' ss \<noteq> []"
    using last_join [OF assms(1), of "''/''"] assms(1) nonempty by auto
  have lastc: "last (join ''/'' ss) \<noteq> CHR ''/''"
    unfolding last using noslash nonempty assms(1) by (metis last_in_set)
  have hdc: "hd (join ''/'' ss) \<noteq> CHR ''/''"
    using hd_join [OF assms(1), of "''/''"] noslash nonempty assms(1) by (metis hd_in_set)
  have filt: "filter (\<lambda>s. s \<noteq> '''') ss = ss" using nonempty by (simp add: filter_id_conv)
  from assms(3) show ?thesis
  proof
    assume p: "p = join ''/'' ss"
    have "normalize p = p"
      using last hdc lastc
      by (simp add: normalize_def Let_def p is_absolute_def ends_with_single starts_with_single split
          fold_norm_plain [OF nodot] filt)
    then show ?thesis
      using p last hdc split nodot by (auto simp: database_path_def is_absolute_def starts_with_single list_ex_iff bad_part_def)
  next
    assume p: "p = join ''/'' ss @ ''/''"
    have split': "split_on (CHR ''/'') p = ss @ [[]]"
    proof -
      have "p = join ''/'' (ss @ [[]])" using p assms(1) by (simp add: join_snoc)
      then show ?thesis using split_on_join [of "ss @ [[]]" "CHR ''/''"] noslash by simp
    qed
    have nodot': "\<forall>s \<in> set (ss @ [[]]). \<not> starts_with ''.'' s" using nodot by (simp add: starts_with_def)
    have good: "\<not> list_ex bad_part (ss @ [[]])"
      using nodot by (auto simp: list_ex_iff bad_part_def starts_with_def)
    have hdp: "hd p \<noteq> CHR ''/''" using hdc last p by simp
    have "normalize p = p"
      using last hdp
      by (simp add: normalize_def Let_def is_absolute_def ends_with_single starts_with_single split'
          fold_norm_plain [OF nodot] filt) (simp add: p)
    then show ?thesis
      using p hdp split' good unfolding database_path_def is_absolute_def starts_with_single
      by simp
  qed
qed

text \<open>C6: a database path names a file under the root and nothing else.\<close>

theorem database_path_iff:
  "database_path p = Inr p \<longleftrightarrow>
     (\<exists>ss. ss \<noteq> [] \<and> (p = join ''/'' ss \<or> p = join ''/'' ss @ ''/'') \<and>
       list_all (\<lambda>s. s \<noteq> '''' \<and> \<not> starts_with ''.'' s \<and> CHR ''/'' \<notin> set s) ss)"
  using database_path_parts database_path_plain unfolding plain_part_def list_all_iff by blast

end
