(* ===== verification/Disk.thy ===== *)
theory Disk
  imports Paths
begin

section \<open>The file system of the registry (src/store/file-writer.ts)\<close>

text \<open>
  The file system underneath the engine: the files by location, the open transaction directories,
  the symbolic links, and an oracle that says which of the durable operations to come fail. A
  program is a function from the world to its outcome and the next world; a durable operation that
  fails leaves the files as they are and throws. A crash is the run in which every operation from
  some point on fails: its world is the disk the next start finds.

  The directories between the root and a file are not modelled, nor are reads that fail.
\<close>

subsection \<open>The world\<close>

datatype loc = Db path | Stage string nat | Intent string | Revision | Temp loc nat

record event =
  event_path :: path
  event_revision :: nat
  event_etag :: string
  event_actor :: "string option"
  event_keys :: "string list"
  event_txn :: string

record world =
  files :: "(loc \<times> string) list"
  dirs :: "string list"
  links :: "path list"
  events :: "event list"
  clock :: nat
  fails :: "nat \<Rightarrow> bool"
  recovery_required :: bool
  ready :: "(string + unit) option"

text \<open>A program over a state: it returns or throws a message, and leaves a state.\<close>

type_synonym ('s, 'a) prog = "'s \<Rightarrow> (string + 'a) \<times> 's"
type_synonym 'a io = "(world, 'a) prog"

definition io_return :: "'a \<Rightarrow> ('s, 'a) prog" where
  "io_return x w = (Inr x, w)"

definition io_throw :: "string \<Rightarrow> ('s, 'a) prog" where
  "io_throw e w = (Inl e, w)"

definition io_bind :: "('s, 'a) prog \<Rightarrow> ('a \<Rightarrow> ('s, 'b) prog) \<Rightarrow> ('s, 'b) prog" where
  "io_bind m f w = (case m w of (Inl e, w') \<Rightarrow> (Inl e, w') | (Inr x, w') \<Rightarrow> f x w')"

definition io_then :: "('s, 'a) prog \<Rightarrow> ('s, 'b) prog \<Rightarrow> ('s, 'b) prog" where
  "io_then m n = io_bind m (\<lambda>_. n)"

definition io_catch :: "('s, 'a) prog \<Rightarrow> (string \<Rightarrow> ('s, 'a) prog) \<Rightarrow> ('s, 'a) prog" where
  "io_catch m h w = (case m w of (Inl e, w') \<Rightarrow> h e w' | (Inr x, w') \<Rightarrow> (Inr x, w'))"

definition io_read :: "('s \<Rightarrow> 'a) \<Rightarrow> ('s, 'a) prog" where
  "io_read f w = (Inr (f w), w)"

definition io_update :: "('s \<Rightarrow> 's) \<Rightarrow> ('s, unit) prog" where
  "io_update f w = (Inr (), f w)"

text \<open>A pure computation that may throw.\<close>

definition io_lift :: "string + 'a \<Rightarrow> ('s, 'a) prog" where
  "io_lift r w = (r, w)"

text \<open>One durable operation: it happens as a whole, or it fails and throws.\<close>

definition io_step :: "(world \<Rightarrow> world) \<Rightarrow> unit io" where
  "io_step f w = (let w' = w\<lparr>clock := Suc (clock w)\<rparr>
     in if fails w (clock w) then (Inl ''EIO'', w') else (Inr (), f w'))"

fun io_for :: "('a \<Rightarrow> ('s, unit) prog) \<Rightarrow> 'a list \<Rightarrow> ('s, unit) prog" where
  "io_for f [] = io_return ()"
| "io_for f (x # xs) = io_then (f x) (io_for f xs)"

text \<open>Reading and changing the files.\<close>

definition file_at :: "world \<Rightarrow> loc \<Rightarrow> string option" where
  "file_at w l = map_of (files w) l"

definition put_file :: "loc \<Rightarrow> string \<Rightarrow> world \<Rightarrow> world" where
  "put_file l c w = w\<lparr>files := AList.update l c (files w)\<rparr>"

definition del_file :: "loc \<Rightarrow> world \<Rightarrow> world" where
  "del_file l w = w\<lparr>files := AList.delete l (files w)\<rparr>"

definition move_file :: "loc \<Rightarrow> loc \<Rightarrow> world \<Rightarrow> world" where
  "move_file l m w = (case file_at w l of None \<Rightarrow> w | Some c \<Rightarrow> put_file m c (del_file l w))"

subsection \<open>The file writer\<close>

text \<open>\<open>readOptional\<close>: a missing file is \<open>null\<close>.\<close>

definition read_optional :: "loc \<Rightarrow> string option io" where
  "read_optional l = io_read (\<lambda>w. file_at w l)"

definition sync_directory :: "unit io" where
  "sync_directory = io_step (\<lambda>w. w)"

definition ensure_directory :: "unit io" where
  "ensure_directory = io_step (\<lambda>w. w)"

text \<open>
  \<open>write\<close>: a temporary beside the target, filled and synced, then renamed over it. The clock
  stands for the random part of the temporary's name, so that every one is new.
\<close>

definition writer_write :: "loc \<Rightarrow> string \<Rightarrow> unit io" where
  "writer_write l c =
     io_then ensure_directory
       (io_bind (io_read clock) (\<lambda>n.
          let t = Temp l n in
          io_catch
            (io_then (io_step (put_file t ''''))
              (io_then (io_step (put_file t c))
                (io_then (io_step (move_file t l)) sync_directory)))
            (\<lambda>cause. io_then (io_catch (io_step (del_file t)) (\<lambda>_. io_return ())) (io_throw cause))))"

definition writer_remove :: "loc \<Rightarrow> unit io" where
  "writer_remove l = io_then (io_step (del_file l)) sync_directory"

text \<open>\<open>install\<close>: renaming a file that is not there throws.\<close>

definition writer_install :: "loc \<Rightarrow> loc \<Rightarrow> unit io" where
  "writer_install staged target =
     io_then ensure_directory
       (io_bind (io_read (\<lambda>w. file_at w staged)) (\<lambda>c.
          if c = None then io_throw ''ENOENT''
          else io_then (io_step (move_file staged target)) (io_then sync_directory sync_directory)))"

definition assert_no_symlinks :: "path \<Rightarrow> unit io" where
  "assert_no_symlinks p =
     io_bind (io_lift (database_path p)) (\<lambda>_.
       io_bind (io_read links) (\<lambda>ls.
         if list_ex (\<lambda>q. q \<in> set ls) (path_prefixes '''' (split_on (CHR ''/'') p))
         then io_throw (''symlink in database path: '' @ p) else io_return ()))"

definition file_validate :: "loc \<Rightarrow> (string \<Rightarrow> 'e + 'a) \<Rightarrow> ('e + 'a) io" where
  "file_validate l v = io_bind (io_read (\<lambda>w. file_at w l)) (\<lambda>c.
     case c of None \<Rightarrow> io_throw ''ENOENT'' | Some s \<Rightarrow> io_return (v s))"

subsection \<open>Reasoning about programs that may fail\<close>

text \<open>
  \<open>triple P m Q E\<close>: from a world in \<open>P\<close>, the program returns in \<open>Q\<close> or throws in \<open>E\<close>. Since any
  operation may fail, \<open>E\<close> holds of every intermediate disk that a crash can leave.
\<close>

definition triple :: "('s \<Rightarrow> bool) \<Rightarrow> ('s, 'a) prog \<Rightarrow> ('a \<Rightarrow> 's \<Rightarrow> bool) \<Rightarrow> ('s \<Rightarrow> bool) \<Rightarrow> bool" where
  "triple P m Q E = (\<forall>w. P w \<longrightarrow> (case m w of (Inl e, w') \<Rightarrow> E w' | (Inr x, w') \<Rightarrow> Q x w'))"

lemma tripleI:
  "(\<And>w e w'. P w \<Longrightarrow> m w = (Inl e, w') \<Longrightarrow> E w') \<Longrightarrow>
   (\<And>w x w'. P w \<Longrightarrow> m w = (Inr x, w') \<Longrightarrow> Q x w') \<Longrightarrow> triple P m Q E"
  by (auto simp: triple_def split: prod.split sum.split)

lemma tripleD:
  "triple P m Q E \<Longrightarrow> P w \<Longrightarrow> m w = (r, w') \<Longrightarrow> case r of Inl e \<Rightarrow> E w' | Inr x \<Rightarrow> Q x w'"
  by (auto simp: triple_def split: prod.splits sum.splits)

lemma triple_conseq:
  "triple P m Q E \<Longrightarrow> (\<And>w. P' w \<Longrightarrow> P w) \<Longrightarrow> (\<And>x w. Q x w \<Longrightarrow> Q' x w) \<Longrightarrow> (\<And>w. E w \<Longrightarrow> E' w) \<Longrightarrow> triple P' m Q' E'"
  unfolding triple_def by (fastforce split: prod.splits sum.splits)

lemma triple_pre: "triple P m Q E \<Longrightarrow> (\<And>w. P' w \<Longrightarrow> P w) \<Longrightarrow> triple P' m Q E"
  by (rule triple_conseq)

lemma triple_return: "(\<And>w. P w \<Longrightarrow> Q x w) \<Longrightarrow> triple P (io_return x) Q E"
  by (simp add: triple_def io_return_def)

lemma triple_throw: "(\<And>w. P w \<Longrightarrow> E w) \<Longrightarrow> triple P (io_throw e) Q E"
  by (simp add: triple_def io_throw_def)

lemma triple_bind: "triple P m R E \<Longrightarrow> (\<And>x. triple (R x) (f x) Q E) \<Longrightarrow> triple P (io_bind m f) Q E"
  unfolding triple_def io_bind_def by (fastforce split: prod.splits sum.splits)

lemma triple_then: "triple P m (\<lambda>_. R) E \<Longrightarrow> triple R n Q E \<Longrightarrow> triple P (io_then m n) Q E"
  unfolding io_then_def by (rule triple_bind)

lemma triple_catch: "triple P m Q R \<Longrightarrow> (\<And>e. triple R (h e) Q E) \<Longrightarrow> triple P (io_catch m h) Q E"
  unfolding triple_def io_catch_def by (fastforce split: prod.splits sum.splits)

lemma triple_read: "(\<And>w. P w \<Longrightarrow> Q (f w) w) \<Longrightarrow> triple P (io_read f) Q E"
  by (simp add: triple_def io_read_def)

lemma triple_bind_read: "(\<And>x. triple (\<lambda>w. P w \<and> x = f w) (g x) Q E) \<Longrightarrow> triple P (io_bind (io_read f) g) Q E"
  by (simp add: triple_def io_read_def io_bind_def)

lemma triple_update: "(\<And>w. P w \<Longrightarrow> Q () (f w)) \<Longrightarrow> triple P (io_update f) Q E"
  by (simp add: triple_def io_update_def)

lemma triple_lift:
  "(\<And>w x. P w \<Longrightarrow> r = Inr x \<Longrightarrow> Q x w) \<Longrightarrow> (\<And>w e. P w \<Longrightarrow> r = Inl e \<Longrightarrow> E w) \<Longrightarrow> triple P (io_lift r) Q E"
  by (cases r) (auto simp: triple_def io_lift_def)

definition faulty :: "world \<Rightarrow> bool" where
  "faulty w = (\<exists>k. fails w k)"

lemma triple_step:
  "(\<And>w n. P w \<Longrightarrow> faulty w \<Longrightarrow> E (w\<lparr>clock := n\<rparr>)) \<Longrightarrow> (\<And>w n. P w \<Longrightarrow> Q () (f (w\<lparr>clock := n\<rparr>))) \<Longrightarrow>
   triple P (io_step f) Q E"
  by (auto simp: triple_def io_step_def faulty_def Let_def)

lemma triple_if:
  "(b \<Longrightarrow> triple P m Q E) \<Longrightarrow> (\<not> b \<Longrightarrow> triple P n Q E) \<Longrightarrow> triple P (if b then m else n) Q E"
  by simp

lemma triple_assume: "(A \<Longrightarrow> triple P m Q E) \<Longrightarrow> triple (\<lambda>w. A \<and> P w) m Q E"
  by (auto simp: triple_def)

lemma triple_for:
  assumes "\<And>ys x zs. xs = ys @ x # zs \<Longrightarrow> triple (I ys) (f x) (\<lambda>_. I (ys @ [x])) E"
  shows "triple (I []) (io_for f xs) (\<lambda>_. I xs) E"
proof -
  have "triple (I ys) (io_for f zs) (\<lambda>_. I (ys @ zs)) E" if "xs = ys @ zs" for ys zs
    using that
  proof (induction zs arbitrary: ys)
    case Nil
    then show ?case by (simp add: triple_return)
  next
    case (Cons x zs)
    show ?case
      using triple_then [OF assms [OF Cons.prems] Cons.IH [of "ys @ [x]"]] Cons.prems by simp
  qed
  then show ?thesis by fastforce
qed

subsection \<open>Files under the operations\<close>

lemma file_at_put [simp]: "file_at (put_file l c w) m = (if m = l then Some c else file_at w m)"
  by (simp add: file_at_def put_file_def)

lemma file_at_del [simp]: "file_at (del_file l w) m = (if m = l then None else file_at w m)"
  by (simp add: file_at_def del_file_def)

lemma file_at_fields [simp]:
  "file_at (w\<lparr>dirs := ds\<rparr>) l = file_at w l"
  "file_at (w\<lparr>events := es\<rparr>) l = file_at w l"
  "file_at (w\<lparr>clock := n\<rparr>) l = file_at w l"
  "file_at (w\<lparr>fails := g\<rparr>) l = file_at w l"
  "file_at (w\<lparr>recovery_required := b\<rparr>) l = file_at w l"
  "file_at (w\<lparr>ready := r\<rparr>) l = file_at w l"
  by (simp_all add: file_at_def)

lemma put_file_fields [simp]:
  "dirs (put_file l c w) = dirs w" "links (put_file l c w) = links w"
  "events (put_file l c w) = events w" "clock (put_file l c w) = clock w" "fails (put_file l c w) = fails w"
  "recovery_required (put_file l c w) = recovery_required w" "ready (put_file l c w) = ready w"
  by (simp_all add: put_file_def)

lemma del_file_fields [simp]:
  "dirs (del_file l w) = dirs w" "links (del_file l w) = links w"
  "events (del_file l w) = events w" "clock (del_file l w) = clock w" "fails (del_file l w) = fails w"
  "recovery_required (del_file l w) = recovery_required w" "ready (del_file l w) = ready w"
  by (simp_all add: del_file_def)

text \<open>
  Two worlds agree when they hold the same files, temporaries apart, the same transaction
  directories and links, the same engine state and the same failures to come: what every invariant
  below is about.
\<close>

fun is_temp :: "loc \<Rightarrow> bool" where
  "is_temp (Temp _ _) = True"
| "is_temp _ = False"

definition agree :: "world \<Rightarrow> world \<Rightarrow> bool" where
  "agree w w' = ((\<forall>l. \<not> is_temp l \<longrightarrow> file_at w' l = file_at w l) \<and> dirs w' = dirs w \<and> links w' = links w
     \<and> fails w' = fails w \<and> recovery_required w' = recovery_required w \<and> ready w' = ready w)"

definition settled_pred :: "(world \<Rightarrow> bool) \<Rightarrow> bool" where
  "settled_pred P = (\<forall>w w'. agree w w' \<longrightarrow> P w \<longrightarrow> P w')"

lemma settled_predD: "settled_pred P \<Longrightarrow> P w \<Longrightarrow> agree w w' \<Longrightarrow> P w'"
  unfolding settled_pred_def by blast

lemma agree_refl [simp]: "agree w w"
  by (simp add: agree_def)

lemma agree_trans: "agree u v \<Longrightarrow> agree v w \<Longrightarrow> agree u w"
  by (simp add: agree_def)

lemma agree_sym: "agree u v \<Longrightarrow> agree v u"
  by (simp add: agree_def)

lemma agree_clock [simp]: "agree w (w\<lparr>clock := n\<rparr>)"
  by (simp add: agree_def)

lemma agree_events [simp]: "agree w (w\<lparr>events := es\<rparr>)"
  by (simp add: agree_def)

lemma faulty_clock [simp]: "faulty (w\<lparr>clock := n\<rparr>) = faulty w"
  by (simp add: faulty_def)

lemma agree_faulty: "agree w w' \<Longrightarrow> faulty w' = faulty w"
  by (simp add: agree_def faulty_def)

lemma agree_put_temp [simp]: "agree w (put_file (Temp l n) c w)"
  by (auto simp: agree_def)

lemma agree_del_temp [simp]: "agree w (del_file (Temp l n) w)"
  by (auto simp: agree_def)

lemma settled_clock: "settled_pred P \<Longrightarrow> P w \<Longrightarrow> P (w\<lparr>clock := n\<rparr>)"
  using settled_predD agree_clock by blast

lemma settled_put_temp: "settled_pred P \<Longrightarrow> P w \<Longrightarrow> P (put_file (Temp l n) c w)"
  using settled_predD agree_put_temp by blast

lemma settled_del_temp: "settled_pred P \<Longrightarrow> P w \<Longrightarrow> P (del_file (Temp l n) w)"
  using settled_predD agree_del_temp by blast

lemma settled_disj: "settled_pred P \<Longrightarrow> settled_pred Q \<Longrightarrow> settled_pred (\<lambda>w. P w \<or> Q w)"
  unfolding settled_pred_def by blast

text \<open>An operation without effect on what the invariants see keeps them all.\<close>

lemma triple_idle_step:
  assumes "settled_pred P" and "\<And>w. agree w (f w)" and "\<And>w. P w \<Longrightarrow> faulty w \<Longrightarrow> E w"
  shows "triple P (io_step f) (\<lambda>_. P) E"
proof (rule triple_step)
  fix w n
  assume w: "P w"
  then have P: "P (w\<lparr>clock := n\<rparr>)" by (rule settled_clock [OF assms(1)])
  then show "P (f (w\<lparr>clock := n\<rparr>))" using settled_predD [OF assms(1) _ assms(2)] by auto
  assume "faulty w"
  then show "E (w\<lparr>clock := n\<rparr>)" using assms(3) [OF P] by simp
qed

text \<open>The writer replaces the target as a whole: before the rename the old world, after it the new.\<close>

lemma writer_write_triple:
  assumes P: "settled_pred P" and Q: "settled_pred Q" and l: "\<not> is_temp l"
    and put: "\<And>w. P w \<Longrightarrow> Q (put_file l c w)"
  shows "triple P (writer_write l c) (\<lambda>_. Q) (\<lambda>w. faulty w \<and> (P w \<or> Q w))"
proof -
  let ?E = "\<lambda>w. faulty w \<and> (P w \<or> Q w)"
  have E: "settled_pred ?E"
    using P Q unfolding settled_pred_def by (metis agree_faulty)
  have body: "triple P
      (io_then (io_step (put_file (Temp l n) ''''))
         (io_then (io_step (put_file (Temp l n) c))
           (io_then (io_step (move_file (Temp l n) l)) sync_directory))) (\<lambda>_. Q) ?E" for n
  proof (rule triple_then [where R = P])
    show "triple P (io_step (put_file (Temp l n) '''')) (\<lambda>_. P) ?E"
      by (rule triple_idle_step) (use P in simp_all)
    let ?R = "\<lambda>w. P w \<and> file_at w (Temp l n) = Some c"
    show "triple P (io_then (io_step (put_file (Temp l n) c))
           (io_then (io_step (move_file (Temp l n) l)) sync_directory)) (\<lambda>_. Q) ?E"
    proof (rule triple_then [where R = ?R])
      show "triple P (io_step (put_file (Temp l n) c)) (\<lambda>_. ?R) ?E"
        by (rule triple_step) (simp_all add: settled_clock [OF P] settled_put_temp [OF P])
      show "triple ?R (io_then (io_step (move_file (Temp l n) l)) sync_directory) (\<lambda>_. Q) ?E"
      proof (rule triple_then [where R = Q])
        show "triple ?R (io_step (move_file (Temp l n) l)) (\<lambda>_. Q) ?E"
        proof (rule triple_step)
          fix w k
          assume w: "P w \<and> file_at w (Temp l n) = Some c"
          then show "faulty w \<Longrightarrow> faulty (w\<lparr>clock := k\<rparr>) \<and> (P (w\<lparr>clock := k\<rparr>) \<or> Q (w\<lparr>clock := k\<rparr>))"
            by (simp add: settled_clock [OF P])
          have "P (del_file (Temp l n) (w\<lparr>clock := k\<rparr>))"
            using w by (simp add: settled_clock [OF P] settled_del_temp [OF P])
          then have "Q (put_file l c (del_file (Temp l n) (w\<lparr>clock := k\<rparr>)))" by (rule put)
          then show "Q (move_file (Temp l n) l (w\<lparr>clock := k\<rparr>))" using w by (simp add: move_file_def)
        qed
        show "triple Q sync_directory (\<lambda>_. Q) ?E"
          unfolding sync_directory_def by (rule triple_idle_step) (use Q in simp_all)
      qed
    qed
  qed
  have clean: "triple ?E (io_then (io_catch (io_step (del_file (Temp l n))) (\<lambda>_. io_return ())) (io_throw cause)) (\<lambda>_. Q) ?E"
    for n cause
  proof (rule triple_then [where R = ?E])
    show "triple ?E (io_catch (io_step (del_file (Temp l n))) (\<lambda>_. io_return ())) (\<lambda>_. ?E) ?E"
      by (rule triple_catch [where R = ?E], rule triple_idle_step [OF E]) (simp_all add: triple_return)
  qed (simp add: triple_throw)
  show ?thesis
    unfolding writer_write_def ensure_directory_def Let_def
    by (rule triple_then [where R = P], rule triple_idle_step [OF P], simp_all add: P)
      (rule triple_bind [where R = "\<lambda>_. P"], rule triple_read, simp,
        rule triple_catch [OF body clean])
qed

lemma sync_directory_triple: "settled_pred P \<Longrightarrow> triple P sync_directory (\<lambda>_. P) (\<lambda>w. faulty w \<and> P w)"
  unfolding sync_directory_def by (rule triple_idle_step) simp_all

lemma ensure_directory_triple: "settled_pred P \<Longrightarrow> triple P ensure_directory (\<lambda>_. P) (\<lambda>w. faulty w \<and> P w)"
  unfolding ensure_directory_def by (rule triple_idle_step) simp_all

lemma triple_weaken_E: "triple P m Q E \<Longrightarrow> (\<And>w. E w \<Longrightarrow> E' w) \<Longrightarrow> triple P m Q E'"
  by (rule triple_conseq)

lemma triple_change_step:
  assumes "settled_pred P" and "\<And>w. P w \<Longrightarrow> Q (f w)"
  shows "triple P (io_step f) (\<lambda>_. Q) (\<lambda>w. faulty w \<and> P w)"
  by (rule triple_step) (auto intro: settled_clock [OF assms(1)] assms(2))

lemma writer_install_triple:
  assumes P: "settled_pred P" and Q: "settled_pred Q"
    and staged: "\<And>w. P w \<Longrightarrow> file_at w staged \<noteq> None"
    and move: "\<And>w. P w \<Longrightarrow> Q (move_file staged target w)"
  shows "triple P (writer_install staged target) (\<lambda>_. Q) (\<lambda>w. faulty w \<and> (P w \<or> Q w))"
  unfolding writer_install_def
proof (rule triple_then [where R = P])
  show "triple P ensure_directory (\<lambda>_. P) (\<lambda>w. faulty w \<and> (P w \<or> Q w))"
    by (rule triple_weaken_E [OF ensure_directory_triple [OF P]]) blast
  have syncs: "triple Q (io_then sync_directory sync_directory) (\<lambda>_. Q) (\<lambda>w. faulty w \<and> (P w \<or> Q w))"
    by (rule triple_then [where R = Q]; rule triple_weaken_E [OF sync_directory_triple [OF Q]]) blast+
  have "triple P (io_step (move_file staged target)) (\<lambda>_. Q) (\<lambda>w. faulty w \<and> (P w \<or> Q w))"
    by (rule triple_weaken_E, rule triple_change_step [OF P], erule move) blast
  from triple_then [OF this syncs]
  have *: "triple P (io_then (io_step (move_file staged target)) (io_then sync_directory sync_directory))
      (\<lambda>_. Q) (\<lambda>w. faulty w \<and> (P w \<or> Q w))" .
  show "triple P (io_bind (io_read (\<lambda>w. file_at w staged)) (\<lambda>c. if c = None then io_throw ''ENOENT''
      else io_then (io_step (move_file staged target)) (io_then sync_directory sync_directory)))
      (\<lambda>_. Q) (\<lambda>w. faulty w \<and> (P w \<or> Q w))"
  proof (rule triple_bind_read, rule triple_if)
    show "triple (\<lambda>w. P w \<and> c = file_at w staged) (io_throw ''ENOENT'') (\<lambda>_. Q) (\<lambda>w. faulty w \<and> (P w \<or> Q w))"
      if "c = None" for c
      using that staged by (intro triple_throw) metis
  qed (rule triple_pre [OF *], simp)
qed

lemma writer_remove_triple:
  assumes P: "settled_pred P" and Q: "settled_pred Q" and del: "\<And>w. P w \<Longrightarrow> Q (del_file l w)"
  shows "triple P (writer_remove l) (\<lambda>_. Q) (\<lambda>w. faulty w \<and> (P w \<or> Q w))"
  unfolding writer_remove_def
  by (rule triple_then [where R = Q])
    (rule triple_weaken_E, rule triple_change_step [OF P] sync_directory_triple [OF Q], (erule del)?, blast)+

lemma settled_predI: "(\<And>w w'. agree w w' \<Longrightarrow> P w \<Longrightarrow> P w') \<Longrightarrow> settled_pred P"
  unfolding settled_pred_def by blast

lemma agreeD:
  assumes "agree w w'"
  shows "file_at w' (Db p) = file_at w (Db p)" "file_at w' (Stage t k) = file_at w (Stage t k)"
    "file_at w' (Intent t) = file_at w (Intent t)" "file_at w' Revision = file_at w Revision"
    "dirs w' = dirs w" "links w' = links w" "fails w' = fails w"
    "recovery_required w' = recovery_required w" "ready w' = ready w"
  using assms by (auto simp: agree_def)

subsection \<open>What the file operations leave alone\<close>

definition preserves :: "('s \<Rightarrow> 'b) \<Rightarrow> ('s, 'a) prog \<Rightarrow> bool" where
  "preserves f m = (\<forall>w. f (snd (m w)) = f w)"

named_theorems preserves_intros \<open>programs that leave an observation of the world alone\<close>

lemma preserves_basic [preserves_intros]:
  "preserves f (io_return x)" "preserves f (io_throw e)" "preserves f (io_read g)" "preserves f (io_lift r)"
  by (simp_all add: preserves_def io_return_def io_throw_def io_read_def io_lift_def)

lemma preserves_bind [preserves_intros]: "preserves f m \<Longrightarrow> (\<And>x. preserves f (k x)) \<Longrightarrow> preserves f (io_bind m k)"
  by (auto simp: preserves_def io_bind_def split: prod.split sum.split) (metis snd_conv)+

lemma preserves_then [preserves_intros]: "preserves f m \<Longrightarrow> preserves f n \<Longrightarrow> preserves f (io_then m n)"
  by (simp add: io_then_def preserves_bind)

lemma preserves_catch [preserves_intros]: "preserves f m \<Longrightarrow> (\<And>e. preserves f (h e)) \<Longrightarrow> preserves f (io_catch m h)"
  by (auto simp: preserves_def io_catch_def split: prod.split sum.split) (metis snd_conv)+

lemma preserves_for [preserves_intros]: "(\<And>x. preserves f (k x)) \<Longrightarrow> preserves f (io_for k xs)"
  by (induction xs) (auto intro: preserves_intros)

lemma preserves_update [preserves_intros]: "(\<And>w. f (g w) = f w) \<Longrightarrow> preserves f (io_update g)"
  by (simp add: preserves_def io_update_def)

lemma preserves_if [preserves_intros]: "preserves f m \<Longrightarrow> preserves f n \<Longrightarrow> preserves f (if b then m else n)"
  by simp

lemma preserves_cases [preserves_intros]:
  "(\<And>a b. preserves f (g a b)) \<Longrightarrow> preserves f (case x of (a, b) \<Rightarrow> g a b)"
  "preserves f m \<Longrightarrow> (\<And>a. preserves f (h a)) \<Longrightarrow> preserves f (case y of None \<Rightarrow> m | Some a \<Rightarrow> h a)"
  by (simp_all split: prod.split option.split)

lemma triple_preserves:
  assumes "triple P m Q E" and "preserves f m"
  shows "triple (\<lambda>w. P w \<and> f w = x) m (\<lambda>y w. Q y w \<and> f w = x) (\<lambda>w. E w \<and> f w = x)"
  unfolding triple_def
proof (intro allI impI)
  fix w
  assume w: "P w \<and> f w = x"
  obtain r w' where m: "m w = (r, w')" by (cases "m w")
  then have "f w' = x" using assms(2) w unfolding preserves_def by (metis snd_conv)
  then show "case m w of (Inl e, w') \<Rightarrow> E w' \<and> f w' = x | (Inr y, w') \<Rightarrow> Q y w' \<and> f w' = x"
    using tripleD [OF assms(1) _ m] w by (auto simp: m split: sum.splits)
qed

text \<open>
  An observation the disk operations do not touch: it sees neither the files, nor the directories,
  nor the events, nor the clock. What the journal preserves of it is proved once, here.
\<close>

locale disk_observer =
  fixes obs :: "world \<Rightarrow> 'b"
  assumes obs_files [simp]: "obs (w\<lparr>files := fs\<rparr>) = obs w"
    and obs_dirs [simp]: "obs (w\<lparr>dirs := ds\<rparr>) = obs w"
    and obs_events [simp]: "obs (w\<lparr>events := es\<rparr>) = obs w"
    and obs_clock [simp]: "obs (w\<lparr>clock := n\<rparr>) = obs w"
begin

lemma obs_put [simp]: "obs (put_file l c w) = obs w"
  by (simp add: put_file_def)

lemma obs_del [simp]: "obs (del_file l w) = obs w"
  by (simp add: del_file_def)

lemma obs_move [simp]: "obs (move_file l m w) = obs w"
  by (simp add: move_file_def split: option.split)

lemma preserves_step [preserves_intros]: "(\<And>w. obs (f w) = obs w) \<Longrightarrow> preserves obs (io_step f)"
  by (simp add: preserves_def io_step_def Let_def)

lemma preserves_writer [preserves_intros]:
  "preserves obs (writer_write l c)" "preserves obs (writer_remove l)" "preserves obs (writer_install s l)"
  "preserves obs sync_directory" "preserves obs ensure_directory" "preserves obs (read_optional l)"
  "preserves obs (assert_no_symlinks p)"
  unfolding writer_write_def writer_remove_def writer_install_def sync_directory_def ensure_directory_def Let_def
    read_optional_def assert_no_symlinks_def
  by (intro preserves_intros; simp)+

end

end
