(* ===== verification/Json.thy ===== *)
theory Json
  imports Prelude
begin

section \<open>JSON: \<open>JSON.stringify\<close> and \<open>JSON.parse\<close>\<close>

text \<open>
  The two functions of the language that the program stores documents with: journal lines,
  transaction intents, snapshots, session cookies and the client's cache are all
  \<open>JSON.stringify\<close> of a value, read back by \<open>JSON.parse\<close>. The printer leaves out undefined
  members and prints no white space; the parser accepts RFC 8259 with white space anywhere, keeps
  the last of two members with one name, and fails (\<open>None\<close>, the code's exception) on everything
  else. A \<open>\u\<close> escape becomes the UTF-8 bytes of its code unit. The parser's fuel bounds its
  nesting; \<open>json_parse\<close> gives it the length of the text, and \<open>json_roundtrip\<close> shows
  that this is always enough for a printed value.
\<close>

definition dquote :: char where
  "dquote = CHR 0x22"

definition backslash :: char where
  "backslash = CHR 0x5C"

definition hex_digit :: "nat \<Rightarrow> char" where
  "hex_digit d = (if d < 10 then char_of (48 + d) else char_of (87 + d))"

definition json_escape :: "char \<Rightarrow> string" where
  "json_escape c =
     (if c = dquote then [backslash, dquote]
      else if c = backslash then [backslash, backslash]
      else if c = CHR 0x08 then [backslash, CHR ''b'']
      else if c = CHR 0x09 then [backslash, CHR ''t'']
      else if c = CHR 0x0A then [backslash, CHR ''n'']
      else if c = CHR 0x0C then [backslash, CHR ''f'']
      else if c = CHR 0x0D then [backslash, CHR ''r'']
      else if (of_char c :: nat) < 32
        then backslash # ''u00'' @ [hex_digit (of_char c div 16), hex_digit (of_char c mod 16)]
      else [c])"

definition json_string :: "string \<Rightarrow> string" where
  "json_string s = dquote # concat (map json_escape s) @ [dquote]"

fun json :: "jsval \<Rightarrow> string" where
  "json JUndef = ''null''"
| "json JNull = ''null''"
| "json (JBool b) = (if b then ''true'' else ''false'')"
| "json (JNum n) = (if num_is_finite n then num_str n else ''null'')"
| "json (JStr s) = json_string s"
| "json (JArr vs) = ''['' @ join '','' (map json vs) @ '']''"
| "json (JObj kvs) = ''{'' @ join '','' (map (\<lambda>(k, v). json_string k @ '':'' @ json v)
     (filter (\<lambda>(k, v). v \<noteq> JUndef) kvs)) @ ''}''"

definition json_ws :: "char \<Rightarrow> bool" where
  "json_ws c = (c = CHR '' '' \<or> c = CHR 0x09 \<or> c = CHR 0x0A \<or> c = CHR 0x0D)"

definition skip_ws :: "string \<Rightarrow> string" where
  "skip_ws s = dropWhile json_ws s"

definition digit_val :: "char \<Rightarrow> nat" where
  "digit_val c = of_char c - 48"

definition hex_val :: "char \<Rightarrow> nat option" where
  "hex_val c = (let n = of_char c :: nat in
     if 48 \<le> n \<and> n \<le> 57 then Some (n - 48)
     else if 97 \<le> n \<and> n \<le> 102 then Some (n - 87)
     else if 65 \<le> n \<and> n \<le> 70 then Some (n - 55) else None)"

definition utf8 :: "nat \<Rightarrow> string" where
  "utf8 n = (if n < 128 then [char_of n]
     else if n < 2048 then [char_of (192 + n div 64), char_of (128 + n mod 64)]
     else [char_of (224 + n div 4096), char_of (128 + n div 64 mod 64), char_of (128 + n mod 64)])"

definition json_unescape :: "char \<Rightarrow> char option" where
  "json_unescape c =
     (if c = dquote \<or> c = backslash \<or> c = CHR ''/'' then Some c
      else if c = CHR ''b'' then Some (CHR 0x08)
      else if c = CHR ''t'' then Some (CHR 0x09)
      else if c = CHR ''n'' then Some (CHR 0x0A)
      else if c = CHR ''f'' then Some (CHR 0x0C)
      else if c = CHR ''r'' then Some (CHR 0x0D) else None)"

text \<open>The characters of a string after its opening quote.\<close>

fun json_chars :: "string \<Rightarrow> (string \<times> string) option" where
  "json_chars [] = None"
| "json_chars (c # s) =
     (if c = dquote then Some ([], s)
      else if c = backslash then
        (case s of [] \<Rightarrow> None
         | e # t \<Rightarrow>
           if e = CHR ''u'' then
             (case t of a # b # d # f # r \<Rightarrow>
                (case (hex_val a, hex_val b, hex_val d, hex_val f) of
                   (Some x, Some y, Some z, Some w) \<Rightarrow>
                     map_option (\<lambda>(cs, r'). (utf8 (x * 4096 + y * 256 + z * 16 + w) @ cs, r'))
                       (json_chars r)
                 | _ \<Rightarrow> None)
              | _ \<Rightarrow> None)
           else (case json_unescape e of None \<Rightarrow> None
                 | Some x \<Rightarrow> map_option (\<lambda>(cs, r). (x # cs, r)) (json_chars t)))
      else if (of_char c :: nat) < 32 then None
      else map_option (\<lambda>(cs, r). (c # cs, r)) (json_chars s))"

definition digits_val :: "string \<Rightarrow> nat" where
  "digits_val ds = foldl (\<lambda>a d. a * 10 + digit_val d) 0 ds"

text \<open>The number \<open>m / 10 ^ e\<close> in the form the model keeps numbers in.\<close>

fun strip_dec :: "int \<Rightarrow> nat \<Rightarrow> jsnum" where
  "strip_dec m 0 = NInt m"
| "strip_dec m (Suc e) = (if m mod 10 = 0 then strip_dec (m div 10) e else NDec m e)"

definition scale_dec :: "int \<Rightarrow> int \<Rightarrow> jsnum" where
  "scale_dec m k = (if 0 \<le> k then NInt (m * 10 ^ nat k) else strip_dec m (nat (- k)))"

definition json_exponent :: "string \<Rightarrow> (int \<times> string) option" where
  "json_exponent s = (case s of
     c # t \<Rightarrow>
       if c = CHR ''e'' \<or> c = CHR ''E'' then
         (let neg = (t \<noteq> [] \<and> hd t = CHR ''-'');
              u = (if t \<noteq> [] \<and> (hd t = CHR ''-'' \<or> hd t = CHR ''+'') then tl t else t);
              ds = takeWhile is_digit u
          in if ds = [] then None
             else Some ((if neg then - int (digits_val ds) else int (digits_val ds)),
                        dropWhile is_digit u))
       else Some (0, s)
   | [] \<Rightarrow> Some (0, s))"

definition json_number :: "string \<Rightarrow> (jsval \<times> string) option" where
  "json_number s =
     (let neg = (s \<noteq> [] \<and> hd s = CHR ''-'');
          t = (if neg then tl s else s);
          ip = takeWhile is_digit t;
          r = dropWhile is_digit t;
          sign = (\<lambda>n::nat. if neg then - int n else int n)
      in if ip = [] \<or> (hd ip = CHR ''0'' \<and> tl ip \<noteq> []) then None
         else let dot = (r \<noteq> [] \<and> hd r = CHR ''.'');
                  fp = (if dot then takeWhile is_digit (tl r) else []);
                  r2 = (if dot then dropWhile is_digit (tl r) else r)
              in if dot \<and> fp = [] then None
                 else map_option
                   (\<lambda>(k, r3). (JNum (scale_dec (sign (digits_val (ip @ fp))) (k - int (length fp))), r3))
                   (json_exponent r2))"

definition json_object :: "(string \<times> jsval) list \<Rightarrow> jsval" where
  "json_object kvs = JObj (foldl (\<lambda>d (k, v). AList.update k v d) [] kvs)"

fun json_value :: "nat \<Rightarrow> string \<Rightarrow> (jsval \<times> string) option"
  and json_elems :: "nat \<Rightarrow> string \<Rightarrow> (jsval list \<times> string) option"
  and json_members :: "nat \<Rightarrow> string \<Rightarrow> ((string \<times> jsval) list \<times> string) option"
where
  "json_value 0 s = None"
| "json_value (Suc n) s =
     (case skip_ws s of
        [] \<Rightarrow> None
      | c # t \<Rightarrow>
          if c = CHR ''{'' then
            (if skip_ws t \<noteq> [] \<and> hd (skip_ws t) = CHR ''}'' then Some (JObj [], tl (skip_ws t))
             else map_option (\<lambda>(kvs, r). (json_object kvs, r)) (json_members n t))
          else if c = CHR ''['' then
            (if skip_ws t \<noteq> [] \<and> hd (skip_ws t) = CHR '']'' then Some (JArr [], tl (skip_ws t))
             else map_option (\<lambda>(vs, r). (JArr vs, r)) (json_elems n t))
          else if c = dquote then map_option (\<lambda>(cs, r). (JStr cs, r)) (json_chars t)
          else if c = CHR ''-'' \<or> is_digit c then json_number (c # t)
          else if starts_with ''true'' (c # t) then Some (JBool True, drop 3 t)
          else if starts_with ''false'' (c # t) then Some (JBool False, drop 4 t)
          else if starts_with ''null'' (c # t) then Some (JNull, drop 3 t)
          else None)"
| "json_elems 0 s = None"
| "json_elems (Suc n) s =
     (case json_value n s of
        None \<Rightarrow> None
      | Some (v, r) \<Rightarrow>
          (case skip_ws r of
             [] \<Rightarrow> None
           | c # t \<Rightarrow>
               if c = CHR '','' then map_option (\<lambda>(vs, r'). (v # vs, r')) (json_elems n t)
               else if c = CHR '']'' then Some ([v], t) else None))"
| "json_members 0 s = None"
| "json_members (Suc n) s =
     (case skip_ws s of
        [] \<Rightarrow> None
      | q # t \<Rightarrow>
          if q \<noteq> dquote then None
          else (case json_chars t of
             None \<Rightarrow> None
           | Some (k, r) \<Rightarrow>
               (case skip_ws r of
                  [] \<Rightarrow> None
                | c # u \<Rightarrow>
                    if c \<noteq> CHR '':'' then None
                    else (case json_value n u of
                       None \<Rightarrow> None
                     | Some (v, r2) \<Rightarrow>
                         (case skip_ws r2 of
                            [] \<Rightarrow> None
                          | e # w \<Rightarrow>
                              if e = CHR '','' then
                                map_option (\<lambda>(kvs, r3). ((k, v) # kvs, r3)) (json_members n w)
                              else if e = CHR ''}'' then Some ([(k, v)], w) else None)))))"

definition json_parse :: "string \<Rightarrow> jsval option" where
  "json_parse s = (case json_value (Suc (length s)) s of
     None \<Rightarrow> None
   | Some (v, r) \<Rightarrow> if skip_ws r = [] then Some v else None)"

subsection \<open>Strings and numbers are read back\<close>

lemma of_char_lt_256: "(of_char c :: nat) < 256"
  by (cases c) (simp add: of_char_Char horner_sum_simps of_bool_def split: if_splits)

lemma hex_val_hex_digit: "d < 16 \<Longrightarrow> hex_val (hex_digit d) = Some d"
  by (auto simp: hex_val_def hex_digit_def Let_def)

lemma hex_pair:
  assumes "(of_char c :: nat) < 32"
  shows "hex_val (hex_digit (of_char c div 16)) = Some (of_char c div 16)"
    and "hex_val (hex_digit (of_char c mod 16)) = Some (of_char c mod 16)"
  using assms by (auto intro!: hex_val_hex_digit)

lemma json_chars_escape:
  "json_chars (json_escape c @ s) = map_option (\<lambda>(cs, r). (c # cs, r)) (json_chars s)"
proof -
  consider "c \<in> {dquote, backslash, CHR 0x08, CHR 0x09, CHR 0x0A, CHR 0x0C, CHR 0x0D}"
    | "c \<notin> {dquote, backslash, CHR 0x08, CHR 0x09, CHR 0x0A, CHR 0x0C, CHR 0x0D}"
      "(of_char c :: nat) < 32"
    | "c \<notin> {dquote, backslash, CHR 0x08, CHR 0x09, CHR 0x0A, CHR 0x0C, CHR 0x0D}"
      "\<not> (of_char c :: nat) < 32"
    by blast
  then show ?thesis
  proof cases
    case 1
    then show ?thesis
      by (elim insertE emptyE)
        (simp_all add: json_escape_def json_unescape_def dquote_def backslash_def)
  next
    case 2
    have z: "hex_val CHR ''0'' = Some 0" by (simp add: hex_val_def)
    have "utf8 (of_char c) = [c]" using 2(2) by (simp add: utf8_def)
    with 2 z show ?thesis
      by (simp add: json_escape_def hex_pair dquote_def backslash_def mult.commute)
  next
    case 3
    then show ?thesis by (simp add: json_escape_def)
  qed
qed

lemma json_chars_body: "json_chars (concat (map json_escape s) @ dquote # r) = Some (s, r)"
  by (induction s) (simp_all add: json_chars_escape)

lemma digits_val_append: "digits_val (xs @ [d]) = digits_val xs * 10 + digit_val d"
  by (simp add: digits_val_def)

lemma digit_val_digit_char: "d < 10 \<Longrightarrow> digit_val (digit_char d) = d"
  by (simp add: digit_val_def digit_char_def)

lemma digits_val_nat_str: "digits_val (nat_str n) = n"
proof (induction n rule: nat_str.induct)
  case (1 n)
  show ?case
  proof (cases "n < 10")
    case True
    then show ?thesis by (simp add: nat_str.simps digits_val_def digit_val_digit_char)
  next
    case False
    then show ?thesis
      using 1 by (simp add: nat_str.simps [of n] digits_val_append digit_val_digit_char)
  qed
qed

lemma nat_str_hd: "0 < n \<Longrightarrow> hd (nat_str n) \<noteq> CHR ''0''"
proof (induction n rule: nat_str.induct)
  case (1 n)
  show ?case
  proof (cases "n < 10")
    case True
    then have "hd (nat_str n) = digit_char n" by (simp add: nat_str.simps)
    moreover have "CHR ''0'' = digit_char 0" by code_simp
    ultimately show ?thesis using digit_char_inj [of n 0] True 1(2) by auto
  next
    case False
    then show ?thesis using 1 by (simp add: nat_str.simps [of n])
  qed
qed

definition json_delim :: "string \<Rightarrow> bool" where
  "json_delim r = (case r of [] \<Rightarrow> True
     | c # _ \<Rightarrow> \<not> is_digit c \<and> c \<noteq> CHR ''.'' \<and> c \<noteq> CHR ''e'' \<and> c \<noteq> CHR ''E'')"

lemma takeWhile_nat_str:
  assumes "json_delim r"
  shows "takeWhile is_digit (nat_str n @ r) = nat_str n"
    and "dropWhile is_digit (nat_str n @ r) = r"
proof -
  have all: "\<forall>c \<in> set (nat_str n). is_digit c" by (blast dest: nat_str_digits)
  have "takeWhile is_digit r = []" "dropWhile is_digit r = r"
    using assms by (auto simp: json_delim_def split: list.splits)
  with all show "takeWhile is_digit (nat_str n @ r) = nat_str n"
    and "dropWhile is_digit (nat_str n @ r) = r"
    by (simp_all add: takeWhile_append2 dropWhile_append2)
qed

lemma nat_str_canonical: "\<not> (hd (nat_str n) = CHR ''0'' \<and> tl (nat_str n) \<noteq> [])"
proof (cases "n = 0")
  case True
  then show ?thesis by (simp add: nat_str.simps)
qed (use nat_str_hd in auto)

lemma json_exponent_delim: "json_delim r \<Longrightarrow> json_exponent r = Some (0, r)"
  by (auto simp: json_exponent_def json_delim_def split: list.splits)

lemma hd_nat_str_digit: "is_digit (hd (nat_str n))"
  using nat_str_digits [of "hd (nat_str n)" n] by simp

lemma json_number_nat:
  fixes n :: nat and r :: string
  assumes d: "json_delim r"
  defines "t \<equiv> nat_str n @ r"
  shows "json_number t = Some (JNum (NInt (int n)), r)"
    and "json_number (CHR ''-'' # t) = Some (JNum (NInt (- int n)), r)"
proof -
  have tw: "takeWhile is_digit t = nat_str n" "dropWhile is_digit t = r"
    unfolding t_def by (rule takeWhile_nat_str [OF d])+
  have minus: "hd t \<noteq> CHR ''-''"
    using hd_nat_str_digit [of n] by (auto simp: t_def is_digit_def less_eq_char_def)
  have dot: "\<not> (r \<noteq> [] \<and> hd r = CHR ''.'')"
    using d by (auto simp: json_delim_def split: list.splits)
  note facts = tw nat_str_canonical [of n] json_exponent_delim [OF d] digits_val_nat_str
  show "json_number t = Some (JNum (NInt (int n)), r)"
    using facts minus dot by (cases r)
      (simp_all add: json_number_def Let_def scale_dec_def del: dropWhile_eq_Nil_conv)
  show "json_number (CHR ''-'' # t) = Some (JNum (NInt (- int n)), r)"
    using facts dot by (cases r)
      (simp_all add: json_number_def Let_def scale_dec_def del: dropWhile_eq_Nil_conv)
qed

lemma json_number_int: "json_delim r \<Longrightarrow> json_number (int_str i @ r) = Some (JNum (NInt i), r)"
  using json_number_nat(1) [of r "nat i"] json_number_nat(2) [of r "nat (- i)"]
  by (simp add: int_str_def)

subsection \<open>Documents are read back\<close>

text \<open>
  The values \<open>JSON.parse\<close> returns unchanged: no \<open>undefined\<close>, integer numbers, and objects
  whose members have distinct names.
\<close>

fun json_ok :: "jsval \<Rightarrow> bool" where
  "json_ok JUndef = False"
| "json_ok (JNum n) = num_is_integer n"
| "json_ok (JArr vs) = list_all json_ok vs"
| "json_ok (JObj kvs) = (distinct (map fst kvs) \<and> list_all (\<lambda>(k, v). json_ok v) kvs)"
| "json_ok _ = True"

lemma json_ok_defined: "json_ok v \<Longrightarrow> v \<noteq> JUndef"
  by (cases v) auto

lemma update_fresh: "k \<notin> fst ` set xs \<Longrightarrow> AList.update k v xs = xs @ [(k, v)]"
  by (induction xs) (auto simp: image_iff)

lemma foldl_update_distinct:
  "distinct (map fst (acc @ kvs)) \<Longrightarrow> foldl (\<lambda>d (k, v). AList.update k v d) acc kvs = acc @ kvs"
proof (induction kvs arbitrary: acc)
  case (Cons kv kvs)
  obtain k v where kv: "kv = (k, v)" by (cases kv)
  with Cons.prems have "AList.update k v acc = acc @ [(k, v)]"
    by (intro update_fresh) auto
  with Cons kv show ?case by simp
qed simp

text \<open>The fuel a printed value needs, and its length as a bound.\<close>

fun json_need :: "jsval \<Rightarrow> nat" where
  "json_need (JArr vs) = Suc (sum_list (map (\<lambda>v. Suc (json_need v)) vs))"
| "json_need (JObj kvs) = Suc (sum_list (map (\<lambda>(k, v). Suc (json_need v)) kvs))"
| "json_need _ = 1"

lemma length_join_comma:
  "xs \<noteq> [] \<Longrightarrow> length (join [c] xs) + 1 = sum_list (map (\<lambda>x. Suc (length x)) xs)"
proof (induction xs)
  case (Cons x xs)
  then show ?case by (cases xs) auto
qed simp

lemma filter_defined: "list_all (\<lambda>(k, v). json_ok v) kvs \<Longrightarrow> filter (\<lambda>(k, v). v \<noteq> JUndef) kvs = kvs"
  by (induction kvs) (auto dest: json_ok_defined)

lemma sum_list_mono_map:
  "(\<And>x. x \<in> set xs \<Longrightarrow> f x \<le> (g x :: nat)) \<Longrightarrow> sum_list (map f xs) \<le> sum_list (map g xs)"
  by (induction xs) (auto intro: add_mono)

lemma json_need_le: "json_ok v \<Longrightarrow> json_need v \<le> length (json v)"
proof (induction v rule: json.induct)
  case (4 n)
  then show ?case by (cases n) (auto simp: int_str_def Suc_le_eq)
next
  case (6 vs)
  have "sum_list (map (\<lambda>v. Suc (json_need v)) vs) \<le> sum_list (map (\<lambda>v. Suc (length (json v))) vs)"
    using 6 by (intro sum_list_mono_map) (auto simp: list_all_iff)
  then show ?case
    using length_join_comma [of "map json vs" "CHR '',''"] by (cases "vs = []") (auto simp: comp_def)
next
  case (7 kvs)
  let ?m = "\<lambda>(k, v). json_string k @ '':'' @ json v"
  have f: "filter (\<lambda>(k, v). v \<noteq> JUndef) kvs = kvs"
    using 7(2) by (intro filter_defined) simp
  have "sum_list (map (\<lambda>(k, v). Suc (json_need v)) kvs) \<le> sum_list (map (\<lambda>kv. Suc (length (?m kv))) kvs)"
    using 7 f by (intro sum_list_mono_map) (fastforce simp: list_all_iff)
  then show ?case
    using length_join_comma [of "map ?m kvs" "CHR '',''"] f
    by (cases "kvs = []") (auto simp: comp_def)
qed (auto simp: json_string_def)

lemma int_str_Cons: "\<exists>c t. int_str i = c # t \<and> (c = CHR ''-'' \<or> is_digit c)"
proof (cases "i < 0")
  case False
  then show ?thesis
    using hd_nat_str_digit [of "nat i"] nat_str_not_Nil [of "nat i"]
    by (cases "nat_str (nat i)") (auto simp: int_str_def)
qed (simp add: int_str_def)

definition reads :: "jsval \<Rightarrow> bool" where
  "reads v = (\<forall>n r. json_need v \<le> n \<longrightarrow> json_delim r \<longrightarrow> json_value n (json v @ r) = Some (v, r))"

lemma readsD: "reads v \<Longrightarrow> json_need v \<le> n \<Longrightarrow> json_delim r \<Longrightarrow> json_value n (json v @ r) = Some (v, r)"
  by (simp add: reads_def)

lemma delim_punct:
  "json_delim (CHR '','' # r)" "json_delim (CHR '']'' # r)" "json_delim (CHR ''}'' # r)"
  by (simp_all add: json_delim_def is_digit_def less_eq_char_def)

lemma skip_ws_punct:
  "skip_ws (CHR '','' # r) = CHR '','' # r" "skip_ws (CHR '']'' # r) = CHR '']'' # r"
  "skip_ws (CHR ''}'' # r) = CHR ''}'' # r" "skip_ws (CHR '':'' # r) = CHR '':'' # r"
  "skip_ws (dquote # r) = dquote # r" "skip_ws (CHR ''['' # r) = CHR ''['' # r"
  "skip_ws (CHR ''{'' # r) = CHR ''{'' # r"
  by (simp_all add: skip_ws_def json_ws_def dquote_def)

lemma reads_elems:
  assumes "vs \<noteq> []" and "\<And>v. v \<in> set vs \<Longrightarrow> reads v"
    and "sum_list (map (\<lambda>v. Suc (json_need v)) vs) \<le> n"
  shows "json_elems n (join '','' (map json vs) @ CHR '']'' # r) = Some (vs, r)"
  using assms
proof (induction vs arbitrary: n)
  case (Cons v vs)
  then obtain m where n: "n = Suc m" by (cases n) auto
  have v: "json_need v \<le> m" using Cons.prems(3) n by simp
  show ?case
  proof (cases "vs = []")
    case True
    then have "json_value m (json v @ CHR '']'' # r) = Some (v, CHR '']'' # r)"
      using Cons.prems(2) v by (intro readsD delim_punct) auto
    with True n show ?thesis by (simp add: skip_ws_punct)
  next
    case False
    let ?rest = "join '','' (map json vs) @ CHR '']'' # r"
    have "json_value m (json v @ CHR '','' # ?rest) = Some (v, CHR '','' # ?rest)"
      using Cons.prems(2) v by (intro readsD delim_punct) auto
    moreover have "json_elems m ?rest = Some (vs, r)"
      using Cons False n by simp
    moreover have "join '','' (map json (v # vs)) = json v @ CHR '','' # join '','' (map json vs)"
      using False by (cases vs) auto
    ultimately show ?thesis using n by (simp add: skip_ws_punct)
  qed
qed simp

lemma reads_members:
  assumes "kvs \<noteq> []" and "\<And>k v. (k, v) \<in> set kvs \<Longrightarrow> reads v"
    and "sum_list (map (\<lambda>(k, v). Suc (json_need v)) kvs) \<le> n"
  shows "json_members n (join '','' (map (\<lambda>(k, v). json_string k @ '':'' @ json v) kvs) @ CHR ''}'' # r)
    = Some (kvs, r)"
  using assms
proof (induction kvs arbitrary: n)
  case (Cons kv kvs)
  obtain k v where kv: "kv = (k, v)" by (cases kv)
  with Cons.prems obtain m where n: "n = Suc m" by (cases n) auto
  have v: "json_need v \<le> m" "reads v" using Cons.prems n kv by auto
  let ?m = "\<lambda>(k, v). json_string k @ '':'' @ json v"
  have k: "json_chars (tl (json_string k) @ s) = Some (k, s)" for s
    using json_chars_body [of k s] by (simp add: json_string_def)
  have q: "json_string k @ s = dquote # (tl (json_string k) @ s)" for s
    by (simp add: json_string_def)
  show ?case
  proof (cases "kvs = []")
    case True
    then have "json_value m (json v @ CHR ''}'' # r) = Some (v, CHR ''}'' # r)"
      using v by (intro readsD delim_punct) auto
    with True n kv show ?thesis by (simp add: skip_ws_punct q k)
  next
    case False
    let ?rest = "join '','' (map ?m kvs) @ CHR ''}'' # r"
    have "json_value m (json v @ CHR '','' # ?rest) = Some (v, CHR '','' # ?rest)"
      using v by (intro readsD delim_punct) auto
    moreover have "json_members m ?rest = Some (kvs, r)"
      using False Cons.prems n kv by (intro Cons.IH) auto
    moreover have "join '','' (map ?m (kv # kvs)) = ?m kv @ CHR '','' # join '','' (map ?m kvs)"
      using False by (cases kvs) auto
    ultimately show ?thesis using n kv by (simp add: skip_ws_punct q k)
  qed
qed simp

lemma json_elems_not_close:
  "json_elems n s = Some x \<Longrightarrow> \<not> (skip_ws s \<noteq> [] \<and> hd (skip_ws s) = CHR '']'')"
proof (cases n)
  case (Suc m)
  assume "json_elems n s = Some x"
  with Suc have v: "json_value m s \<noteq> None" by (auto split: option.splits)
  show ?thesis
  proof
    assume "skip_ws s \<noteq> [] \<and> hd (skip_ws s) = CHR '']''"
    then obtain t where "skip_ws s = CHR '']'' # t" by (cases "skip_ws s") auto
    with v show False
      by (cases m) (auto simp: dquote_def is_digit_def less_eq_char_def starts_with_def)
  qed
qed simp

lemma json_members_not_close:
  "json_members n s = Some x \<Longrightarrow> \<not> (skip_ws s \<noteq> [] \<and> hd (skip_ws s) = CHR ''}'')"
  by (cases n) (auto simp: dquote_def split: list.splits if_splits)

lemma json_ok_reads: "json_ok v \<Longrightarrow> reads v"
proof (induction v rule: json.induct)
  case (4 n)
  then obtain i where i: "n = NInt i" by (cases n) auto
  obtain c t where ct: "int_str i = c # t" and c: "c = CHR ''-'' \<or> is_digit c"
    using int_str_Cons by blast
  have "json_value m (json (JNum n) @ r) = Some (JNum n, r)" if pos: "0 < m" and d: "json_delim r" for m r
  proof -
    obtain m' where m: "m = Suc m'" using pos by (cases m) auto
    have "skip_ws (c # t @ r) = c # t @ r" "c \<noteq> CHR ''{''" "c \<noteq> CHR ''[''" "c \<noteq> dquote"
      using c by (auto simp: skip_ws_def json_ws_def is_digit_def less_eq_char_def dquote_def)
    then show ?thesis
      using json_number_int [OF d, of i] c i ct m by simp
  qed
  then show ?case by (simp add: reads_def)
next
  case (5 s)
  show ?case
    unfolding reads_def
  proof (intro allI impI)
    fix n r
    assume "json_need (JStr s) \<le> n"
    then obtain m where m: "n = Suc m" by (cases n) auto
    have "dquote \<noteq> CHR ''{''" "dquote \<noteq> CHR ''[''" by (simp_all add: dquote_def)
    then show "json_value n (json (JStr s) @ r) = Some (JStr s, r)"
      using json_chars_body [of s r] m by (simp add: json_string_def skip_ws_punct)
  qed
next
  case (6 vs)
  show ?case
    unfolding reads_def
  proof (intro allI impI)
    fix n r
    assume n: "json_need (JArr vs) \<le> n"
    then obtain m where m: "n = Suc m" by (cases n) auto
    show "json_value n (json (JArr vs) @ r) = Some (JArr vs, r)"
    proof (cases "vs = []")
      case True
      then show ?thesis using m by (simp add: skip_ws_punct)
    next
      case False
      have e: "json_elems m (join '','' (map json vs) @ CHR '']'' # r) = Some (vs, r)"
        using 6 False n m by (intro reads_elems) (auto simp: list_all_iff)
      with m json_elems_not_close [OF e] show ?thesis by (auto simp: skip_ws_punct)
    qed
  qed
next
  case (7 kvs)
  have f: "filter (\<lambda>(k, v). v \<noteq> JUndef) kvs = kvs"
    using 7(2) by (intro filter_defined) simp
  let ?m = "\<lambda>(k, v). json_string k @ '':'' @ json v"
  show ?case
    unfolding reads_def
  proof (intro allI impI)
    fix n r
    assume n: "json_need (JObj kvs) \<le> n"
    then obtain m where m: "n = Suc m" by (cases n) auto
    show "json_value n (json (JObj kvs) @ r) = Some (JObj kvs, r)"
    proof (cases "kvs = []")
      case True
      then show ?thesis using m by (simp add: skip_ws_punct)
    next
      case False
      have rd: "reads v" if "(k, v) \<in> set kvs" for k v
        using 7 f that by (fastforce simp: list_all_iff)
      have e: "json_members m (join '','' (map ?m kvs) @ CHR ''}'' # r) = Some (kvs, r)"
        using False n m rd by (intro reads_members) auto
      have o: "json_object kvs = JObj kvs"
        using foldl_update_distinct [of "[]" kvs] 7(2) by (simp add: json_object_def)
      from e m o f json_members_not_close [OF e] show ?thesis by (auto simp: skip_ws_punct)
    qed
  qed
qed (auto simp: reads_def skip_ws_def json_ws_def starts_with_def is_digit_def less_eq_char_def dquote_def
       gr0_conv_Suc Suc_le_eq numeral_eq_Suc)

text \<open>What \<open>JSON.stringify\<close> prints, \<open>JSON.parse\<close> reads back.\<close>

lemma json_roundtrip [simp]: "json_ok v \<Longrightarrow> json_parse (json v) = Some v"
  using readsD [OF json_ok_reads, of v "Suc (length (json v))" "[]"] json_need_le [of v]
  by (simp add: json_parse_def json_delim_def skip_ws_def)

lemma json_inject: "json_ok v \<Longrightarrow> json_ok w \<Longrightarrow> json v = json w \<Longrightarrow> v = w"
  using json_roundtrip by (metis option.inject)

end
