(* ===== verification/Journal.thy ===== *)
theory Journal
  imports Disk Json
begin

section \<open>The redo journal (src/store/transaction-journal.ts)\<close>

text \<open>
  A transaction stages its contents in a directory of its own, then records an intent: the moment
  it is decided. Applying an intent twice, or resuming it after a crash, has the effect of applying
  it once. \<open>sha\<close> stands for the SHA-256 of \<open>node:crypto\<close>, \<open>tid\<close> for the UUID the code draws.

  The lemmas read an intent back from the file it was written to, and follow \<open>apply\<close> and
  \<open>complete\<close> through every operation that can fail.
\<close>

subsection \<open>Intents\<close>

record mutation =
  mut_path :: path
  mut_hash :: "string option"
  mut_actor :: "string option"
  mut_keys :: "string list"

record intent =
  int_revision :: nat
  int_files :: "mutation list"

definition is_hex :: "char \<Rightarrow> bool" where
  "is_hex c = (is_digit c \<or> (CHR ''a'' \<le> c \<and> c \<le> CHR ''f''))"

definition hex64 :: "string \<Rightarrow> bool" where
  "hex64 s = (length s = 64 \<and> list_all is_hex s)"

definition mutation_ok :: "mutation \<Rightarrow> bool" where
  "mutation_ok m = (case mut_hash m of None \<Rightarrow> True | Some h \<Rightarrow> hex64 h)"

text \<open>\<open>intentSchema\<close> on the value that \<open>recordIntent\<close> builds.\<close>

definition intent_ok :: "intent \<Rightarrow> bool" where
  "intent_ok i = (int (int_revision i) \<le> max_safe \<and> list_all mutation_ok (int_files i) \<and> int_files i \<noteq> [])"

definition mutation_json :: "mutation \<Rightarrow> jsval" where
  "mutation_json m = JObj (
     [(''path'', JStr (mut_path m)),
      (''hash'', (case mut_hash m of None \<Rightarrow> JNull | Some h \<Rightarrow> JStr h))] @
     (case mut_actor m of None \<Rightarrow> [] | Some a \<Rightarrow> [(''actor'', JStr a)]) @
     [(''keys'', JArr (map JStr (mut_keys m)))])"

definition intent_json :: "intent \<Rightarrow> jsval" where
  "intent_json i = JObj
     [(''version'', JNum (NInt 1)), (''revision'', JNum (NInt (int (int_revision i)))),
      (''files'', JArr (map mutation_json (int_files i)))]"

definition str_of :: "jsval \<Rightarrow> string option" where
  "str_of v = (case v of JStr s \<Rightarrow> Some s | _ \<Rightarrow> None)"

text \<open>\<open>intentSchema.parse\<close> on a document read back: unknown properties are dropped.\<close>

definition parse_hash :: "jsval \<Rightarrow> string option option" where
  "parse_hash v = (case v of JNull \<Rightarrow> Some None | JStr h \<Rightarrow> (if hex64 h then Some (Some h) else None) | _ \<Rightarrow> None)"

definition parse_actor :: "jsval \<Rightarrow> string option option" where
  "parse_actor v = (case v of JUndef \<Rightarrow> Some None | JStr a \<Rightarrow> Some (Some a) | _ \<Rightarrow> None)"

definition parse_keys :: "jsval \<Rightarrow> string list option" where
  "parse_keys v = (case v of JArr vs \<Rightarrow> all_some (map str_of vs) | _ \<Rightarrow> None)"

definition parse_mutation :: "jsval \<Rightarrow> mutation option" where
  "parse_mutation v =
     (if \<not> is_record v then None else
      case (str_of (prop_of v ''path''), parse_hash (prop_of v ''hash''),
            parse_actor (prop_of v ''actor''), parse_keys (prop_of v ''keys'')) of
        (Some p, Some h, Some a, Some ks) \<Rightarrow> Some \<lparr>mut_path = p, mut_hash = h, mut_actor = a, mut_keys = ks\<rparr>
      | _ \<Rightarrow> None)"

definition parse_revision_number :: "jsval \<Rightarrow> nat option" where
  "parse_revision_number v =
     (case v of JNum (NInt n) \<Rightarrow> (if 0 \<le> n \<and> n \<le> max_safe then Some (nat n) else None) | _ \<Rightarrow> None)"

definition parse_intent :: "jsval \<Rightarrow> intent option" where
  "parse_intent v =
     (if \<not> is_record v \<or> prop_of v ''version'' \<noteq> JNum (NInt 1) then None else
      case (parse_revision_number (prop_of v ''revision''), prop_of v ''files'') of
        (Some n, JArr fs) \<Rightarrow>
          (case all_some (map parse_mutation fs) of
             Some ms \<Rightarrow> (if ms = [] then None else Some \<lparr>int_revision = n, int_files = ms\<rparr>)
           | None \<Rightarrow> None)
      | _ \<Rightarrow> None)"

definition read_intent :: "string \<Rightarrow> intent option" where
  "read_intent s = (case json_parse s of None \<Rightarrow> None | Some v \<Rightarrow> parse_intent v)"

lemma all_some_each:
  "(\<And>x. x \<in> set xs \<Longrightarrow> f x = Some (g x)) \<Longrightarrow> all_some (map f xs) = Some (map g xs)"
  by (induction xs) auto

lemma parse_mutation_json [simp]: "mutation_ok m \<Longrightarrow> parse_mutation (mutation_json m) = Some m"
  by (cases m; cases "mut_hash m"; cases "mut_actor m")
    (simp_all add: parse_mutation_def mutation_json_def is_record_def prop_of_def obj_of_def get_prop_def
      str_of_def parse_hash_def parse_actor_def parse_keys_def mutation_ok_def all_some_each [where g = id])

lemma parse_intent_json: "intent_ok i \<Longrightarrow> parse_intent (intent_json i) = Some i"
  by (cases i)
    (simp add: parse_intent_def intent_json_def intent_ok_def is_record_def prop_of_def obj_of_def get_prop_def
      parse_revision_number_def all_some_each [where g = id] list_all_iff o_def)

lemma json_ok_mutation: "json_ok (mutation_json m)"
  by (auto simp: mutation_json_def list_all_iff split: option.splits)

lemma json_ok_intent: "json_ok (intent_json i)"
  by (auto simp: intent_json_def list_all_iff json_ok_mutation)

lemma read_intent_json [simp]: "intent_ok i \<Longrightarrow> read_intent (json (intent_json i)) = Some i"
  by (simp add: read_intent_def json_ok_intent parse_intent_json)

subsection \<open>The operations\<close>

text \<open>What the caller wants of one file: \<open>None\<close> removes it.\<close>

record change =
  ch_path :: path
  ch_content :: "string option"
  ch_actor :: "string option"
  ch_keys :: "string list"

definition mutation_of :: "(string \<Rightarrow> string) \<Rightarrow> change \<Rightarrow> mutation" where
  "mutation_of sha f = \<lparr>mut_path = ch_path f, mut_hash = map_option sha (ch_content f),
     mut_actor = (case ch_actor f of Some a \<Rightarrow> (if a = '''' then None else Some a) | None \<Rightarrow> None),
     mut_keys = ch_keys f\<rparr>"

fun in_txn :: "string \<Rightarrow> loc \<Rightarrow> bool" where
  "in_txn tid (Stage i k) = (i = tid)"
| "in_txn tid (Intent i) = (i = tid)"
| "in_txn tid (Temp l n) = in_txn tid l"
| "in_txn tid _ = False"

text \<open>\<open>complete\<close>: a recursive removal, file by file in the order the directory lists them.\<close>

definition remove_dir :: "string \<Rightarrow> world \<Rightarrow> world" where
  "remove_dir tid w = w\<lparr>dirs := filter (\<lambda>d. d \<noteq> tid) (dirs w)\<rparr>"

definition complete :: "string \<Rightarrow> unit io" where
  "complete tid =
     io_bind (io_read (\<lambda>w. filter (in_txn tid) (map fst (files w)))) (\<lambda>ls.
       io_then (io_for (\<lambda>l. io_step (del_file l)) ls)
         (io_then (io_step (remove_dir tid)) sync_directory))"

text \<open>\<open>mkdir\<close> with \<open>recursive\<close>: a directory that exists is no error.\<close>

definition make_dir :: "string \<Rightarrow> world \<Rightarrow> world" where
  "make_dir tid w = (if tid \<in> set (dirs w) then w else w\<lparr>dirs := dirs w @ [tid]\<rparr>)"

definition stage_file :: "string \<Rightarrow> nat \<times> change \<Rightarrow> unit io" where
  "stage_file tid = (\<lambda>(k, f). case ch_content f of None \<Rightarrow> io_return ()
     | Some c \<Rightarrow> writer_write (Stage tid k) c)"

definition prepare :: "(string \<Rightarrow> string) \<Rightarrow> string \<Rightarrow> change list \<Rightarrow> (string \<times> mutation list) io" where
  "prepare sha tid fs =
     io_then (io_step (make_dir tid)) (io_then sync_directory (io_then sync_directory (io_then sync_directory
       (io_catch
         (io_then (io_for (stage_file tid) (enumerate 0 fs)) (io_return (tid, map (mutation_of sha) fs)))
         (\<lambda>e. io_then (complete tid) (io_throw e))))))"

definition record_intent :: "string \<Rightarrow> mutation list \<Rightarrow> nat \<Rightarrow> intent io" where
  "record_intent tid ms n =
     (let i = \<lparr>int_revision = n, int_files = ms\<rparr>
      in if intent_ok i then io_then (writer_write (Intent tid) (json (intent_json i))) (io_return i)
         else io_throw ''invalid intent'')"

definition apply_check :: "(string \<Rightarrow> string) \<Rightarrow> string \<Rightarrow> nat \<times> mutation \<Rightarrow> unit io" where
  "apply_check sha tid = (\<lambda>(k, m).
     io_then (assert_no_symlinks (mut_path m))
       (case mut_hash m of None \<Rightarrow> io_return ()
        | Some h \<Rightarrow>
          io_bind (io_lift (database_path (mut_path m))) (\<lambda>p.
          io_bind (read_optional (Db p)) (\<lambda>target.
            if (case target of Some c \<Rightarrow> sha c = h | None \<Rightarrow> False) then io_return ()
            else io_bind (read_optional (Stage tid k)) (\<lambda>staged.
              if (case staged of Some c \<Rightarrow> sha c \<noteq> h | None \<Rightarrow> True)
              then io_throw (''cannot recover transaction '' @ tid) else io_return ())))))"

definition apply_file :: "(string \<Rightarrow> string) \<Rightarrow> string \<Rightarrow> nat \<times> mutation \<Rightarrow> unit io" where
  "apply_file sha tid = (\<lambda>(k, m).
     io_bind (io_lift (database_path (mut_path m))) (\<lambda>p.
     io_bind (read_optional (Db p)) (\<lambda>current.
       case mut_hash m of
         None \<Rightarrow> (if current \<noteq> None then writer_remove (Db p) else io_return ())
       | Some h \<Rightarrow>
          (if (case current of Some c \<Rightarrow> sha c \<noteq> h | None \<Rightarrow> True)
           then writer_install (Stage tid k) (Db p) else io_return ()))))"

definition apply_intent :: "(string \<Rightarrow> string) \<Rightarrow> string \<Rightarrow> intent \<Rightarrow> unit io" where
  "apply_intent sha tid i =
     io_then (io_for (apply_check sha tid) (enumerate 0 (int_files i)))
       (io_for (apply_file sha tid) (enumerate 0 (int_files i)))"

definition txn_id :: "string \<Rightarrow> bool" where
  "txn_id s = (length s = 36 \<and> list_all (\<lambda>c. is_hex c \<or> c = CHR ''-'') s)"

text \<open>\<open>pending\<close>: a directory without an intent was never decided and is dropped.\<close>

fun pending_loop :: "string list \<Rightarrow> (string \<times> intent) list io" where
  "pending_loop [] = io_return []"
| "pending_loop (tid # ids) =
     (if \<not> txn_id tid then io_throw ''unrecognized transaction directory''
      else io_bind (read_optional (Intent tid)) (\<lambda>source.
        case source of
          None \<Rightarrow> io_then (complete tid) (pending_loop ids)
        | Some s \<Rightarrow>
           (case read_intent s of
              None \<Rightarrow> io_throw ''invalid intent''
            | Some i \<Rightarrow>
               io_then (io_for (\<lambda>m. io_bind (io_lift (database_path (mut_path m))) (\<lambda>_. io_return ())) (int_files i))
                 (io_bind (pending_loop ids) (\<lambda>rest. io_return ((tid, i) # rest))))))"

definition pending :: "(string \<times> intent) list io" where
  "pending = io_bind (io_read dirs) (\<lambda>ids. io_bind (pending_loop ids) (\<lambda>ps.
     io_return (sort_by (\<lambda>a b. int_revision (snd a) \<le> int_revision (snd b)) ps)))"

subsection \<open>What the journal keeps\<close>

definition linked :: "world \<Rightarrow> path \<Rightarrow> bool" where
  "linked w p = list_ex (\<lambda>q. q \<in> set (links w)) (path_prefixes '''' (split_on (CHR ''/'') p))"

definition tidy :: "world \<Rightarrow> bool" where
  "tidy w = (distinct (dirs w) \<and> list_all txn_id (dirs w))"

text \<open>
  A transaction that has been decided, and the contents \<open>A\<close> the database has once it is carried out:
  every file of the intent is either in place or staged with the right hash.
\<close>

definition intent_wf :: "world \<Rightarrow> intent \<Rightarrow> bool" where
  "intent_wf w i = (intent_ok i \<and> distinct (map mut_path (int_files i))
     \<and> (\<forall>m \<in> set (int_files i). database_path (mut_path m) = Inr (mut_path m) \<and> \<not> linked w (mut_path m)))"

definition payload_ok :: "(string \<Rightarrow> string) \<Rightarrow> (path \<Rightarrow> string option) \<Rightarrow> string \<Rightarrow> world \<Rightarrow> nat \<times> mutation \<Rightarrow> bool" where
  "payload_ok sha A t w = (\<lambda>(k, m).
     case mut_hash m of None \<Rightarrow> A (mut_path m) = None
     | Some h \<Rightarrow> \<exists>c. A (mut_path m) = Some c \<and> sha c = h \<and>
         (file_at w (Db (mut_path m)) = Some c \<or>
          file_at w (Stage t k) = Some c \<and> (\<forall>c'. file_at w (Db (mut_path m)) = Some c' \<longrightarrow> sha c' \<noteq> h)))"

definition others_done :: "(path \<Rightarrow> string option) \<Rightarrow> intent \<Rightarrow> world \<Rightarrow> bool" where
  "others_done A i w = (\<forall>p. p \<notin> mut_path ` set (int_files i) \<longrightarrow> file_at w (Db p) = A p)"

definition decided :: "(string \<Rightarrow> string) \<Rightarrow> (path \<Rightarrow> string option) \<Rightarrow> string option \<Rightarrow> string \<Rightarrow> intent \<Rightarrow> world \<Rightarrow> bool" where
  "decided sha A r t i w = (tidy w \<and> t \<in> set (dirs w) \<and> file_at w Revision = r \<and> intent_wf w i
     \<and> file_at w (Intent t) = Some (json (intent_json i)) \<and> (\<forall>u. u \<noteq> t \<longrightarrow> file_at w (Intent u) = None)
     \<and> (\<forall>e \<in> set (enumerate 0 (int_files i)). payload_ok sha A t w e) \<and> others_done A i w)"

definition in_place :: "(path \<Rightarrow> string option) \<Rightarrow> (nat \<times> mutation) list \<Rightarrow> world \<Rightarrow> bool" where
  "in_place A es w = (\<forall>e \<in> set es. file_at w (Db (mut_path (snd e))) = A (mut_path (snd e)))"

text \<open>No transaction is decided: the database holds \<open>A\<close>.\<close>

definition idle :: "(path \<Rightarrow> string option) \<Rightarrow> string option \<Rightarrow> world \<Rightarrow> bool" where
  "idle A r w = (tidy w \<and> file_at w Revision = r \<and> (\<forall>u. file_at w (Intent u) = None) \<and> (\<forall>p. file_at w (Db p) = A p))"

lemma linked_cong: "links w' = links w \<Longrightarrow> linked w' p = linked w p"
  by (simp add: linked_def)

lemma intent_wf_cong: "links w' = links w \<Longrightarrow> intent_wf w' i = intent_wf w i"
  by (simp add: intent_wf_def linked_def)

lemma intent_wf_files [simp]:
  "intent_wf (put_file l c w) i = intent_wf w i"
  "intent_wf (del_file l w) i = intent_wf w i"
  by (simp_all add: intent_wf_def linked_def)

lemma settled_payload: "agree w w' \<Longrightarrow> payload_ok sha A t w' e = payload_ok sha A t w e"
  by (simp add: payload_ok_def agreeD split: option.split prod.split)

lemma settled_decided: "settled_pred (decided sha A r t i)"
  by (rule settled_predI)
    (simp add: decided_def tidy_def others_done_def agreeD settled_payload intent_wf_cong [OF agreeD(6)])

lemma settled_in_place: "settled_pred (in_place A es)"
  by (rule settled_predI) (simp add: in_place_def agreeD)

lemma settled_idle: "settled_pred (idle A r)"
  by (rule settled_predI) (simp add: idle_def tidy_def agreeD)

lemma settled_conj: "settled_pred P \<Longrightarrow> settled_pred Q \<Longrightarrow> settled_pred (\<lambda>w. P w \<and> Q w)"
  unfolding settled_pred_def by blast

lemma assert_no_symlinks_run:
  "database_path p = Inr p \<Longrightarrow> \<not> linked w p \<Longrightarrow> assert_no_symlinks p w = (Inr (), w)"
  by (simp add: assert_no_symlinks_def io_bind_def io_lift_def io_read_def io_return_def linked_def)

subsection \<open>Carrying out an intent\<close>

lemma apply_check_run:
  assumes "decided sha A r t i w" and "e \<in> set (enumerate 0 (int_files i))"
  shows "apply_check sha t e w = (Inr (), w)"
proof -
  obtain k m where e: "e = (k, m)" by (cases e)
  have "m \<in> set (int_files i)" using assms(2) e by (auto simp: in_set_enumerate_eq)
  then have wf: "database_path (mut_path m) = Inr (mut_path m)" "\<not> linked w (mut_path m)"
    using assms(1) by (auto simp: decided_def intent_wf_def)
  have "payload_ok sha A t w (k, m)" using assms e by (auto simp: decided_def)
  then show ?thesis
    using wf assert_no_symlinks_run [OF wf]
    by (auto simp: e apply_check_def payload_ok_def io_then_def io_bind_def io_lift_def io_read_def
        io_return_def read_optional_def split: option.splits)
qed

lemma io_for_run: "(\<And>x. x \<in> set xs \<Longrightarrow> f x w = (Inr (), w)) \<Longrightarrow> io_for f xs w = (Inr (), w)"
  by (induction xs) (simp_all add: io_return_def io_then_def io_bind_def)

lemma put_payload:
  assumes "payload_ok sha A t w e" and "mut_path (snd e) \<noteq> p" and "fst e \<noteq> k"
  shows "payload_ok sha A t (put_file (Db p) c (del_file (Stage t k) w)) e"
  using assms by (auto simp: payload_ok_def split: option.splits prod.splits)

lemma del_payload:
  assumes "payload_ok sha A t w e" and "mut_path (snd e) \<noteq> p"
  shows "payload_ok sha A t (del_file (Db p) w) e"
  using assms by (auto simp: payload_ok_def split: option.splits prod.splits)

lemma enumerate_distinct_fst:
  "e \<in> set (enumerate n xs) \<Longrightarrow> f \<in> set (enumerate n xs) \<Longrightarrow> fst e = fst f \<Longrightarrow> e = f"
  by (cases e; cases f) (auto simp: in_set_enumerate_eq)

lemma enumerate_distinct_path:
  "distinct (map g xs) \<Longrightarrow> e \<in> set (enumerate 0 xs) \<Longrightarrow> f \<in> set (enumerate 0 xs) \<Longrightarrow> g (snd e) = g (snd f) \<Longrightarrow> e = f"
  using nth_eq_iff_index_eq [of "map g xs" "fst e" "fst f"]
  by (cases e; cases f) (auto simp: in_set_enumerate_eq)

lemma decided_install:
  assumes d: "decided sha A r t i w" and e: "(k, m) \<in> set (enumerate 0 (int_files i))"
    and c: "A (mut_path m) = Some c" "mut_hash m = Some (sha c)" and st: "file_at w (Stage t k) = Some c"
  shows "decided sha A r t i (move_file (Stage t k) (Db (mut_path m)) w)"
proof -
  let ?w = "put_file (Db (mut_path m)) c (del_file (Stage t k) w)"
  have dist: "distinct (map mut_path (int_files i))" using d by (simp add: decided_def intent_wf_def)
  have m: "m \<in> set (int_files i)" using e by (auto simp: in_set_enumerate_eq)
  have "payload_ok sha A t ?w f" if f: "f \<in> set (enumerate 0 (int_files i))" for f
  proof (cases "f = (k, m)")
    case True
    then show ?thesis using c by (simp add: payload_ok_def)
  next
    case False
    have "fst f \<noteq> k" using enumerate_distinct_fst [OF f e] False by auto
    moreover have "mut_path (snd f) \<noteq> mut_path m" using enumerate_distinct_path [OF dist f e] False by auto
    moreover have "payload_ok sha A t w f" using d f by (simp add: decided_def)
    ultimately show ?thesis by (intro put_payload) simp_all
  qed
  then show ?thesis
    using d m by (auto simp: move_file_def st decided_def tidy_def others_done_def)
qed

lemma decided_remove:
  assumes d: "decided sha A r t i w" and e: "(k, m) \<in> set (enumerate 0 (int_files i))"
    and c: "mut_hash m = None"
  shows "decided sha A r t i (del_file (Db (mut_path m)) w)"
proof -
  let ?w = "del_file (Db (mut_path m)) w"
  have dist: "distinct (map mut_path (int_files i))" using d by (simp add: decided_def intent_wf_def)
  have m: "m \<in> set (int_files i)" using e by (auto simp: in_set_enumerate_eq)
  have "payload_ok sha A t ?w f" if f: "f \<in> set (enumerate 0 (int_files i))" for f
  proof (cases "f = (k, m)")
    case True
    then show ?thesis using d e c by (auto simp: payload_ok_def decided_def)
  next
    case False
    have "mut_path (snd f) \<noteq> mut_path m" using enumerate_distinct_path [OF dist f e] False by auto
    moreover have "payload_ok sha A t w f" using d f by (simp add: decided_def)
    ultimately show ?thesis by (intro del_payload) simp_all
  qed
  then show ?thesis
    using d m by (auto simp: decided_def tidy_def others_done_def)
qed

lemma in_place_install:
  "in_place A es w \<Longrightarrow> A p = Some c \<Longrightarrow> file_at w (Stage t k) = Some c \<Longrightarrow>
   in_place A es (move_file (Stage t k) (Db p) w)"
  by (auto simp: in_place_def move_file_def)

lemma in_place_remove: "in_place A es w \<Longrightarrow> A p = None \<Longrightarrow> in_place A es (del_file (Db p) w)"
  by (auto simp: in_place_def)

lemma in_place_snoc: "in_place A (es @ [e]) w \<longleftrightarrow> in_place A es w \<and> file_at w (Db (mut_path (snd e))) = A (mut_path (snd e))"
  by (auto simp: in_place_def)

lemma triple_pointwise:
  "(\<And>w. P w \<Longrightarrow> \<exists>n. m w = n w \<and> triple (\<lambda>v. P v \<and> v = w) n Q E) \<Longrightarrow> triple P m Q E"
  unfolding triple_def by metis

lemma triple_run:
  "m w = n w \<Longrightarrow> triple P n Q E \<Longrightarrow> \<exists>n. m w = n w \<and> triple (\<lambda>v. P v \<and> v = w) n Q E"
  by (rule exI [of _ n]) (simp add: triple_def)

text \<open>Publishing one file keeps the decision and puts the file in place.\<close>

lemma apply_file_triple:
  assumes e: "e \<in> set (enumerate 0 (int_files i))"
  shows "triple (\<lambda>w. decided sha A r t i w \<and> in_place A es w) (apply_file sha t e)
    (\<lambda>_ w. decided sha A r t i w \<and> in_place A (es @ [e]) w) (\<lambda>w. faulty w \<and> decided sha A r t i w)"
    (is "triple ?P _ (\<lambda>_. ?Q) ?E")
proof (rule triple_pointwise)
  fix w
  assume w: "?P w"
  obtain k m where em: "e = (k, m)" by (cases e)
  let ?p = "mut_path m"
  have m: "(k, m) \<in> set (enumerate 0 (int_files i))" "m \<in> set (int_files i)"
    using e em by (auto simp: in_set_enumerate_eq)
  have path: "database_path ?p = Inr ?p" using w m by (auto simp: decided_def intent_wf_def)
  have pay: "payload_ok sha A t w (k, m)" using w e em by (auto simp: decided_def)
  have Q: "settled_pred ?Q" by (intro settled_conj settled_decided settled_in_place)
  let ?idle = "apply_file sha t e w = (Inr (), w) \<and> ?Q w"
  have skip: "\<exists>n. apply_file sha t e w = n w \<and> triple (\<lambda>v. ?P v \<and> v = w) n (\<lambda>_. ?Q) ?E" if ?idle
    using that by (intro exI [of _ "io_return ()"]) (auto simp: io_return_def triple_def)
  show "\<exists>n. apply_file sha t e w = n w \<and> triple (\<lambda>v. ?P v \<and> v = w) n (\<lambda>_. ?Q) ?E"
  proof (cases "mut_hash m")
    case None
    then have A: "A ?p = None" using pay by (simp add: payload_ok_def)
    show ?thesis
    proof (cases "file_at w (Db ?p)")
      case fNone: None
      show ?thesis
        by (rule skip) (use w A None fNone path em in \<open>simp add: apply_file_def io_bind_def io_lift_def
          read_optional_def io_read_def io_return_def in_place_snoc\<close>)
    next
      case (Some c)
      have run: "apply_file sha t e w = writer_remove (Db ?p) w"
        using None Some path em by (simp add: apply_file_def io_bind_def io_lift_def read_optional_def io_read_def)
      have "triple ?P (writer_remove (Db ?p)) (\<lambda>_. ?Q) (\<lambda>w. faulty w \<and> (?P w \<or> ?Q w))"
        by (rule writer_remove_triple [OF settled_conj [OF settled_decided settled_in_place] Q])
          (use decided_remove [OF _ m(1) None] in_place_remove A em in \<open>auto simp: in_place_snoc\<close>)
      then have "triple (\<lambda>v. ?P v \<and> v = w) (writer_remove (Db ?p)) (\<lambda>_. ?Q) ?E"
        by (rule triple_conseq) auto
      with run show ?thesis by blast
    qed
  next
    case (Some h)
    then obtain c where A: "A ?p = Some c" "sha c = h"
      and loc: "file_at w (Db ?p) = Some c \<or> file_at w (Stage t k) = Some c \<and> (\<forall>c'. file_at w (Db ?p) = Some c' \<longrightarrow> sha c' \<noteq> h)"
      using pay by (auto simp: payload_ok_def)
    from loc show ?thesis
    proof
      assume "file_at w (Db ?p) = Some c"
      then show ?thesis
        by (intro skip) (use w A Some path em in \<open>simp add: apply_file_def io_bind_def io_lift_def
          read_optional_def io_read_def io_return_def in_place_snoc\<close>)
    next
      assume st: "file_at w (Stage t k) = Some c \<and> (\<forall>c'. file_at w (Db ?p) = Some c' \<longrightarrow> sha c' \<noteq> h)"
      let ?P' = "\<lambda>w. ?P w \<and> file_at w (Stage t k) = Some c"
      have P': "settled_pred ?P'"
        by (rule settled_conj [OF settled_conj [OF settled_decided settled_in_place]])
          (rule settled_predI, simp add: agreeD)
      have run: "apply_file sha t e w = writer_install (Stage t k) (Db ?p) w"
        using Some st path em
        by (auto simp: apply_file_def io_bind_def io_lift_def read_optional_def io_read_def split: option.split)
      have "triple ?P' (writer_install (Stage t k) (Db ?p)) (\<lambda>_. ?Q) (\<lambda>w. faulty w \<and> (?P' w \<or> ?Q w))"
        by (rule writer_install_triple [OF P' Q])
          (use decided_install m(1) in_place_install A Some em in \<open>auto simp: in_place_snoc move_file_def\<close>)
      then have "triple (\<lambda>v. ?P v \<and> v = w) (writer_install (Stage t k) (Db ?p)) (\<lambda>_. ?Q) ?E"
        by (rule triple_conseq) (use st in auto)
      with run show ?thesis by blast
    qed
  qed
qed

lemma decided_all_in_place:
  assumes "decided sha A r t i w" and "in_place A (enumerate 0 (int_files i)) w"
  shows "file_at w (Db p) = A p"
proof (cases "p \<in> mut_path ` set (int_files i)")
  case True
  then obtain k where "k < length (int_files i)" "p = mut_path (int_files i ! k)"
    by (auto simp: in_set_conv_nth)
  then have "(k, int_files i ! k) \<in> set (enumerate 0 (int_files i))" by (simp add: in_set_enumerate_eq)
  then show ?thesis using assms(2) \<open>p = _\<close> by (fastforce simp: in_place_def)
next
  case False
  then show ?thesis using assms(1) by (simp add: decided_def others_done_def)
qed

text \<open>\<open>apply\<close> carries out the decision, or an operation failed and the decision stands.\<close>

lemma apply_intent_triple:
  "triple (decided sha A r t i) (apply_intent sha t i)
     (\<lambda>_ w. decided sha A r t i w \<and> (\<forall>p. file_at w (Db p) = A p)) (\<lambda>w. faulty w \<and> decided sha A r t i w)"
  unfolding apply_intent_def
proof (rule triple_then)
  show "triple (decided sha A r t i) (io_for (apply_check sha t) (enumerate 0 (int_files i)))
      (\<lambda>_ w. decided sha A r t i w \<and> in_place A [] w) (\<lambda>w. faulty w \<and> decided sha A r t i w)"
    by (auto simp: triple_def io_for_run apply_check_run in_place_def)
  show "triple (\<lambda>w. decided sha A r t i w \<and> in_place A [] w) (io_for (apply_file sha t) (enumerate 0 (int_files i)))
      (\<lambda>_ w. decided sha A r t i w \<and> (\<forall>p. file_at w (Db p) = A p)) (\<lambda>w. faulty w \<and> decided sha A r t i w)"
    by (rule triple_conseq [OF triple_for [where I = "\<lambda>ys w. decided sha A r t i w \<and> in_place A ys w"]])
      (auto intro!: apply_file_triple dest: decided_all_in_place)
qed

subsection \<open>Dropping a transaction directory\<close>

lemma faulty_files [simp]:
  "faulty (put_file l c w) = faulty w" "faulty (del_file l w) = faulty w" "faulty (remove_dir t w) = faulty w"
  by (simp_all add: faulty_def remove_dir_def)

lemma remove_dir_fields [simp]:
  "file_at (remove_dir t w) l = file_at w l" "links (remove_dir t w) = links w"
  "dirs (remove_dir t w) = filter (\<lambda>d. d \<noteq> t) (dirs w)" "fails (remove_dir t w) = fails w"
  "recovery_required (remove_dir t w) = recovery_required w" "ready (remove_dir t w) = ready w"
  "events (remove_dir t w) = events w"
  by (simp_all add: remove_dir_def)

lemma complete_triple:
  assumes P: "settled_pred P" and del: "\<And>w l. P w \<Longrightarrow> in_txn t l \<Longrightarrow> P (del_file l w)"
    and rm: "\<And>w. P w \<Longrightarrow> (\<forall>l. in_txn t l \<longrightarrow> file_at w l = None) \<Longrightarrow> P (remove_dir t w)"
  shows "triple P (complete t) (\<lambda>_ w. P w \<and> t \<notin> set (dirs w) \<and> (\<forall>l. in_txn t l \<longrightarrow> file_at w l = None))
    (\<lambda>w. faulty w \<and> P w)"
proof -
  let ?E = "\<lambda>w. faulty w \<and> P w"
  let ?gone = "\<lambda>w. \<forall>l. in_txn t l \<longrightarrow> file_at w l = None"
  have loop: "triple (\<lambda>w. P w \<and> ls = filter (in_txn t) (map fst (files w))) (io_for (\<lambda>l. io_step (del_file l)) ls)
      (\<lambda>_ w. P w \<and> ?gone w) ?E" for ls
  proof (cases "\<forall>l \<in> set ls. in_txn t l")
    case True
    let ?I = "\<lambda>ys w. P w \<and> (\<forall>l. in_txn t l \<longrightarrow> file_at w l \<noteq> None \<longrightarrow> l \<in> set ls - set ys)"
    have "triple (?I []) (io_for (\<lambda>l. io_step (del_file l)) ls) (\<lambda>_. ?I ls) ?E"
      by (rule triple_for, rule triple_step) (use True in \<open>auto intro: settled_clock [OF P] del\<close>)
    then show ?thesis
    proof (rule triple_conseq)
      fix w
      assume w: "P w \<and> ls = filter (in_txn t) (map fst (files w))"
      have "l \<in> set ls" if "in_txn t l" "file_at w l \<noteq> None" for l
        using that w by (simp add: file_at_def map_of_eq_None_iff)
      with w show "?I [] w" by simp
    qed auto
  next
    case False
    then show ?thesis by (auto simp: triple_def)
  qed
  have dir: "triple (\<lambda>w. P w \<and> ?gone w) (io_step (remove_dir t)) (\<lambda>_ w. P w \<and> ?gone w \<and> t \<notin> set (dirs w)) ?E"
    by (rule triple_step) (auto simp: settled_clock [OF P] intro!: rm)
  have sync: "triple (\<lambda>w. P w \<and> ?gone w \<and> t \<notin> set (dirs w)) sync_directory
      (\<lambda>_ w. P w \<and> t \<notin> set (dirs w) \<and> ?gone w) ?E"
    unfolding sync_directory_def by (rule triple_step) (auto simp: settled_clock [OF P])
  show ?thesis
    unfolding complete_def
    by (rule triple_bind_read) (rule triple_then [OF loop triple_then [OF dir sync]])
qed

lemma tidy_remove_dir [simp]: "tidy w \<Longrightarrow> tidy (remove_dir t w)"
  by (auto simp: tidy_def remove_dir_def list_all_iff)

lemma tidy_files [simp]:
  "tidy (put_file l c w) = tidy w" "tidy (del_file l w) = tidy w"
  by (simp_all add: tidy_def)

lemma in_txn_facts: "in_txn t l \<Longrightarrow> l \<noteq> Revision \<and> (\<forall>p. l \<noteq> Db p) \<and> (\<forall>u. l = Intent u \<longrightarrow> u = t) \<and> (\<forall>u k. l = Stage u k \<longrightarrow> u = t)"
  by (cases l) auto

text \<open>An undecided transaction leaves no trace; nor does any other one.\<close>

lemma idle_del: "idle A r w \<Longrightarrow> in_txn t l \<Longrightarrow> idle A r (del_file l w)"
  by (auto simp: idle_def in_txn_facts)

lemma complete_idle:
  "triple (idle A r) (complete t) (\<lambda>_ w. idle A r w \<and> t \<notin> set (dirs w)) (\<lambda>w. faulty w \<and> idle A r w)"
  by (rule triple_conseq [OF complete_triple [OF settled_idle]]) (auto simp: idle_del, auto simp: idle_def)

lemma payload_other:
  "payload_ok sha A u w e \<Longrightarrow> in_txn t l \<Longrightarrow> u \<noteq> t \<Longrightarrow> payload_ok sha A u (del_file l w) e"
  using in_txn_facts by (fastforce simp: payload_ok_def split: option.splits prod.splits)

lemma intent_wf_remove_dir [simp]: "intent_wf (remove_dir t w) i = intent_wf w i"
  by (simp add: intent_wf_def linked_def)

lemma payload_remove_dir [simp]: "payload_ok sha A u (remove_dir t w) e = payload_ok sha A u w e"
  by (simp add: payload_ok_def split: option.split prod.split)

lemma decided_del_other:
  assumes w: "decided sha A r u i w" and l: "in_txn t l" and "u \<noteq> t"
  shows "decided sha A r u i (del_file l w)"
proof -
  have "\<forall>e \<in> set (enumerate 0 (int_files i)). payload_ok sha A u (del_file l w) e"
    using w payload_other [OF _ l assms(3)] by (simp add: decided_def)
  with assms in_txn_facts [OF l] show ?thesis by (auto simp: decided_def others_done_def)
qed

lemma decided_remove_dir_other:
  "decided sha A r u i w \<Longrightarrow> u \<noteq> t \<Longrightarrow> decided sha A r u i (remove_dir t w)"
  by (auto simp: decided_def others_done_def)

text \<open>A transaction that has been carried out: until its directory is gone it may be found again.\<close>

definition carried :: "(string \<Rightarrow> string) \<Rightarrow> (path \<Rightarrow> string option) \<Rightarrow> string option \<Rightarrow> string \<Rightarrow> intent \<Rightarrow> world \<Rightarrow> bool" where
  "carried sha A r t i w = ((decided sha A r t i w \<or> idle A r w) \<and> (\<forall>p. file_at w (Db p) = A p))"

lemma settled_carried: "settled_pred (carried sha A r t i)"
  unfolding carried_def
  by (intro settled_conj settled_disj settled_decided settled_idle) (rule settled_predI, simp add: agreeD)

lemma payload_in_place: "payload_ok sha A t w (k, m) \<Longrightarrow> \<forall>p. file_at w (Db p) = A p \<Longrightarrow>
    \<forall>p. file_at v (Db p) = A p \<Longrightarrow> payload_ok sha A t v (k, m)"
  by (auto simp: payload_ok_def split: option.splits)

lemma complete_carried:
  "triple (carried sha A r t i) (complete t) (\<lambda>_ w. idle A r w \<and> t \<notin> set (dirs w))
    (\<lambda>w. faulty w \<and> (decided sha A r t i w \<or> idle A r w) \<and> (\<forall>p. file_at w (Db p) = A p))"
proof (rule triple_conseq [OF complete_triple [OF settled_carried]])
  fix w l
  assume w: "carried sha A r t i w" and l: "in_txn t l"
  note facts = in_txn_facts [OF l]
  show "carried sha A r t i (del_file l w)"
  proof (cases "idle A r w")
    case True
    then show ?thesis using idle_del [OF True l] by (simp add: carried_def idle_def)
  next
    case False
    with w have d: "decided sha A r t i w" "\<forall>p. file_at w (Db p) = A p" by (auto simp: carried_def)
    have db: "\<forall>p. file_at (del_file l w) (Db p) = A p" using d(2) facts by auto
    show ?thesis
    proof (cases "l = Intent t")
      case True
      then have "idle A r (del_file l w)" using d by (auto simp: idle_def decided_def)
      then show ?thesis by (simp add: carried_def idle_def)
    next
      case False
      have "\<forall>e \<in> set (enumerate 0 (int_files i)). payload_ok sha A t (del_file l w) e"
        using d db payload_in_place by (auto simp: decided_def)
      then have "decided sha A r t i (del_file l w)"
        using d facts False by (auto simp: decided_def others_done_def)
      then show ?thesis using db by (simp add: carried_def)
    qed
  qed
next
  fix w
  assume "carried sha A r t i w" "\<forall>l. in_txn t l \<longrightarrow> file_at w l = None"
  then show "carried sha A r t i (remove_dir t w)"
    by (auto simp: carried_def idle_def decided_def)
next
  fix x w
  assume "carried sha A r t i w \<and> t \<notin> set (dirs w) \<and> (\<forall>l. in_txn t l \<longrightarrow> file_at w l = None)"
  then show "idle A r w \<and> t \<notin> set (dirs w)" by (auto simp: carried_def decided_def)
qed (auto simp: carried_def)

subsection \<open>Preparing and deciding a transaction\<close>

text \<open>The contents after the changes.\<close>

definition changed_db :: "change list \<Rightarrow> (path \<Rightarrow> string option) \<Rightarrow> path \<Rightarrow> string option" where
  "changed_db fs A p = (case find (\<lambda>f. ch_path f = p) fs of Some f \<Rightarrow> ch_content f | None \<Rightarrow> A p)"

definition staged :: "string \<Rightarrow> world \<Rightarrow> nat \<times> change \<Rightarrow> bool" where
  "staged t w = (\<lambda>(k, f). case ch_content f of None \<Rightarrow> True | Some c \<Rightarrow> file_at w (Stage t k) = Some c)"

definition prepared :: "(path \<Rightarrow> string option) \<Rightarrow> string option \<Rightarrow> string \<Rightarrow> (nat \<times> change) list \<Rightarrow> world \<Rightarrow> bool" where
  "prepared A r t es w = (idle A r w \<and> t \<in> set (dirs w) \<and> (\<forall>e \<in> set es. staged t w e))"

definition intent_of :: "(string \<Rightarrow> string) \<Rightarrow> nat \<Rightarrow> change list \<Rightarrow> intent" where
  "intent_of sha n fs = \<lparr>int_revision = n, int_files = map (mutation_of sha) fs\<rparr>"

lemma settled_staged: "agree w w' \<Longrightarrow> staged t w' e = staged t w e"
  by (cases e) (simp add: staged_def agreeD split: option.split)

lemma settled_prepared: "settled_pred (prepared A r t es)"
proof (rule settled_predI)
  fix w w'
  assume a: "agree w w'" and p: "prepared A r t es w"
  then have "idle A r w'" using settled_predD [OF settled_idle _ a] by (simp add: prepared_def)
  then show "prepared A r t es w'"
    using p agreeD(5) [OF a] settled_staged [OF a] by (simp add: prepared_def)
qed

lemma mutation_of_fields [simp]:
  "mut_path (mutation_of sha f) = ch_path f"
  "mut_hash (mutation_of sha f) = map_option sha (ch_content f)"
  by (simp_all add: mutation_of_def)

lemma idle_stage: "idle A r w \<Longrightarrow> idle A r (put_file (Stage t k) c w)"
  by (simp add: idle_def)

lemma stage_file_triple:
  assumes "enumerate 0 fs = ys @ e # zs"
  shows "triple (prepared A r t ys) (stage_file t e) (\<lambda>_. prepared A r t (ys @ [e])) (\<lambda>w. faulty w \<and> idle A r w)"
proof -
  obtain k f where e: "e = (k, f)" by (cases e)
  have "distinct (map fst (enumerate 0 fs))" by simp
  then have k: "\<And>g. (k, g) \<notin> set ys" using assms e by (auto simp: rev_image_eqI)
  show ?thesis
  proof (cases "ch_content f")
    case None
    then show ?thesis
      unfolding stage_file_def e by (auto intro!: triple_return simp: prepared_def staged_def)
  next
    case (Some c)
    have "prepared A r t (ys @ [e]) (put_file (Stage t k) c w)" if w: "prepared A r t ys w" for w
    proof -
      have "staged t (put_file (Stage t k) c w) x" if "x \<in> set ys" for x
      proof -
        have "staged t w x" "fst x \<noteq> k" using w k that by (auto simp: prepared_def) (metis prod.collapse)
        then show ?thesis by (cases x) (simp add: staged_def split: option.splits)
      qed
      then show ?thesis using w Some by (simp add: prepared_def idle_stage e) (simp add: staged_def)
    qed
    then have "triple (prepared A r t ys) (writer_write (Stage t k) c) (\<lambda>_. prepared A r t (ys @ [e]))
        (\<lambda>w. faulty w \<and> (prepared A r t ys w \<or> prepared A r t (ys @ [e]) w))"
      by (intro writer_write_triple settled_prepared) auto
    then show ?thesis
      by (simp add: stage_file_def e Some) (erule triple_weaken_E, auto simp: prepared_def)
  qed
qed

lemma prepare_triple:
  assumes "txn_id t"
  shows "triple (idle A r) (prepare sha t fs)
    (\<lambda>x w. x = (t, map (mutation_of sha) fs) \<and> prepared A r t (enumerate 0 fs) w) (\<lambda>w. faulty w \<and> idle A r w)"
    (is "triple _ _ ?Q ?E")
proof -
  have dir: "triple (idle A r) (io_step (make_dir t)) (\<lambda>_. prepared A r t []) ?E"
    by (rule triple_step)
      (use assms in \<open>auto simp: idle_def tidy_def prepared_def make_dir_def\<close>)
  have sync: "triple (prepared A r t []) sync_directory (\<lambda>_. prepared A r t []) ?E"
    by (rule triple_weaken_E [OF sync_directory_triple [OF settled_prepared]]) (auto simp: prepared_def)
  have stage: "triple (prepared A r t []) (io_for (stage_file t) (enumerate 0 fs)) (\<lambda>_. prepared A r t (enumerate 0 fs)) ?E"
    by (rule triple_for) (rule stage_file_triple)
  have undo: "triple ?E (io_then (complete t) (io_throw e)) ?Q ?E" for e
  proof (rule triple_then [where R = ?E])
    have E: "settled_pred ?E"
      using settled_predD [OF settled_idle] agree_faulty by (intro settled_predI) blast
    show "triple ?E (complete t) (\<lambda>_. ?E) ?E"
      by (rule triple_conseq [OF complete_triple [OF E]]) (auto simp: idle_del, auto simp: idle_def)
  qed (simp add: triple_throw)
  show ?thesis
    unfolding prepare_def
    by (intro triple_then [OF dir] triple_then [OF sync] triple_catch [OF triple_then [OF stage] undo] triple_return)
      simp
qed

lemma find_unique:
  "distinct (map g xs) \<Longrightarrow> x \<in> set xs \<Longrightarrow> find (\<lambda>y. g y = g x) xs = Some x"
  by (induction xs) auto

lemma changed_db_at: "distinct (map ch_path fs) \<Longrightarrow> f \<in> set fs \<Longrightarrow> changed_db fs A (ch_path f) = ch_content f"
  using find_unique [of ch_path fs f] by (simp add: changed_db_def)

lemma changed_db_other: "p \<notin> ch_path ` set fs \<Longrightarrow> changed_db fs A p = A p"
  by (auto simp: changed_db_def find_None_iff split: option.split dest: find_Some_iff [THEN iffD1]) 

text \<open>Renaming the intent into place is the moment of decision.\<close>

lemma decided_intent:
  assumes p: "prepared A r t (enumerate 0 fs) w"
    and fs: "distinct (map ch_path fs)" "\<forall>f \<in> set fs. database_path (ch_path f) = Inr (ch_path f) \<and> \<not> linked w (ch_path f)"
    and new: "\<forall>f \<in> set fs. map_option sha (A (ch_path f)) \<noteq> map_option sha (ch_content f)"
    and ok: "intent_ok (intent_of sha n fs)"
  shows "decided sha (changed_db fs A) r t (intent_of sha n fs)
    (put_file (Intent t) (json (intent_json (intent_of sha n fs))) w)"
proof -
  let ?w = "put_file (Intent t) (json (intent_json (intent_of sha n fs))) w"
  have "payload_ok sha (changed_db fs A) t ?w (k, m)" if "(k, m) \<in> set (enumerate 0 (int_files (intent_of sha n fs)))" for k m
  proof -
    from that obtain f where f: "(k, f) \<in> set (enumerate 0 fs)" "f \<in> set fs" "m = mutation_of sha f"
      by (auto simp: in_set_enumerate_eq intent_of_def)
    have at: "changed_db fs A (ch_path f) = ch_content f" by (rule changed_db_at [OF fs(1) f(2)])
    have st: "staged t w (k, f)" using p f(1) by (simp add: prepared_def)
    have db: "file_at w (Db (ch_path f)) = A (ch_path f)" using p by (simp add: prepared_def idle_def)
    show ?thesis
    proof (cases "ch_content f")
      case None
      then show ?thesis using at f(3) by (simp add: payload_ok_def)
    next
      case (Some c)
      have "\<forall>c'. A (ch_path f) = Some c' \<longrightarrow> sha c' \<noteq> sha c" using new f(2) Some by fastforce
      then show ?thesis using at f(3) st db Some by (simp add: payload_ok_def staged_def)
    qed
  qed
  then have pay: "\<forall>e \<in> set (enumerate 0 (int_files (intent_of sha n fs))). payload_ok sha (changed_db fs A) t ?w e"
    by (metis surj_pair)
  have wf: "intent_wf ?w (intent_of sha n fs)"
    using fs ok by (auto simp: intent_wf_def linked_def intent_of_def o_def)
  have others: "others_done (changed_db fs A) (intent_of sha n fs) ?w"
    using p by (auto simp: others_done_def intent_of_def image_image changed_db_other prepared_def idle_def)
  show ?thesis
    using p pay wf others unfolding decided_def by (auto simp: prepared_def idle_def)
qed

lemma record_intent_triple:
  assumes "distinct (map ch_path fs)" "\<forall>f \<in> set fs. database_path (ch_path f) = Inr (ch_path f)"
    and "\<forall>f \<in> set fs. map_option sha (A (ch_path f)) \<noteq> map_option sha (ch_content f)"
    and "intent_ok (intent_of sha n fs)"
  shows "triple (\<lambda>w. prepared A r t (enumerate 0 fs) w \<and> (\<forall>f \<in> set fs. \<not> linked w (ch_path f)))
    (record_intent t (map (mutation_of sha) fs) n)
    (\<lambda>i w. i = intent_of sha n fs \<and> decided sha (changed_db fs A) r t i w)
    (\<lambda>w. faulty w \<and> (idle A r w \<or> decided sha (changed_db fs A) r t (intent_of sha n fs) w))"
proof -
  let ?P = "\<lambda>w. prepared A r t (enumerate 0 fs) w \<and> (\<forall>f \<in> set fs. \<not> linked w (ch_path f))"
  have P: "settled_pred ?P"
    by (rule settled_conj [OF settled_prepared]) (rule settled_predI, simp add: linked_def agreeD)
  have i: "\<lparr>int_revision = n, int_files = map (mutation_of sha) fs\<rparr> = intent_of sha n fs"
    by (simp add: intent_of_def)
  have "triple ?P (writer_write (Intent t) (json (intent_json (intent_of sha n fs))))
      (\<lambda>_. decided sha (changed_db fs A) r t (intent_of sha n fs))
      (\<lambda>w. faulty w \<and> (?P w \<or> decided sha (changed_db fs A) r t (intent_of sha n fs) w))"
    by (rule writer_write_triple [OF P settled_decided]) (use assms in \<open>auto intro!: decided_intent\<close>)
  then have w: "triple ?P (writer_write (Intent t) (json (intent_json (intent_of sha n fs))))
      (\<lambda>_. decided sha (changed_db fs A) r t (intent_of sha n fs))
      (\<lambda>w. faulty w \<and> (idle A r w \<or> decided sha (changed_db fs A) r t (intent_of sha n fs) w))"
    by (rule triple_weaken_E) (auto simp: prepared_def)
  show ?thesis
    using assms(4) by (simp add: record_intent_def i Let_def triple_then [OF w triple_return])
qed

subsection \<open>Finding the decided transaction again\<close>

lemma pending_loop_idle:
  assumes "list_all txn_id ts"
  shows "triple (idle A r) (pending_loop ts) (\<lambda>x w. x = [] \<and> idle A r w) (\<lambda>w. faulty w \<and> idle A r w)"
  using assms
proof (induction ts)
  case Nil
  then show ?case by (simp add: triple_return)
next
  case (Cons t ts)
  show ?case
  proof (rule triple_pointwise)
    fix w
    assume w: "idle A r w"
    have "pending_loop (t # ts) w = io_then (complete t) (pending_loop ts) w"
      using w Cons.prems by (simp add: idle_def io_bind_def read_optional_def io_read_def)
    moreover have "triple (idle A r) (io_then (complete t) (pending_loop ts)) (\<lambda>x w. x = [] \<and> idle A r w) (\<lambda>w. faulty w \<and> idle A r w)"
      by (rule triple_then [where R = "idle A r"], rule triple_conseq [OF complete_idle]) (use Cons in auto)
    ultimately show "\<exists>n. pending_loop (t # ts) w = n w \<and>
        triple (\<lambda>v. idle A r v \<and> v = w) n (\<lambda>x w. x = [] \<and> idle A r w) (\<lambda>w. faulty w \<and> idle A r w)"
      by (rule triple_run)
  qed
qed

lemma check_paths_run:
  "\<forall>m \<in> set ms. database_path (mut_path m) = Inr (mut_path m) \<Longrightarrow>
   io_for (\<lambda>m. io_bind (io_lift (database_path (mut_path m))) (\<lambda>_. io_return ())) ms w = (Inr (), w)"
  by (rule io_for_run) (simp add: io_bind_def io_lift_def io_return_def)

lemma pending_loop_decided:
  assumes "list_all txn_id ts" and "distinct ts"
    and D: "\<And>w. P w \<Longrightarrow> \<exists>r. decided sha A r u i w"
    and drop: "\<And>t. t \<noteq> u \<Longrightarrow> triple P (complete t) (\<lambda>_. P) (\<lambda>w. faulty w \<and> P w)"
  shows "triple P (pending_loop ts) (\<lambda>x w. x = (if u \<in> set ts then [(u, i)] else []) \<and> P w) (\<lambda>w. faulty w \<and> P w)"
  using assms(1,2)
proof (induction ts)
  case Nil
  then show ?case by (simp add: triple_return)
next
  case (Cons t ts)
  let ?E = "\<lambda>w. faulty w \<and> P w"
  let ?Q = "\<lambda>x w. x = (if u \<in> set (t # ts) then [(u, i)] else []) \<and> P w"
  have IH: "triple P (pending_loop ts) (\<lambda>x w. x = (if u \<in> set ts then [(u, i)] else []) \<and> P w) ?E"
    using Cons by simp
  show ?case
  proof (rule triple_pointwise)
    fix w
    assume "P w"
    then obtain r where w: "decided sha A r u i w" using D by blast
    show "\<exists>n. pending_loop (t # ts) w = n w \<and> triple (\<lambda>v. P v \<and> v = w) n ?Q ?E"
    proof (cases "t = u")
      case False
      then have "pending_loop (t # ts) w = io_then (complete t) (pending_loop ts) w"
        using w Cons.prems by (simp add: decided_def io_bind_def read_optional_def io_read_def)
      moreover have "triple P (io_then (complete t) (pending_loop ts)) ?Q ?E"
        by (rule triple_then [OF drop [OF False]], rule triple_conseq [OF IH]) (use False in auto)
      ultimately show ?thesis by (rule triple_run)
    next
      case True
      have ok: "intent_ok i" and ps: "\<forall>m \<in> set (int_files i). database_path (mut_path m) = Inr (mut_path m)"
        using w by (auto simp: decided_def intent_wf_def)
      have "pending_loop (t # ts) w = io_bind (pending_loop ts) (\<lambda>rest. io_return ((u, i) # rest)) w"
        using w Cons.prems True ok check_paths_run [OF ps, of w]
        by (simp add: decided_def io_bind_def io_then_def read_optional_def io_read_def)
      moreover have "triple P (io_bind (pending_loop ts) (\<lambda>rest. io_return ((u, i) # rest))) ?Q ?E"
        by (rule triple_bind [OF IH], rule triple_return) (use True Cons.prems in auto)
      ultimately show ?thesis by (rule triple_run)
    qed
  qed
qed

lemma pending_idle:
  "triple (idle A r) pending (\<lambda>x w. x = [] \<and> idle A r w) (\<lambda>w. faulty w \<and> idle A r w)"
  unfolding pending_def
proof (rule triple_bind_read, rule triple_bind)
  fix ts
  show "triple (\<lambda>w. idle A r w \<and> ts = dirs w) (pending_loop ts) (\<lambda>x w. x = [] \<and> idle A r w) (\<lambda>w. faulty w \<and> idle A r w)"
  proof (cases "list_all txn_id ts")
    case True
    show ?thesis by (rule triple_pre [OF pending_loop_idle [OF True]]) simp
  next
    case False
    then show ?thesis by (auto simp: triple_def idle_def tidy_def)
  qed
qed (rule triple_return, simp add: sort_by_def)

lemma pending_decided:
  assumes D: "\<And>w. P w \<Longrightarrow> \<exists>r. decided sha A r u i w"
    and drop: "\<And>t. t \<noteq> u \<Longrightarrow> triple P (complete t) (\<lambda>_. P) (\<lambda>w. faulty w \<and> P w)"
  shows "triple P pending (\<lambda>x w. x = [(u, i)] \<and> P w) (\<lambda>w. faulty w \<and> P w)"
  unfolding pending_def
proof (rule triple_bind_read, rule triple_bind)
  fix ts
  show "triple (\<lambda>w. P w \<and> ts = dirs w) (pending_loop ts) (\<lambda>x w. x = [(u, i)] \<and> P w) (\<lambda>w. faulty w \<and> P w)"
  proof (cases "list_all txn_id ts \<and> distinct ts \<and> u \<in> set ts")
    case True
    then have ts: "list_all txn_id ts" "distinct ts" "u \<in> set ts" by simp_all
    show ?thesis by (rule triple_conseq [OF pending_loop_decided [OF ts(1,2) D drop]]) (simp_all add: ts(3))
  next
    case False
    have "\<not> (P w \<and> ts = dirs w)" for w using False D [of w] by (auto simp: decided_def tidy_def)
    then show ?thesis unfolding triple_def by blast
  qed
qed (rule triple_return, simp add: sort_by_def)

subsection \<open>What the journal leaves alone\<close>

context disk_observer
begin

lemma obs_remove_dir [simp]: "obs (remove_dir t w) = obs w"
  by (simp add: remove_dir_def)

lemma obs_make_dir [simp]: "obs (make_dir t w) = obs w"
  by (simp add: make_dir_def)

lemma preserves_complete [preserves_intros]: "preserves obs (complete t)"
  unfolding complete_def by (intro preserves_intros; simp)

lemma preserves_prepare [preserves_intros]: "preserves obs (prepare sha t fs)"
  unfolding prepare_def stage_file_def by (intro preserves_intros; simp)

lemma preserves_record [preserves_intros]: "preserves obs (record_intent t ms n)"
  unfolding record_intent_def Let_def by (intro preserves_intros)

lemma preserves_apply [preserves_intros]: "preserves obs (apply_intent sha t i)"
  unfolding apply_intent_def apply_check_def apply_file_def by (intro preserves_intros)

lemma preserves_pending_loop: "preserves obs (pending_loop ts)"
  by (induction ts) (auto intro!: preserves_intros)

lemma preserves_pending [preserves_intros]: "preserves obs pending"
  unfolding pending_def by (intro preserves_intros preserves_pending_loop)

end

end
