(* ===== verification/Engine.thy ===== *)
theory Engine
  imports Journal
begin

section \<open>The data engine (src/store/data-layer.ts)\<close>

text \<open>
  \<open>DBEngine\<close>: guarded multi-file writes over the journal. A call runs here without another one in
  between; the queue that makes it so is the subject of the theory of the write lock. The \<open>Result\<close>
  kinds of the code are the constructors of \<open>batch_result\<close>, a thrown error is \<open>Inl\<close>.

  The main lemmas state what every operation does to the contents the database holds once it has
  been recovered, whatever operation of the disk fails.
\<close>

subsection \<open>Requests and results\<close>

record request =
  rq_path :: path
  rq_content :: "string option"
  rq_expected :: "string option option"
  rq_validate :: "string \<Rightarrow> (string \<times> string) list"
  rq_actor :: "string option"
  rq_keys :: "string list"

type_synonym read_check = "path \<times> string option"
type_synonym collection_check = "path \<times> string list"

datatype batch_result =
    BWritten nat "(path \<times> string) list"
  | BUnchanged nat "(path \<times> string) list"
  | BConflict path "string option" nat
  | BInvalid path "(string \<times> string) list"

subsection \<open>The revision\<close>

definition parse_revision :: "string \<Rightarrow> string + nat" where
  "parse_revision s =
     (let ds = takeWhile is_digit s; rest = dropWhile is_digit s
      in if ds = [] \<or> \<not> list_all is_ws rest \<or> max_safe < int (digits_val ds)
         then Inl ''invalid database revision'' else Inr (digits_val ds))"

definition revision_text :: "nat \<Rightarrow> string" where
  "revision_text n = nat_str n @ [CHR 0x0A]"

definition revision_of :: "string option \<Rightarrow> string + nat" where
  "revision_of r = (case r of None \<Rightarrow> Inr 0 | Some s \<Rightarrow> parse_revision s)"

definition revision_unlocked :: "nat io" where
  "revision_unlocked = io_bind (read_optional Revision) (\<lambda>r. io_lift (revision_of r))"

subsection \<open>Recovery\<close>

definition notify :: "event \<Rightarrow> unit io" where
  "notify e = io_step (\<lambda>w. w\<lparr>events := events w @ [e]\<rparr>)"

definition event_of :: "string \<Rightarrow> nat \<Rightarrow> mutation \<Rightarrow> event" where
  "event_of t n m = \<lparr>event_path = mut_path m, event_revision = n,
     event_etag = (case mut_hash m of None \<Rightarrow> '''' | Some h \<Rightarrow> h), event_actor = mut_actor m,
     event_keys = mut_keys m, event_txn = t\<rparr>"

definition finish :: "(string \<Rightarrow> string) \<Rightarrow> string \<Rightarrow> intent \<Rightarrow> unit io" where
  "finish sha t i =
     io_bind revision_unlocked (\<lambda>current.
       if int_revision i < current \<or> current + 1 < int_revision i
       then io_throw (''cannot recover transaction '' @ t @ '': unexpected revision'')
       else io_then (apply_intent sha t i)
        (io_then (if current \<noteq> int_revision i then writer_write Revision (revision_text (int_revision i)) else io_return ())
        (io_then (io_for (\<lambda>m. notify (event_of t (int_revision i) m)) (int_files i))
          (complete t))))"

definition assert_healthy :: "unit io" where
  "assert_healthy = io_bind (io_read recovery_required) (\<lambda>b.
     if b then io_throw ''database recovery required; restart before reading or writing'' else io_return ())"

definition run_recovery :: "(string \<Rightarrow> string) \<Rightarrow> unit io" where
  "run_recovery sha = io_bind pending (io_for (\<lambda>(t, i). finish sha t i))"

text \<open>The promise of the first recovery is kept, a rejected one too.\<close>

definition recover :: "(string \<Rightarrow> string) \<Rightarrow> unit io" where
  "recover sha = io_bind (io_read ready) (\<lambda>r.
     io_then
       (case r of
          Some outcome \<Rightarrow> io_lift outcome
        | None \<Rightarrow> io_catch (io_then (run_recovery sha) (io_update (\<lambda>w. w\<lparr>ready := Some (Inr ())\<rparr>)))
            (\<lambda>e. io_then (io_update (\<lambda>w. w\<lparr>ready := Some (Inl e)\<rparr>)) (io_throw e)))
       assert_healthy)"

subsection \<open>Reading\<close>

definition read_unlocked :: "path \<Rightarrow> string option io" where
  "read_unlocked p = io_then (assert_no_symlinks p)
     (io_bind (io_lift (database_path p)) (\<lambda>q. read_optional (Db q)))"

definition engine_read :: "(string \<Rightarrow> string) \<Rightarrow> path \<Rightarrow> string option io" where
  "engine_read sha p = io_bind (io_lift (database_path p)) (\<lambda>_.
     io_then (recover sha) (io_then assert_healthy (read_unlocked p)))"

definition engine_etag :: "(string \<Rightarrow> string) \<Rightarrow> path \<Rightarrow> string option io" where
  "engine_etag sha p = io_bind (engine_read sha p) (\<lambda>c. io_return (map_option sha c))"

definition engine_revision :: "(string \<Rightarrow> string) \<Rightarrow> nat io" where
  "engine_revision sha = io_then (recover sha) (io_then assert_healthy revision_unlocked)"

text \<open>
  A snapshot lists the files below a prefix. The directory walk passes over the journal, but a
  temporary that a crash left beside \<open>.revision\<close> is a file of the root like any other.
\<close>

definition temp_name :: "nat \<Rightarrow> path" where
  "temp_name n = ''.revision.'' @ nat_str n @ ''.tmp''"

fun visible :: "loc \<times> string \<Rightarrow> (path \<times> string) option" where
  "visible (Db p, c) = Some (p, c)"
| "visible (Temp Revision n, c) = Some (temp_name n, c)"
| "visible _ = None"

definition under :: "path \<Rightarrow> path \<Rightarrow> bool" where
  "under base p = (base = '''' \<or> starts_with (base @ ''/'') p)"

definition snapshot_files :: "path \<Rightarrow> world \<Rightarrow> (path \<times> string) list" where
  "snapshot_files base w = filter (\<lambda>(p, c). under base p) (List.map_filter visible (files w))"

definition engine_snapshot :: "(string \<Rightarrow> string) \<Rightarrow> path \<Rightarrow> (nat \<times> (path \<times> string) list) io" where
  "engine_snapshot sha base =
     io_then (if base \<noteq> '''' then io_bind (io_lift (database_path base)) (\<lambda>_. io_return ()) else io_return ())
      (io_then (recover sha) (io_then assert_healthy
        (io_then (if base \<noteq> '''' then assert_no_symlinks base else io_return ())
          (io_bind (io_read links) (\<lambda>ls.
            if list_ex (under base) ls then io_throw ''symlink in database path''
            else io_bind (io_read (snapshot_files base)) (\<lambda>fs.
              io_bind revision_unlocked (\<lambda>n. io_return (n, fs))))))))"

subsection \<open>Writing\<close>

fun io_map :: "('a \<Rightarrow> 'b io) \<Rightarrow> 'a list \<Rightarrow> 'b list io" where
  "io_map f [] = io_return []"
| "io_map f (x # xs) = io_bind (f x) (\<lambda>y. io_bind (io_map f xs) (\<lambda>ys. io_return (y # ys)))"

definition check_path :: "path \<Rightarrow> unit io" where
  "check_path p = io_bind (io_lift (database_path p)) (\<lambda>_. io_return ())"

definition request_errors :: "request list \<Rightarrow> (string \<times> string) list" where
  "request_errors rs = concat (map (\<lambda>r. case rq_content r of None \<Rightarrow> [] | Some c \<Rightarrow> rq_validate r c) rs)"

text \<open>The first request whose file is not at the version it expects.\<close>

definition stale :: "request \<times> string option \<Rightarrow> bool" where
  "stale = (\<lambda>(r, actual). case rq_expected r of None \<Rightarrow> False | Some e \<Rightarrow> e \<noteq> actual)"

definition etag_list :: "(string \<Rightarrow> string) \<Rightarrow> request list \<Rightarrow> (path \<times> string) list" where
  "etag_list sha rs = map (\<lambda>r. (rq_path r, case rq_content r of None \<Rightarrow> '''' | Some c \<Rightarrow> sha c)) rs"

definition changed_requests :: "(string \<Rightarrow> string) \<Rightarrow> (request \<times> string option) list \<Rightarrow> request list" where
  "changed_requests sha current =
     map fst (filter (\<lambda>(r, actual). map_option sha (rq_content r) \<noteq> actual) current)"

definition change_of :: "request \<Rightarrow> change" where
  "change_of r = \<lparr>ch_path = rq_path r, ch_content = rq_content r, ch_actor = rq_actor r, ch_keys = rq_keys r\<rparr>"

definition drop_prepared :: "(string \<times> mutation list) option \<Rightarrow> unit io" where
  "drop_prepared prep = (case prep of None \<Rightarrow> io_return () | Some (t, _) \<Rightarrow> complete t)"

text \<open>The names a directory lists that end in \<open>.yaml\<close>, in order.\<close>

definition child_names :: "path \<Rightarrow> world \<Rightarrow> string list" where
  "child_names dir w = uniq (List.map_filter (\<lambda>(l, _). case l of
       Db p \<Rightarrow> (if starts_with (dir @ ''/'') p
          then Some (takeWhile (\<lambda>c. c \<noteq> CHR ''/'') (drop (length dir + 1) p)) else None)
     | _ \<Rightarrow> None) (files w))"

definition yaml_names :: "path \<Rightarrow> world \<Rightarrow> string list" where
  "yaml_names dir w = sort (filter (ends_with ''.yaml'') (child_names dir w))"

fun check_collections :: "(string \<times> mutation list) option \<Rightarrow> collection_check list \<Rightarrow> batch_result option io" where
  "check_collections prep [] = io_return None"
| "check_collections prep ((dir, names) # cs) =
     io_then (assert_no_symlinks dir)
       (io_bind (io_read (yaml_names dir)) (\<lambda>found.
         if found \<noteq> sort names
         then io_then (drop_prepared prep)
           (io_bind revision_unlocked (\<lambda>n. io_return (Some (BConflict dir None n))))
         else check_collections prep cs))"

fun check_reads :: "(string \<Rightarrow> string) \<Rightarrow> (string \<times> mutation list) option \<Rightarrow> read_check list \<Rightarrow> batch_result option io" where
  "check_reads sha prep [] = io_return None"
| "check_reads sha prep ((p, expected) # cs) =
     io_bind (read_unlocked p) (\<lambda>source.
       if map_option sha source \<noteq> expected
       then io_then (drop_prepared prep)
         (io_bind revision_unlocked (\<lambda>n. io_return (Some (BConflict p (map_option sha source) n))))
       else check_reads sha prep cs)"

definition decide :: "(string \<Rightarrow> string) \<Rightarrow> string \<times> mutation list \<Rightarrow> nat \<Rightarrow> unit io" where
  "decide sha prep n = (case prep of (t, ms) \<Rightarrow>
     io_catch (io_bind (record_intent t ms n) (finish sha t))
       (\<lambda>e. io_then (io_update (\<lambda>w. w\<lparr>recovery_required := True\<rparr>)) (io_throw e)))"

text \<open>What runs under the publication lock.\<close>

definition commit_prepared :: "(string \<Rightarrow> string) \<Rightarrow> (path \<times> string) list \<Rightarrow> (string \<times> mutation list) option \<Rightarrow> batch_result io" where
  "commit_prepared sha etags prep =
     (case prep of
        None \<Rightarrow> io_bind revision_unlocked (\<lambda>n. io_return (BUnchanged n etags))
      | Some p \<Rightarrow>
         io_bind revision_unlocked (\<lambda>n.
           if max_safe < int (n + 1) then io_throw ''database revision exhausted''
           else io_then (decide sha p (n + 1)) (io_return (BWritten (n + 1) etags))))"

definition publish :: "(string \<Rightarrow> string) \<Rightarrow> read_check list \<Rightarrow> collection_check list \<Rightarrow>
    (path \<times> string) list \<Rightarrow> (string \<times> mutation list) option \<Rightarrow> batch_result io" where
  "publish sha checks colls etags prep =
     io_then assert_healthy
      (io_bind (check_collections prep colls) (\<lambda>c1. case c1 of Some r \<Rightarrow> io_return r | None \<Rightarrow>
       io_bind (check_reads sha prep checks) (\<lambda>c2. case c2 of Some r \<Rightarrow> io_return r | None \<Rightarrow>
         commit_prepared sha etags prep)))"

definition stage_changes :: "(string \<Rightarrow> string) \<Rightarrow> string \<Rightarrow> change list \<Rightarrow> (string \<times> mutation list) option io" where
  "stage_changes sha t fs =
     (if fs = [] then io_return None else io_bind (prepare sha t fs) (\<lambda>p. io_return (Some p)))"

text \<open>What runs under the locks of the paths.\<close>

definition write_locked :: "(string \<Rightarrow> string) \<Rightarrow> string \<Rightarrow> request list \<Rightarrow> read_check list \<Rightarrow> collection_check list \<Rightarrow> batch_result io" where
  "write_locked sha t rs checks colls =
     (if request_errors rs \<noteq> [] then io_return (BInvalid (case rs of [] \<Rightarrow> '''' | r # _ \<Rightarrow> rq_path r) (request_errors rs)) else
      io_bind (io_map (\<lambda>r. engine_etag sha (rq_path r)) rs) (\<lambda>actuals.
        let current = zip rs actuals in
        case find stale current of
          Some (r, actual) \<Rightarrow> io_bind (engine_revision sha) (\<lambda>n. io_return (BConflict (rq_path r) actual n))
        | None \<Rightarrow> io_bind (stage_changes sha t (map change_of (changed_requests sha current)))
            (publish sha checks colls (etag_list sha rs))))"

definition write_many :: "(string \<Rightarrow> string) \<Rightarrow> string \<Rightarrow> request list \<Rightarrow> read_check list \<Rightarrow> collection_check list \<Rightarrow> batch_result io" where
  "write_many sha t rs checks colls =
     io_then (io_for check_path (map fst checks))
     (io_then (io_for check_path (map fst colls))
     (io_then (io_for check_path (map rq_path rs))
     (if \<not> distinct (map rq_path rs) then io_throw ''duplicate database path in transaction'' else
      io_then (recover sha) (write_locked sha t rs checks colls))))"

text \<open>The single-file calls.\<close>

datatype write_result =
    WWritten string nat
  | WUnchanged string nat
  | WInvalid string "(string \<times> string) list" nat
  | WConflict string "string option" "string option" nat

definition flat :: "string option \<Rightarrow> string" where
  "flat e = (case e of None \<Rightarrow> '''' | Some s \<Rightarrow> s)"

definition engine_write :: "(string \<Rightarrow> string) \<Rightarrow> string \<Rightarrow> request \<Rightarrow> write_result io" where
  "engine_write sha t r = io_bind (write_many sha t [r] [] []) (\<lambda>res.
     case res of
       BWritten n es \<Rightarrow> io_return (WWritten (flat (map_of es (rq_path r))) n)
     | BUnchanged n es \<Rightarrow> io_return (WUnchanged (flat (map_of es (rq_path r))) n)
     | BConflict p a n \<Rightarrow> io_return (WConflict (flat a) (case rq_expected r of None \<Rightarrow> None | Some e \<Rightarrow> e) a n)
     | BInvalid p errs \<Rightarrow> io_bind (engine_etag sha (rq_path r)) (\<lambda>e.
         io_bind (engine_revision sha) (\<lambda>n. io_return (WInvalid (flat e) errs n))))"

datatype remove_result = RRemoved nat | RUnchanged nat | RConflict "string option" "string option" nat

definition engine_remove :: "(string \<Rightarrow> string) \<Rightarrow> string \<Rightarrow> request \<Rightarrow> remove_result io" where
  "engine_remove sha t r = io_bind (write_many sha t [r\<lparr>rq_content := None\<rparr>] [] []) (\<lambda>res.
     case res of
       BInvalid _ _ \<Rightarrow> io_throw ''unexpected deletion validation failure''
     | BConflict p a n \<Rightarrow> io_return (RConflict a (case rq_expected r of None \<Rightarrow> None | Some e \<Rightarrow> e) n)
     | BWritten n _ \<Rightarrow> io_return (RRemoved n)
     | BUnchanged n _ \<Rightarrow> io_return (RUnchanged n))"

text \<open>A restart: the engine of the next process over the disk the last one left.\<close>

definition restart :: "(nat \<Rightarrow> bool) \<Rightarrow> world \<Rightarrow> world" where
  "restart g w = w\<lparr>recovery_required := False, ready := None, fails := g\<rparr>"

subsection \<open>The contents the database holds\<close>

lemma parse_revision_text [simp]: "int n \<le> max_safe \<Longrightarrow> parse_revision (revision_text n) = Inr n"
proof -
  have nl: "\<not> is_digit (CHR 0x0A)" by (simp add: is_digit_def less_eq_char_def)
  have "takeWhile is_digit (nat_str n @ [CHR 0x0A]) = nat_str n"
      "dropWhile is_digit (nat_str n @ [CHR 0x0A]) = [CHR 0x0A]"
    using nat_str_digits nl by (simp_all add: takeWhile_append2 dropWhile_append2)
  then show "int n \<le> max_safe \<Longrightarrow> parse_revision (revision_text n) = Inr n"
    by (simp add: parse_revision_def revision_text_def digits_val_nat_str is_ws_def Let_def)
qed

text \<open>
  \<open>steady\<close>: nothing is pending, the files are \<open>A\<close> at revision \<open>n\<close>. \<open>holds\<close>: recovery would make
  it so. Between the two lies a decided transaction that has not been carried out to the end.
\<close>

definition steady :: "(path \<Rightarrow> string option) \<Rightarrow> nat \<Rightarrow> world \<Rightarrow> bool" where
  "steady A n w = (revision_of (file_at w Revision) = Inr n \<and> idle A (file_at w Revision) w)"

definition pending_at :: "(string \<Rightarrow> string) \<Rightarrow> (path \<Rightarrow> string option) \<Rightarrow> nat \<Rightarrow> string \<Rightarrow> intent \<Rightarrow> world \<Rightarrow> bool" where
  "pending_at sha A n t i w = (decided sha A (file_at w Revision) t i w \<and> int_revision i = n \<and>
     (revision_of (file_at w Revision) = Inr n \<and> (\<forall>p. file_at w (Db p) = A p)
      \<or> (\<exists>m. n = Suc m \<and> revision_of (file_at w Revision) = Inr m)))"

definition holds :: "(string \<Rightarrow> string) \<Rightarrow> (path \<Rightarrow> string option) \<Rightarrow> nat \<Rightarrow> world \<Rightarrow> bool" where
  "holds sha A n w = (steady A n w \<or> (\<exists>t i. pending_at sha A n t i w))"

lemma settled_steady: "settled_pred (steady A n)"
proof (rule settled_predI)
  fix w w'
  assume a: "agree w w'" and s: "steady A n w"
  have "idle A (file_at w Revision) w'"
    by (rule settled_predD [OF settled_idle _ a]) (use s in \<open>simp add: steady_def\<close>)
  then show "steady A n w'" using s by (simp add: steady_def agreeD(4) [OF a])
qed

lemma settled_pending: "settled_pred (pending_at sha A n t i)"
proof (rule settled_predI)
  fix w w'
  assume a: "agree w w'" and s: "pending_at sha A n t i w"
  have "decided sha A (file_at w Revision) t i w'"
    by (rule settled_predD [OF settled_decided _ a]) (use s in \<open>simp add: pending_at_def\<close>)
  then show "pending_at sha A n t i w'" using s by (simp add: pending_at_def agreeD [OF a])
qed

lemma settled_holds: "settled_pred (holds sha A n)"
  using settled_predD [OF settled_steady] settled_predD [OF settled_pending]
  by (intro settled_predI) (metis holds_def)

lemma decided_at: "decided sha A r t i w \<Longrightarrow> file_at w Revision = r"
  by (simp add: decided_def)

lemma idle_at: "idle A r w \<Longrightarrow> file_at w Revision = r"
  by (simp add: idle_def)

lemma revision_unlocked_triple:
  "triple (\<lambda>w. P w \<and> revision_of (file_at w Revision) = Inr n) revision_unlocked
     (\<lambda>x w. x = n \<and> P w \<and> revision_of (file_at w Revision) = Inr n) E"
  by (auto simp: triple_def revision_unlocked_def read_optional_def io_bind_def io_read_def io_lift_def)

text \<open>Writing the revision file over a decision that has been carried out.\<close>

lemma decided_revision:
  "decided sha A r t i w \<Longrightarrow> decided sha A (Some c) t i (put_file Revision c w)"
  by (auto simp: decided_def others_done_def payload_ok_def split: option.splits prod.splits)

lemma notify_triple:
  assumes "settled_pred P"
  shows "triple P (io_for (\<lambda>m. notify (f m)) ms) (\<lambda>_. P) (\<lambda>w. faulty w \<and> P w)"
  unfolding notify_def
  by (rule triple_for [where I = "\<lambda>_. P"]) (rule triple_idle_step [OF assms], auto)

text \<open>Once everything is in place, applying the intent again does nothing.\<close>

lemma apply_file_done:
  assumes "decided sha A r t i w" and "\<forall>p. file_at w (Db p) = A p" and "e \<in> set (enumerate 0 (int_files i))"
  shows "apply_file sha t e w = (Inr (), w)"
proof -
  obtain k m where e: "e = (k, m)" by (cases e)
  have "m \<in> set (int_files i)" using assms(3) e by (auto simp: in_set_enumerate_eq)
  then have "database_path (mut_path m) = Inr (mut_path m)" using assms(1) by (auto simp: decided_def intent_wf_def)
  moreover have "payload_ok sha A t w (k, m)" using assms(1,3) e by (auto simp: decided_def)
  ultimately show ?thesis
    using assms(2) by (auto simp: apply_file_def e payload_ok_def io_bind_def io_lift_def read_optional_def
        io_read_def io_return_def split: option.splits)
qed

lemma apply_intent_done:
  "decided sha A r t i w \<Longrightarrow> \<forall>p. file_at w (Db p) = A p \<Longrightarrow> apply_intent sha t i w = (Inr (), w)"
  by (simp add: apply_intent_def io_then_def io_bind_def io_for_run apply_check_run apply_file_done)

lemma finish_triple:
  "triple (pending_at sha A n t i) (finish sha t i) (\<lambda>_. steady A n) (\<lambda>w. faulty w \<and> holds sha A n w)"
proof -
  let ?E = "\<lambda>w. faulty w \<and> holds sha A n w"
  let ?R = "\<lambda>c w. decided sha A (file_at w Revision) t i w \<and> int_revision i = n \<and> revision_of (file_at w Revision) = Inr c
     \<and> (c = n \<and> (\<forall>p. file_at w (Db p) = A p) \<or> n = Suc c)"
  let ?S = "\<lambda>w. pending_at sha A n t i w \<and> revision_of (file_at w Revision) = Inr n"
  have hold: "pending_at sha A n t i w" if "?R c w" for c w
    using that by (auto simp: pending_at_def)
  have rev: "triple (pending_at sha A n t i) revision_unlocked ?R ?E"
    by (auto simp: triple_def revision_unlocked_def read_optional_def io_bind_def io_read_def io_lift_def pending_at_def)
  have notified: "triple ?S (io_then (io_for (\<lambda>m. notify (event_of t (int_revision i) m)) (int_files i)) (complete t))
      (\<lambda>_. steady A n) ?E"
  proof (rule triple_then [where R = ?S])
    have S: "settled_pred ?S"
      by (rule settled_conj [OF settled_pending]) (rule settled_predI, simp add: agreeD)
    show "triple ?S (io_for (\<lambda>m. notify (event_of t (int_revision i) m)) (int_files i)) (\<lambda>_. ?S) ?E"
      by (rule triple_weaken_E [OF notify_triple [OF S]]) (auto simp: holds_def)
    show "triple ?S (complete t) (\<lambda>_. steady A n) ?E"
    proof (rule triple_pointwise)
      fix w
      assume w: "?S w"
      let ?r = "file_at w Revision"
      have "triple (carried sha A ?r t i) (complete t) (\<lambda>_. steady A n) ?E"
      proof (rule triple_conseq [OF complete_carried])
        fix x v
        assume "idle A ?r v \<and> t \<notin> set (dirs v)"
        then show "steady A n v" using w idle_at [of A ?r v] by (simp add: steady_def)
      next
        fix v
        assume v: "faulty v \<and> (decided sha A ?r t i v \<or> idle A ?r v) \<and> (\<forall>p. file_at v (Db p) = A p)"
        then have "file_at v Revision = ?r" using idle_at decided_at by blast
        then show "?E v" using v w by (auto simp: holds_def steady_def pending_at_def)
      qed
      then have "triple (\<lambda>v. ?S v \<and> v = w) (complete t) (\<lambda>_. steady A n) ?E"
        by (rule triple_pre) (use w in \<open>auto simp: carried_def pending_at_def\<close>)
      then show "\<exists>m. complete t w = m w \<and> triple (\<lambda>v. ?S v \<and> v = w) m (\<lambda>_. steady A n) ?E"
        by blast
    qed
  qed
  have rest: "triple (?R c) (io_then (apply_intent sha t i)
      (io_then (if c \<noteq> int_revision i then writer_write Revision (revision_text (int_revision i)) else io_return ())
      (io_then (io_for (\<lambda>m. notify (event_of t (int_revision i) m)) (int_files i)) (complete t)))) (\<lambda>_. steady A n) ?E" for c
  proof (rule triple_then [where R = "\<lambda>w. ?R c w \<and> (\<forall>p. file_at w (Db p) = A p)"])
    show "triple (?R c) (apply_intent sha t i) (\<lambda>_ w. ?R c w \<and> (\<forall>p. file_at w (Db p) = A p)) ?E"
    proof (rule triple_pointwise)
      fix w
      assume w: "?R c w"
      let ?r = "file_at w Revision"
      show "\<exists>m. apply_intent sha t i w = m w \<and> triple (\<lambda>v. ?R c v \<and> v = w) m
          (\<lambda>_ w. ?R c w \<and> (\<forall>p. file_at w (Db p) = A p)) ?E"
      proof (cases "n = Suc c")
        case False
        with w have "decided sha A ?r t i w" "\<forall>p. file_at w (Db p) = A p" by blast+
        from apply_intent_done [OF this] have "apply_intent sha t i w = io_return () w" by (simp add: io_return_def)
        then show ?thesis
          by (intro exI [of _ "io_return ()"] conjI triple_return) (use w False in auto)
      next
        case True
        have "triple (decided sha A ?r t i) (apply_intent sha t i) (\<lambda>_ w. ?R c w \<and> (\<forall>p. file_at w (Db p) = A p)) ?E"
        proof (rule triple_conseq [OF apply_intent_triple])
          fix x v
          assume "decided sha A ?r t i v \<and> (\<forall>p. file_at v (Db p) = A p)"
          then show "?R c v \<and> (\<forall>p. file_at v (Db p) = A p)" using w decided_at [of sha A ?r t i v] by auto
        next
          fix v
          assume "faulty v \<and> decided sha A ?r t i v"
          then show "?E v"
            using w True decided_at [of sha A ?r t i v] by (auto simp: holds_def pending_at_def)
        qed
        then have "triple (\<lambda>v. ?R c v \<and> v = w) (apply_intent sha t i) (\<lambda>_ w. ?R c w \<and> (\<forall>p. file_at w (Db p) = A p)) ?E"
          by (rule triple_pre) auto
        then show ?thesis by blast
      qed
    qed
    show "triple (\<lambda>w. ?R c w \<and> (\<forall>p. file_at w (Db p) = A p))
      (io_then (if c \<noteq> int_revision i then writer_write Revision (revision_text (int_revision i)) else io_return ())
      (io_then (io_for (\<lambda>m. notify (event_of t (int_revision i) m)) (int_files i)) (complete t))) (\<lambda>_. steady A n) ?E"
    proof (rule triple_then [OF _ notified])
      let ?T = "\<lambda>w. ?R c w \<and> (\<forall>p. file_at w (Db p) = A p)"
      have T: "settled_pred ?T"
      proof (rule settled_predI)
        fix w w'
        assume a: "agree w w'" and w: "?T w"
        have "decided sha A (file_at w Revision) t i w'"
          by (rule settled_predD [OF settled_decided _ a]) (use w in simp)
        then show "?T w'" using w by (auto simp: agreeD [OF a])
      qed
      show "triple ?T (if c \<noteq> int_revision i then writer_write Revision (revision_text (int_revision i)) else io_return ()) (\<lambda>_. ?S) ?E"
      proof (cases "c = int_revision i")
        case True
        then show ?thesis by (auto simp: triple_def io_return_def pending_at_def)
      next
        case False
        have "triple ?T (writer_write Revision (revision_text (int_revision i))) (\<lambda>_. ?S) (\<lambda>w. faulty w \<and> (?T w \<or> ?S w))"
        proof (rule writer_write_triple [OF T])
          show "settled_pred ?S"
            by (rule settled_conj [OF settled_pending]) (rule settled_predI, simp add: agreeD)
          fix w
          assume w: "?T w"
          then have "int (int_revision i) \<le> max_safe" by (auto simp: decided_def intent_wf_def intent_ok_def)
          then show "?S (put_file Revision (revision_text (int_revision i)) w)"
            using w decided_revision by (auto simp: pending_at_def revision_of_def)
        qed simp
        then have "triple ?T (writer_write Revision (revision_text (int_revision i))) (\<lambda>_. ?S) ?E"
          by (rule triple_weaken_E) (use hold in \<open>auto simp: holds_def\<close>)
        then show ?thesis using False by simp
      qed
    qed
  qed
  show ?thesis
    unfolding finish_def
    by (rule triple_bind [OF rev], rule triple_if, rule triple_throw, force, rule rest)
qed

subsection \<open>Recovery brings the contents about\<close>

lemma complete_pending_other:
  assumes "u \<noteq> t"
  shows "triple (pending_at sha A n t i) (complete u) (\<lambda>_. pending_at sha A n t i) (\<lambda>w. faulty w \<and> pending_at sha A n t i w)"
proof (rule triple_conseq [OF complete_triple [OF settled_pending]])
  fix w l
  assume "pending_at sha A n t i w" "in_txn u l"
  then show "pending_at sha A n t i (del_file l w)"
    using decided_del_other [OF _ _ assms [symmetric]] in_txn_facts [of u l] by (auto simp: pending_at_def)
next
  fix w
  assume "pending_at sha A n t i w"
  then show "pending_at sha A n t i (remove_dir u w)"
    using decided_remove_dir_other [OF _ assms [symmetric]] by (auto simp: pending_at_def)
qed auto

lemma run_recovery_triple:
  "triple (holds sha A n) (run_recovery sha) (\<lambda>_. steady A n) (\<lambda>w. faulty w \<and> holds sha A n w)"
proof (rule triple_pointwise)
  fix w
  assume w: "holds sha A n w"
  let ?r = "file_at w Revision"
  let ?E = "\<lambda>w. faulty w \<and> holds sha A n w"
  have "triple (\<lambda>v. holds sha A n v \<and> v = w) (run_recovery sha) (\<lambda>_. steady A n) ?E"
  proof (cases "steady A n w")
    case True
    have "triple (idle A ?r) (run_recovery sha) (\<lambda>_. steady A n) ?E"
      unfolding run_recovery_def
    proof (rule triple_bind)
      have "steady A n v" if "idle A ?r v" for v
        using that True idle_at [OF that] by (simp add: steady_def)
      then show "triple (idle A ?r) pending (\<lambda>x w. x = [] \<and> steady A n w) ?E"
        by (intro triple_conseq [OF pending_idle]) (auto simp: holds_def)
    qed (auto simp: triple_def io_return_def)
    then show ?thesis by (rule triple_pre) (use True in \<open>auto simp: steady_def\<close>)
  next
    case False
    with w obtain t i where p: "pending_at sha A n t i w" by (auto simp: holds_def)
    have step: "triple (pending_at sha A n t i) (run_recovery sha) (\<lambda>_. steady A n) ?E"
      unfolding run_recovery_def
    proof (rule triple_bind)
      show "triple (pending_at sha A n t i) pending (\<lambda>x w. x = [(t, i)] \<and> pending_at sha A n t i w) ?E"
        by (rule triple_weaken_E [OF pending_decided [OF _ complete_pending_other]])
          (auto simp: holds_def pending_at_def)
    next
      fix x
      have "triple (pending_at sha A n t i) (io_for (\<lambda>(t, i). finish sha t i) [(t, i)]) (\<lambda>_. steady A n) ?E"
        by (simp add: triple_then [OF finish_triple triple_return])
      then show "triple (\<lambda>w. x = [(t, i)] \<and> pending_at sha A n t i w) (io_for (\<lambda>(t, i). finish sha t i) x) (\<lambda>_. steady A n) ?E"
        by (auto simp: triple_def)
    qed
    then show ?thesis by (rule triple_pre) (use p in simp)
  qed
  then show "\<exists>m. run_recovery sha w = m w \<and> triple (\<lambda>v. holds sha A n v \<and> v = w) m (\<lambda>_. steady A n) ?E"
    by blast
qed

subsection \<open>The engine between two calls\<close>

definition serving :: "(path \<Rightarrow> string option) \<Rightarrow> nat \<Rightarrow> world \<Rightarrow> bool" where
  "serving A n w = (steady A n w \<and> ready w = Some (Inr ()) \<and> \<not> recovery_required w)"

definition engine_ok :: "(string \<Rightarrow> string) \<Rightarrow> (path \<Rightarrow> string option) \<Rightarrow> nat \<Rightarrow> world \<Rightarrow> bool" where
  "engine_ok sha A n w = (holds sha A n w \<and> (ready w = Some (Inr ()) \<and> \<not> recovery_required w \<longrightarrow> steady A n w))"

text \<open>What may make a call throw: a failing disk, or an engine that has seen one.\<close>

definition trouble :: "world \<Rightarrow> bool" where
  "trouble w = (faulty w \<or> recovery_required w \<or> (\<exists>e. ready w = Some (Inl e)))"

lemma engine_fields [simp]:
  "steady A n (w\<lparr>ready := r\<rparr>) = steady A n w" "steady A n (w\<lparr>recovery_required := b\<rparr>) = steady A n w"
  "pending_at sha A n t i (w\<lparr>ready := r\<rparr>) = pending_at sha A n t i w"
  "pending_at sha A n t i (w\<lparr>recovery_required := b\<rparr>) = pending_at sha A n t i w"
  "steady A n (w\<lparr>fails := g\<rparr>) = steady A n w" "pending_at sha A n t i (w\<lparr>fails := g\<rparr>) = pending_at sha A n t i w"
  by (simp_all add: steady_def idle_def tidy_def pending_at_def decided_def intent_wf_def linked_def
      payload_ok_def others_done_def split: option.split prod.split cong: option.case_cong)

lemma holds_fields [simp]:
  "holds sha A n (w\<lparr>ready := r\<rparr>) = holds sha A n w"
  "holds sha A n (w\<lparr>recovery_required := b\<rparr>) = holds sha A n w"
  "holds sha A n (w\<lparr>fails := g\<rparr>) = holds sha A n w"
  by (simp_all add: holds_def)

lemma faulty_fields [simp]:
  "faulty (w\<lparr>ready := r\<rparr>) = faulty w" "faulty (w\<lparr>recovery_required := b\<rparr>) = faulty w"
  by (simp_all add: faulty_def)

lemma serving_ok: "serving A n w \<Longrightarrow> engine_ok sha A n w"
  by (simp add: serving_def engine_ok_def holds_def)

lemma settled_serving: "settled_pred (serving A n)"
  by (rule settled_predI) (auto simp: serving_def agreeD intro: settled_predD [OF settled_steady])

lemma restart_ok: "holds sha A n w \<Longrightarrow> engine_ok sha A n (restart g w)"
  by (simp add: restart_def engine_ok_def)

lemma assert_healthy_triple: "triple (serving A n) assert_healthy (\<lambda>_. serving A n) E"
  by (simp add: triple_def assert_healthy_def io_bind_def io_read_def io_return_def serving_def)

lemma recover_triple:
  "triple (engine_ok sha A n) (recover sha) (\<lambda>_. serving A n) (\<lambda>w. engine_ok sha A n w \<and> trouble w)"
proof (rule triple_pointwise)
  fix w
  assume w: "engine_ok sha A n w"
  let ?E = "\<lambda>w. engine_ok sha A n w \<and> trouble w"
  show "\<exists>m. recover sha w = m w \<and> triple (\<lambda>v. engine_ok sha A n v \<and> v = w) m (\<lambda>_. serving A n) ?E"
  proof (cases "ready w")
    case (Some r)
    then have "recover sha w = io_then (io_lift r) assert_healthy w"
      by (simp add: recover_def io_bind_def io_read_def)
    moreover have "triple (\<lambda>v. engine_ok sha A n v \<and> v = w) (io_then (io_lift r) assert_healthy) (\<lambda>_. serving A n) ?E"
      using w Some by (cases r)
        (auto simp: triple_def io_then_def io_bind_def io_lift_def assert_healthy_def io_read_def io_throw_def
          io_return_def engine_ok_def serving_def trouble_def)
    ultimately show ?thesis by blast
  next
    case None
    let ?m = "io_then (io_catch (io_then (run_recovery sha) (io_update (\<lambda>w. w\<lparr>ready := Some (Inr ())\<rparr>)))
            (\<lambda>e. io_then (io_update (\<lambda>w. w\<lparr>ready := Some (Inl e)\<rparr>)) (io_throw e))) assert_healthy"
    have "recover sha w = ?m w" using None by (simp add: recover_def io_bind_def io_read_def)
    moreover have "triple (holds sha A n) ?m (\<lambda>_. serving A n) ?E"
    proof (rule triple_then [where R = "\<lambda>w. steady A n w \<and> ready w = Some (Inr ())"])
      show "triple (holds sha A n) (io_catch (io_then (run_recovery sha) (io_update (\<lambda>w. w\<lparr>ready := Some (Inr ())\<rparr>)))
            (\<lambda>e. io_then (io_update (\<lambda>w. w\<lparr>ready := Some (Inl e)\<rparr>)) (io_throw e)))
            (\<lambda>_ w. steady A n w \<and> ready w = Some (Inr ())) ?E"
      proof (rule triple_catch)
        show "triple (holds sha A n) (io_then (run_recovery sha) (io_update (\<lambda>w. w\<lparr>ready := Some (Inr ())\<rparr>)))
            (\<lambda>_ w. steady A n w \<and> ready w = Some (Inr ())) (\<lambda>w. faulty w \<and> holds sha A n w)"
          by (rule triple_then [OF run_recovery_triple triple_update]) simp
      qed (auto simp: triple_def io_then_def io_bind_def io_update_def io_throw_def engine_ok_def trouble_def)
    qed (auto simp: triple_def assert_healthy_def io_bind_def io_read_def io_throw_def io_return_def engine_ok_def
        serving_def trouble_def holds_def)
    then have "triple (\<lambda>v. engine_ok sha A n v \<and> v = w) ?m (\<lambda>_. serving A n) ?E"
      by (rule triple_pre) (simp add: engine_ok_def)
    ultimately show ?thesis by blast
  qed
qed

subsection \<open>Reading what the database holds\<close>

lemma read_unlocked_triple:
  assumes "database_path p = Inr p"
  shows "triple (serving A n) (read_unlocked p) (\<lambda>x w. x = A p \<and> serving A n w \<and> \<not> linked w p)
    (\<lambda>w. serving A n w \<and> linked w p)"
  using assms
  by (auto simp: triple_def read_unlocked_def assert_no_symlinks_def io_then_def io_bind_def io_lift_def io_read_def
      io_throw_def io_return_def linked_def read_optional_def serving_def steady_def idle_def)

lemma engine_read_triple:
  assumes "database_path p = Inr p"
  shows "triple (engine_ok sha A n) (engine_read sha p) (\<lambda>x w. x = A p \<and> serving A n w \<and> \<not> linked w p)
    (\<lambda>w. engine_ok sha A n w \<and> (trouble w \<or> linked w p))"
proof -
  let ?E = "\<lambda>w. engine_ok sha A n w \<and> (trouble w \<or> linked w p)"
  have rec: "triple (engine_ok sha A n) (recover sha) (\<lambda>_. serving A n) ?E"
    by (rule triple_weaken_E [OF recover_triple]) blast
  have rd: "triple (serving A n) (read_unlocked p) (\<lambda>x w. x = A p \<and> serving A n w \<and> \<not> linked w p) ?E"
    by (rule triple_weaken_E [OF read_unlocked_triple [OF assms]]) (auto intro: serving_ok)
  show ?thesis
    unfolding engine_read_def assms
    by (rule triple_bind [where R = "\<lambda>_. engine_ok sha A n"], rule triple_lift)
      (auto intro!: triple_then [OF rec] triple_then [OF assert_healthy_triple] rd)
qed

lemma engine_etag_triple:
  assumes "database_path p = Inr p"
  shows "triple (engine_ok sha A n) (engine_etag sha p) (\<lambda>x w. x = map_option sha (A p) \<and> serving A n w \<and> \<not> linked w p)
    (\<lambda>w. engine_ok sha A n w \<and> (trouble w \<or> linked w p))"
  unfolding engine_etag_def
  by (rule triple_bind [OF engine_read_triple [OF assms]], rule triple_return) simp

lemma engine_revision_triple:
  "triple (engine_ok sha A n) (engine_revision sha) (\<lambda>x w. x = n \<and> serving A n w) (\<lambda>w. engine_ok sha A n w \<and> trouble w)"
proof -
  have "triple (serving A n) revision_unlocked (\<lambda>x w. x = n \<and> serving A n w) E" for E
    by (rule triple_conseq [OF revision_unlocked_triple [where P = "serving A n" and n = n]])
      (auto simp: serving_def steady_def)
  then show ?thesis
    unfolding engine_revision_def
    by (intro triple_then [OF recover_triple] triple_then [OF assert_healthy_triple])
qed

end
