(* ===== verification/Writes.thy ===== *)
theory Writes
  imports Engine
begin

section \<open>What writeMany guarantees (src/store/data-layer.ts)\<close>

text \<open>
  The specification of \<open>writeMany\<close> in terms of the contents the database holds, and the proof that
  the guards, the staging, the decision and its execution meet it whatever operation of the disk
  fails. The locale \<open>disk_observer\<close> of the file system is extended to the engine's calls and
  interpreted on the engine's memory and on its environment.
\<close>

subsection \<open>What a write does\<close>

text \<open>The contents after a write: a file whose content already has the hash asked for stays.\<close>

definition written_db :: "(string \<Rightarrow> string) \<Rightarrow> request list \<Rightarrow> (path \<Rightarrow> string option) \<Rightarrow> path \<Rightarrow> string option" where
  "written_db sha rs A p = (case find (\<lambda>r. rq_path r = p) rs of
     Some r \<Rightarrow> (if map_option sha (rq_content r) \<noteq> map_option sha (A p) then rq_content r else A p)
   | None \<Rightarrow> A p)"

definition names_in :: "(path \<Rightarrow> string option) \<Rightarrow> path \<Rightarrow> string set" where
  "names_in A dir = {takeWhile (\<lambda>c. c \<noteq> CHR ''/'') (drop (length dir + 1) p) | p.
     A p \<noteq> None \<and> starts_with (dir @ ''/'') p}"

definition yaml_in :: "(path \<Rightarrow> string option) \<Rightarrow> path \<Rightarrow> string set" where
  "yaml_in A dir = {s \<in> names_in A dir. ends_with ''.yaml'' s}"

definition collection_holds :: "(path \<Rightarrow> string option) \<Rightarrow> collection_check \<Rightarrow> bool" where
  "collection_holds A = (\<lambda>(dir, names). sort names = sorted_list_of_set (yaml_in A dir))"

definition read_holds :: "(string \<Rightarrow> string) \<Rightarrow> (path \<Rightarrow> string option) \<Rightarrow> read_check \<Rightarrow> bool" where
  "read_holds sha A = (\<lambda>(p, e). map_option sha (A p) = e)"

definition fresh :: "(string \<Rightarrow> string) \<Rightarrow> (path \<Rightarrow> string option) \<Rightarrow> request \<Rightarrow> bool" where
  "fresh sha A r = (case rq_expected r of None \<Rightarrow> True | Some e \<Rightarrow> e = map_option sha (A (rq_path r)))"

definition same :: "(string \<Rightarrow> string) \<Rightarrow> (path \<Rightarrow> string option) \<Rightarrow> request \<Rightarrow> bool" where
  "same sha A r = (map_option sha (rq_content r) = map_option sha (A (rq_path r)))"

text \<open>
  \<open>admitted\<close>: every guard of the call holds of the current contents. The specification of each
  result says whether it does, and what the database holds then.
\<close>

definition admitted :: "(string \<Rightarrow> string) \<Rightarrow> (path \<Rightarrow> string option) \<Rightarrow> request list \<Rightarrow> read_check list \<Rightarrow> collection_check list \<Rightarrow> bool" where
  "admitted sha A rs checks colls = (request_errors rs = [] \<and> list_all (fresh sha A) rs
     \<and> list_all (read_holds sha A) checks \<and> list_all (collection_holds A) colls)"

definition conflict_at :: "(string \<Rightarrow> string) \<Rightarrow> (path \<Rightarrow> string option) \<Rightarrow> request list \<Rightarrow> read_check list \<Rightarrow> collection_check list \<Rightarrow>
    path \<Rightarrow> string option \<Rightarrow> bool" where
  "conflict_at sha A rs checks colls p a = (request_errors rs = [] \<and>
     ((\<exists>r \<in> set rs. rq_path r = p \<and> a = map_option sha (A p) \<and> \<not> fresh sha A r)
      \<or> (\<exists>e. (p, e) \<in> set checks \<and> a = map_option sha (A p) \<and> a \<noteq> e)
      \<or> (\<exists>ns. (p, ns) \<in> set colls \<and> a = None \<and> \<not> collection_holds A (p, ns))))"

definition write_spec :: "(string \<Rightarrow> string) \<Rightarrow> (path \<Rightarrow> string option) \<Rightarrow> nat \<Rightarrow> request list \<Rightarrow> read_check list \<Rightarrow> collection_check list \<Rightarrow>
    batch_result \<Rightarrow> world \<Rightarrow> bool" where
  "write_spec sha A n rs checks colls res w = (case res of
     BWritten m es \<Rightarrow> m = Suc n \<and> es = etag_list sha rs \<and> admitted sha A rs checks colls
       \<and> \<not> list_all (same sha A) rs \<and> serving (written_db sha rs A) (Suc n) w
   | BUnchanged m es \<Rightarrow> m = n \<and> es = etag_list sha rs \<and> admitted sha A rs checks colls
       \<and> list_all (same sha A) rs \<and> serving A n w
   | BConflict p a m \<Rightarrow> m = n \<and> conflict_at sha A rs checks colls p a \<and> serving A n w
   | BInvalid p es \<Rightarrow> es = request_errors rs \<and> es \<noteq> [] \<and> serving A n w)"

lemma set_child_names:
  "\<forall>p. file_at w (Db p) = A p \<Longrightarrow> set (child_names dir w) = names_in A dir"
proof -
  assume A: "\<forall>p. file_at w (Db p) = A p"
  have "A p \<noteq> None \<longleftrightarrow> Db p \<in> fst ` set (files w)" for p
    using A [rule_format, of p, symmetric] map_of_eq_None_iff [of "files w" "Db p"] by (simp add: file_at_def)
  then have "A p \<noteq> None \<longleftrightarrow> (\<exists>c. (Db p, c) \<in> set (files w))" for p by force
  then show ?thesis
    by (force simp: child_names_def names_in_def List.map_filter_def split: loc.splits if_splits)
qed

lemma yaml_names_sorted:
  assumes "\<forall>p. file_at w (Db p) = A p"
  shows "yaml_names dir w = sorted_list_of_set (yaml_in A dir)"
proof -
  have "set (filter (ends_with ''.yaml'') (child_names dir w)) = yaml_in A dir"
    using set_child_names [OF assms] by (auto simp: yaml_in_def)
  moreover have "distinct (filter (ends_with ''.yaml'') (child_names dir w))"
    by (simp add: child_names_def)
  ultimately show ?thesis
    unfolding yaml_names_def by (metis sorted_list_of_set_sort_remdups distinct_remdups_id)
qed

subsection \<open>The guards\<close>

text \<open>What a call holds when it asks for the publication lock: its staged files, if there are any.\<close>

definition held :: "(string \<Rightarrow> string) \<Rightarrow> (path \<Rightarrow> string option) \<Rightarrow> nat \<Rightarrow> (string \<times> mutation list) option \<Rightarrow> change list \<Rightarrow> world \<Rightarrow> bool" where
  "held sha A n prep fs w = (serving A n w \<and> (\<forall>f \<in> set fs. \<not> linked w (ch_path f)) \<and> (case prep of None \<Rightarrow> fs = []
     | Some (t, ms) \<Rightarrow> ms = map (mutation_of sha) fs \<and> fs \<noteq> [] \<and> t \<in> set (dirs w) \<and> (\<forall>e \<in> set (enumerate 0 fs). staged t w e)))"

definition excused :: "path set \<Rightarrow> world \<Rightarrow> bool" where
  "excused ps w = (faulty w \<or> (\<exists>p \<in> ps. linked w p))"

lemma serving_db: "serving A n w \<Longrightarrow> file_at w (Db p) = A p"
  by (simp add: serving_def steady_def idle_def)

lemma serving_revision: "serving A n w \<Longrightarrow> revision_of (file_at w Revision) = Inr n"
  by (simp add: serving_def steady_def)

lemma held_serving: "held sha A n prep fs w \<Longrightarrow> serving A n w"
  by (simp add: held_def)

lemma serving_revision_run: "serving A n w \<Longrightarrow> revision_unlocked w = (Inr n, w)"
  by (simp add: revision_unlocked_def read_optional_def io_bind_def io_read_def io_lift_def serving_revision)

lemma serving_healthy_run: "serving A n w \<Longrightarrow> assert_healthy w = (Inr (), w)"
  by (simp add: assert_healthy_def io_bind_def io_read_def io_return_def serving_def)

lemma complete_serving:
  "triple (serving A n) (complete t) (\<lambda>_. serving A n) (\<lambda>w. faulty w \<and> serving A n w)"
proof (rule triple_conseq [OF complete_triple [OF settled_serving]])
  fix w l
  assume "serving A n w" "in_txn t l"
  then show "serving A n (del_file l w)"
    using idle_del in_txn_facts [of t l] by (auto simp: serving_def steady_def)
next
  fix w
  assume "serving A n w"
  then show "serving A n (remove_dir t w)" by (auto simp: serving_def steady_def idle_def)
qed auto

lemma drop_prepared_triple:
  "triple (serving A n) (drop_prepared prep) (\<lambda>_. serving A n) (\<lambda>w. faulty w \<and> serving A n w)"
  by (auto simp: drop_prepared_def triple_return complete_serving split: option.split prod.split)

lemma refuse_triple:
  assumes "f n = res"
  shows "triple (serving A n) (io_then (drop_prepared prep) (io_bind revision_unlocked (\<lambda>m. io_return (Some (f m)))))
    (\<lambda>x w. x = Some res \<and> serving A n w) (\<lambda>w. serving A n w \<and> excused ps w)"
proof (rule triple_then)
  show "triple (serving A n) (drop_prepared prep) (\<lambda>_. serving A n) (\<lambda>w. serving A n w \<and> excused ps w)"
    by (rule triple_weaken_E [OF drop_prepared_triple]) (auto simp: excused_def)
  show "triple (serving A n) (io_bind revision_unlocked (\<lambda>m. io_return (Some (f m))))
      (\<lambda>x w. x = Some res \<and> serving A n w) (\<lambda>w. serving A n w \<and> excused ps w)"
    by (auto simp: triple_def io_bind_def serving_revision_run io_return_def assms)
qed

lemma check_collections_triple:
  assumes "\<forall>c \<in> set colls. database_path (fst c) = Inr (fst c)" and "fst ` set colls \<subseteq> ps"
  shows "triple (held sha A n prep fs) (check_collections prep colls)
    (\<lambda>x w. case x of None \<Rightarrow> held sha A n prep fs w \<and> list_all (collection_holds A) colls
       | Some res \<Rightarrow> (\<exists>p ns. res = BConflict p None n \<and> (p, ns) \<in> set colls \<and> \<not> collection_holds A (p, ns)) \<and> serving A n w)
    (\<lambda>w. serving A n w \<and> excused ps w)"
  using assms
proof (induction colls)
  case Nil
  then show ?case by (simp add: triple_return)
next
  case (Cons c cs)
  obtain dir names where c: "c = (dir, names)" by (cases c)
  let ?Q = "\<lambda>cs x w. case x of None \<Rightarrow> held sha A n prep fs w \<and> list_all (collection_holds A) cs
       | Some res \<Rightarrow> (\<exists>p ns. res = BConflict p None n \<and> (p, ns) \<in> set cs \<and> \<not> collection_holds A (p, ns)) \<and> serving A n w"
  let ?E = "\<lambda>w. serving A n w \<and> excused ps w"
  show ?case
  proof (rule triple_pointwise)
    fix w
    assume w: "held sha A n prep fs w"
    note s = held_serving [OF w]
    have path: "database_path dir = Inr dir" "dir \<in> ps" using Cons.prems c by auto
    have found: "yaml_names dir w = sorted_list_of_set (yaml_in A dir)"
      by (rule yaml_names_sorted) (simp add: serving_db [OF s])
    let ?m = "check_collections prep (c # cs)"
    consider (linked) "linked w dir" | (bad) "\<not> linked w dir" "\<not> collection_holds A c" | (ok) "\<not> linked w dir" "collection_holds A c"
      by blast
    then show "\<exists>m. ?m w = m w \<and> triple (\<lambda>v. held sha A n prep fs v \<and> v = w) m (?Q (c # cs)) ?E"
    proof cases
      case linked
      have "?m w = io_throw (''symlink in database path: '' @ dir) w"
        using linked path by (simp add: c assert_no_symlinks_def io_then_def io_bind_def io_lift_def io_read_def io_throw_def linked_def)
      then show ?thesis
        by (intro exI conjI, assumption) (rule triple_throw, use linked path s in \<open>auto simp: excused_def\<close>)
    next
      case bad
      have "?m w = io_then (drop_prepared prep) (io_bind revision_unlocked (\<lambda>n. io_return (Some (BConflict dir None n)))) w"
        using bad path found by (simp add: c io_then_def io_bind_def assert_no_symlinks_run io_read_def collection_holds_def)
      moreover have "triple (held sha A n prep fs) (io_then (drop_prepared prep) (io_bind revision_unlocked (\<lambda>n. io_return (Some (BConflict dir None n)))))
          (?Q (c # cs)) ?E"
        by (rule triple_conseq [OF refuse_triple [where res = "BConflict dir None n"]])
          (use bad c in \<open>auto dest: held_serving\<close>)
      ultimately show ?thesis by (rule triple_run)
    next
      case ok
      have "?m w = check_collections prep cs w"
        using ok path found by (simp add: c io_then_def io_bind_def assert_no_symlinks_run io_read_def collection_holds_def)
      moreover have "triple (held sha A n prep fs) (check_collections prep cs) (?Q (c # cs)) ?E"
        by (rule triple_conseq [OF Cons.IH]) (use Cons.prems ok in \<open>auto split: option.splits\<close>)
      ultimately show ?thesis by (rule triple_run)
    qed
  qed
qed

lemma check_reads_triple:
  assumes "\<forall>c \<in> set checks. database_path (fst c) = Inr (fst c)" and "fst ` set checks \<subseteq> ps"
  shows "triple (held sha A n prep fs) (check_reads sha prep checks)
    (\<lambda>x w. case x of None \<Rightarrow> held sha A n prep fs w \<and> list_all (read_holds sha A) checks
       | Some res \<Rightarrow> (\<exists>p e. res = BConflict p (map_option sha (A p)) n \<and> (p, e) \<in> set checks \<and> map_option sha (A p) \<noteq> e) \<and> serving A n w)
    (\<lambda>w. serving A n w \<and> excused ps w)"
  using assms
proof (induction checks)
  case Nil
  then show ?case by (simp add: triple_return)
next
  case (Cons c cs)
  obtain p e where c: "c = (p, e)" by (cases c)
  let ?Q = "\<lambda>cs x w. case x of None \<Rightarrow> held sha A n prep fs w \<and> list_all (read_holds sha A) cs
       | Some res \<Rightarrow> (\<exists>p e. res = BConflict p (map_option sha (A p)) n \<and> (p, e) \<in> set cs \<and> map_option sha (A p) \<noteq> e) \<and> serving A n w"
  let ?E = "\<lambda>w. serving A n w \<and> excused ps w"
  show ?case
  proof (rule triple_pointwise)
    fix w
    assume w: "held sha A n prep fs w"
    note s = held_serving [OF w]
    have path: "database_path p = Inr p" "p \<in> ps" using Cons.prems c by auto
    have run: "\<not> linked w p \<Longrightarrow> read_unlocked p w = (Inr (A p), w)"
      using path assert_no_symlinks_run [of p w] serving_db [OF s]
      by (simp add: read_unlocked_def io_then_def io_bind_def io_lift_def read_optional_def io_read_def)
    let ?m = "check_reads sha prep (c # cs)"
    consider (linked) "linked w p" | (bad) "\<not> linked w p" "map_option sha (A p) \<noteq> e" | (ok) "\<not> linked w p" "map_option sha (A p) = e"
      by blast
    then show "\<exists>m. ?m w = m w \<and> triple (\<lambda>v. held sha A n prep fs v \<and> v = w) m (?Q (c # cs)) ?E"
    proof cases
      case linked
      have "?m w = io_throw (''symlink in database path: '' @ p) w"
        using linked path by (simp add: c read_unlocked_def assert_no_symlinks_def io_then_def io_bind_def io_lift_def io_read_def io_throw_def linked_def)
      then show ?thesis
        by (intro exI conjI, assumption) (rule triple_throw, use linked path s in \<open>auto simp: excused_def\<close>)
    next
      case bad
      have "?m w = io_then (drop_prepared prep) (io_bind revision_unlocked (\<lambda>n. io_return (Some (BConflict p (map_option sha (A p)) n)))) w"
        using bad run by (simp add: c io_bind_def)
      moreover have "triple (held sha A n prep fs) (io_then (drop_prepared prep) (io_bind revision_unlocked (\<lambda>n. io_return (Some (BConflict p (map_option sha (A p)) n)))))
          (?Q (c # cs)) ?E"
        by (rule triple_conseq [OF refuse_triple [where res = "BConflict p (map_option sha (A p)) n"]])
          (use bad c in \<open>auto dest: held_serving\<close>)
      ultimately show ?thesis by (rule triple_run)
    next
      case ok
      have "?m w = check_reads sha prep cs w" using ok run by (simp add: c io_bind_def)
      moreover have "triple (held sha A n prep fs) (check_reads sha prep cs) (?Q (c # cs)) ?E"
        by (rule triple_conseq [OF Cons.IH]) (use Cons.prems ok c in \<open>auto simp: read_holds_def split: option.splits\<close>)
      ultimately show ?thesis by (rule triple_run)
    qed
  qed
qed

subsection \<open>What the engine leaves alone\<close>

context disk_observer
begin

lemma preserves_revision [preserves_intros]: "preserves obs revision_unlocked"
  unfolding revision_unlocked_def by (intro preserves_intros)

lemma preserves_notify [preserves_intros]: "preserves obs (notify e)"
  unfolding notify_def by (intro preserves_intros; simp)

lemma preserves_finish [preserves_intros]: "preserves obs (finish sha t i)"
  unfolding finish_def by (intro preserves_intros)

lemma preserves_checks [preserves_intros]:
  "preserves obs (drop_prepared prep)" "preserves obs (read_unlocked p)" "preserves obs assert_healthy"
  unfolding drop_prepared_def read_unlocked_def assert_healthy_def by (intro preserves_intros)+

lemma preserves_guards [preserves_intros]:
  "preserves obs (check_collections prep colls)" "preserves obs (check_reads sha prep checks)"
  by (induction colls) (auto intro!: preserves_intros, induction checks, auto intro!: preserves_intros)

end

text \<open>An observation that sees nothing of the engine's memory either holds through every call.\<close>

locale engine_observer = disk_observer +
  assumes obs_ready [simp]: "obs (w\<lparr>ready := r\<rparr>) = obs w"
    and obs_required [simp]: "obs (w\<lparr>recovery_required := b\<rparr>) = obs w"
begin

lemma preserves_recover [preserves_intros]: "preserves obs (recover sha)"
  unfolding recover_def run_recovery_def by (intro preserves_intros; simp)

lemma preserves_engine_read [preserves_intros]:
  "preserves obs (engine_read sha p)" "preserves obs (engine_etag sha p)" "preserves obs (engine_revision sha)"
  unfolding engine_read_def engine_etag_def engine_revision_def by (intro preserves_intros)+

lemma preserves_map [preserves_intros]: "(\<And>x. preserves obs (f x)) \<Longrightarrow> preserves obs (io_map f xs)"
  by (induction xs) (auto intro: preserves_intros)

lemma preserves_publish [preserves_intros]: "preserves obs (publish sha checks colls etags prep)"
  unfolding publish_def commit_prepared_def decide_def by (intro preserves_intros; simp)

lemma preserves_write_many: "preserves obs (write_many sha t rs checks colls)"
  unfolding write_many_def write_locked_def stage_changes_def check_path_def Let_def by (intro preserves_intros)

end

text \<open>What a call finds when it starts, and what of it the disk operations and the calls keep.\<close>

definition memory :: "world \<Rightarrow> bool \<times> (string + unit) option \<times> path list" where
  "memory w = (recovery_required w, ready w, links w)"

definition environment :: "world \<Rightarrow> (nat \<Rightarrow> bool) \<times> path list" where
  "environment w = (fails w, links w)"

interpretation mem: disk_observer memory
  by unfold_locales (simp_all add: memory_def)

interpretation env: engine_observer environment
  by unfold_locales (simp_all add: environment_def)

subsection \<open>The decision\<close>

text \<open>
  A call that throws has changed nothing and the engine goes on, or the engine refuses every further
  call and the database holds the old contents or, when the guards \<open>C\<close> held, the new ones.
\<close>

definition failed :: "(string \<Rightarrow> string) \<Rightarrow> (path \<Rightarrow> string option) \<Rightarrow> nat \<Rightarrow> bool \<Rightarrow> (path \<Rightarrow> string option) \<Rightarrow> world \<Rightarrow> bool" where
  "failed sha A n C B w = (serving A n w \<or>
     (recovery_required w \<and> ready w = Some (Inr ()) \<and> (holds sha A n w \<or> (C \<and> holds sha B (Suc n) w))))"

lemma serving_memory: "steady A n w \<Longrightarrow> memory w = (False, Some (Inr ()), ls) \<Longrightarrow> serving A n w"
  by (auto simp: serving_def memory_def)

lemma decide_triple:
  assumes "distinct (map ch_path fs)" "\<forall>f \<in> set fs. database_path (ch_path f) = Inr (ch_path f)"
    and "\<forall>f \<in> set fs. map_option sha (A (ch_path f)) \<noteq> map_option sha (ch_content f)"
    and "intent_ok (intent_of sha (Suc n) fs)"
  shows "triple (held sha A n (Some (t, map (mutation_of sha) fs)) fs) (decide sha (t, map (mutation_of sha) fs) (Suc n)) (\<lambda>_. serving (changed_db fs A) (Suc n))
    (\<lambda>w. recovery_required w \<and> ready w = Some (Inr ()) \<and> (holds sha A n w \<or> holds sha (changed_db fs A) (Suc n) w) \<and> faulty w)"
proof (rule triple_pointwise)
  fix w
  let ?P = "held sha A n (Some (t, map (mutation_of sha) fs)) fs"
  let ?B = "changed_db fs A" and ?i = "intent_of sha (Suc n) fs" and ?r = "file_at w Revision"
  let ?on = "(False, Some (Inr ()), links w) :: bool \<times> (string + unit) option \<times> path list"
  let ?E = "\<lambda>w. faulty w \<and> (holds sha A n w \<or> holds sha ?B (Suc n) w)"
  assume w: "?P w"
  then have rev: "revision_of ?r = Inr n" using held_serving serving_revision by blast
  have idle: "holds sha A n v" if "idle A ?r v" for v
    using that idle_at [OF that] rev by (simp add: holds_def steady_def)
  have dec: "pending_at sha ?B (Suc n) t ?i v" if "decided sha ?B ?r t ?i v" for v
    using that decided_at [OF that] rev by (simp add: pending_at_def intent_of_def)
  have dec': "holds sha ?B (Suc n) v" if "decided sha ?B ?r t ?i v" for v
    using dec [OF that] by (auto simp: holds_def)
  have intent: "triple (\<lambda>w. prepared A ?r t (enumerate 0 fs) w \<and> (\<forall>f \<in> set fs. \<not> linked w (ch_path f)))
      (record_intent t (map (mutation_of sha) fs) (Suc n)) (\<lambda>i w. i = ?i \<and> pending_at sha ?B (Suc n) t ?i w) ?E"
    by (rule triple_conseq [OF record_intent_triple [OF assms]]) (use idle dec dec' in blast)+
  have "triple (\<lambda>w. prepared A ?r t (enumerate 0 fs) w \<and> (\<forall>f \<in> set fs. \<not> linked w (ch_path f)))
      (io_bind (record_intent t (map (mutation_of sha) fs) (Suc n)) (finish sha t)) (\<lambda>_. steady ?B (Suc n)) ?E"
    by (rule triple_bind [OF intent]) (rule triple_assume, simp, rule triple_weaken_E [OF finish_triple], auto)
  from triple_preserves [OF this, where f = memory and x = ?on]
  have body: "triple (\<lambda>w. (prepared A ?r t (enumerate 0 fs) w \<and> (\<forall>f \<in> set fs. \<not> linked w (ch_path f))) \<and> memory w = ?on)
      (io_bind (record_intent t (map (mutation_of sha) fs) (Suc n)) (finish sha t)) (\<lambda>_. serving ?B (Suc n))
      (\<lambda>w. ?E w \<and> ready w = Some (Inr ()))"
    by (rule triple_conseq) (auto intro: preserves_intros serving_memory simp: memory_def)
  have "triple (\<lambda>w. (prepared A ?r t (enumerate 0 fs) w \<and> (\<forall>f \<in> set fs. \<not> linked w (ch_path f))) \<and> memory w = ?on)
      (decide sha (t, map (mutation_of sha) fs) (Suc n)) (\<lambda>_. serving ?B (Suc n))
      (\<lambda>w. recovery_required w \<and> ready w = Some (Inr ()) \<and> (holds sha A n w \<or> holds sha ?B (Suc n) w) \<and> faulty w)"
    unfolding decide_def prod.case
    by (rule triple_catch [OF body])
      (auto simp: triple_def io_then_def io_bind_def io_update_def io_throw_def)
  then show "\<exists>m. decide sha (t, map (mutation_of sha) fs) (Suc n) w = m w \<and> triple (\<lambda>v. ?P v \<and> v = w) m
      (\<lambda>_. serving ?B (Suc n)) (\<lambda>w. recovery_required w \<and> ready w = Some (Inr ()) \<and> (holds sha A n w \<or> holds sha ?B (Suc n) w) \<and> faulty w)"
    by (intro exI conjI) (rule refl, erule triple_pre,
      auto simp: held_def prepared_def serving_def steady_def memory_def)
qed

definition write_ready :: "(string \<Rightarrow> string) \<Rightarrow> (path \<Rightarrow> string option) \<Rightarrow> change list \<Rightarrow> bool" where
  "write_ready sha A fs = (distinct (map ch_path fs) \<and> (\<forall>f \<in> set fs. database_path (ch_path f) = Inr (ch_path f))
     \<and> (\<forall>f \<in> set fs. map_option sha (A (ch_path f)) \<noteq> map_option sha (ch_content f)))"

lemma intent_of_ok:
  "(\<And>s. hex64 (sha s)) \<Longrightarrow> fs \<noteq> [] \<Longrightarrow> int n \<le> max_safe \<Longrightarrow> intent_ok (intent_of sha n fs)"
  by (auto simp: intent_ok_def intent_of_def mutation_ok_def list_all_iff split: option.split)

lemma triple_frame: "triple P m Q E \<Longrightarrow> triple (\<lambda>w. P w \<and> C) m (\<lambda>x w. Q x w \<and> C) (\<lambda>w. E w \<and> C)"
  unfolding triple_def by (fastforce split: prod.splits sum.splits)

lemma triple_case_option:
  "triple P m Q E \<Longrightarrow> (\<And>r. triple (R r) (h r) Q E) \<Longrightarrow>
   triple (\<lambda>w. case c of None \<Rightarrow> P w | Some r \<Rightarrow> R r w) (case c of None \<Rightarrow> m | Some r \<Rightarrow> h r) Q E"
  by (cases c) simp_all

text \<open>The last step, when every guard has passed.\<close>

lemma commit_triple:
  assumes sha: "\<And>s. hex64 (sha s)" and fs: "write_ready sha A fs"
    and prep: "prep = (if fs = [] then None else Some (t, map (mutation_of sha) fs))"
  shows "triple (held sha A n prep fs) (commit_prepared sha etags prep)
    (\<lambda>res w. if fs = [] then res = BUnchanged n etags \<and> serving A n w
       else res = BWritten (Suc n) etags \<and> serving (changed_db fs A) (Suc n) w)
    (\<lambda>w. failed sha A n True (changed_db fs A) w \<and> (faulty w \<or> max_safe < int (Suc n)))"
    (is "triple ?H _ ?Q ?E")
proof (rule triple_pointwise)
  fix w
  assume h: "?H w"
  then have s: "serving A n w" by (rule held_serving)
  let ?m = "commit_prepared sha etags prep" and ?ms = "map (mutation_of sha) fs"
  consider (same) "fs = []" | (exhausted) "fs \<noteq> []" "max_safe < int (Suc n)" | (small) "fs \<noteq> []" "int (Suc n) \<le> max_safe"
    by linarith
  then show "\<exists>m. ?m w = m w \<and> triple (\<lambda>v. ?H v \<and> v = w) m ?Q ?E"
  proof cases
    case same
    then have "?m w = io_return (BUnchanged n etags) w"
      using prep s by (simp add: commit_prepared_def io_bind_def serving_revision_run)
    then show ?thesis
      by (intro exI conjI, assumption) (rule triple_return, use same in \<open>auto dest: held_serving\<close>)
  next
    case exhausted
    then have "?m w = io_throw ''database revision exhausted'' w"
      using prep s by (simp add: commit_prepared_def io_bind_def serving_revision_run)
    then show ?thesis
      by (intro exI conjI, assumption) (rule triple_throw, use exhausted in \<open>auto simp: failed_def dest!: held_serving\<close>)
  next
    case small
    then have run: "?m w = io_then (decide sha (t, ?ms) (Suc n)) (io_return (BWritten (Suc n) etags)) w"
      using prep s by (simp add: commit_prepared_def io_bind_def serving_revision_run)
    have ok: "intent_ok (intent_of sha (Suc n) fs)" using intent_of_ok [OF sha small(1)] small(2) by simp
    have H: "?H = held sha A n (Some (t, ?ms)) fs" using prep small(1) by simp
    have "triple ?H (decide sha (t, ?ms) (Suc n)) (\<lambda>_. serving (changed_db fs A) (Suc n)) ?E"
      unfolding H by (rule triple_weaken_E [OF decide_triple [OF _ _ _ ok]]) (use fs in \<open>auto simp: write_ready_def failed_def\<close>)
    then have "triple ?H (io_then (decide sha (t, ?ms) (Suc n)) (io_return (BWritten (Suc n) etags))) ?Q ?E"
      by (rule triple_then) (rule triple_return, use small in simp)
    with run show ?thesis by (rule triple_run)
  qed
qed

text \<open>Everything under the publication lock.\<close>

lemma publish_triple:
  assumes sha: "\<And>s. hex64 (sha s)" and fs: "write_ready sha A fs"
    and prep: "prep = (if fs = [] then None else Some (t, map (mutation_of sha) fs))"
    and checks: "\<forall>c \<in> set checks. database_path (fst c) = Inr (fst c)" "fst ` set checks \<subseteq> ps"
    and colls: "\<forall>c \<in> set colls. database_path (fst c) = Inr (fst c)" "fst ` set colls \<subseteq> ps"
  shows "triple (held sha A n prep fs) (publish sha checks colls etags prep)
    (\<lambda>res w. (list_all (read_holds sha A) checks \<and> list_all (collection_holds A) colls \<and>
        (if fs = [] then res = BUnchanged n etags \<and> serving A n w
         else res = BWritten (Suc n) etags \<and> serving (changed_db fs A) (Suc n) w))
      \<or> (serving A n w \<and> (\<exists>p a. res = BConflict p a n \<and>
          ((\<exists>e. (p, e) \<in> set checks \<and> a = map_option sha (A p) \<and> a \<noteq> e)
           \<or> (\<exists>ns. (p, ns) \<in> set colls \<and> a = None \<and> \<not> collection_holds A (p, ns))))))
    (\<lambda>w. failed sha A n (list_all (read_holds sha A) checks \<and> list_all (collection_holds A) colls) (changed_db fs A) w
      \<and> (excused ps w \<or> max_safe < int (Suc n)))"
    (is "triple ?H _ ?Q ?E")
proof -
  let ?C = "list_all (collection_holds A) colls" and ?R = "list_all (read_holds sha A) checks"
  have healthy: "triple ?H assert_healthy (\<lambda>_. ?H) ?E"
    using held_serving serving_healthy_run by (fastforce simp: triple_def)
  have final: "triple (\<lambda>w. ?H w \<and> ?R \<and> ?C) (commit_prepared sha etags prep) ?Q ?E"
    by (rule triple_conseq [OF triple_frame [OF commit_triple [OF sha fs prep]]])
      (auto simp: excused_def failed_def split: if_splits)
  have reads: "triple (\<lambda>w. ?H w \<and> ?C) (io_bind (check_reads sha prep checks)
      (\<lambda>c. case c of Some r \<Rightarrow> io_return r | None \<Rightarrow> commit_prepared sha etags prep)) ?Q ?E"
  proof (rule triple_bind)
    show "triple (\<lambda>w. ?H w \<and> ?C) (check_reads sha prep checks) (\<lambda>x w. case x of None \<Rightarrow> ?H w \<and> ?R \<and> ?C
        | Some res \<Rightarrow> (\<exists>p e. res = BConflict p (map_option sha (A p)) n \<and> (p, e) \<in> set checks \<and> map_option sha (A p) \<noteq> e) \<and> serving A n w) ?E"
      by (rule triple_conseq [OF triple_frame [OF check_reads_triple [OF checks]]]) (auto simp: failed_def split: option.splits)
    show "triple (\<lambda>w. case c of None \<Rightarrow> ?H w \<and> ?R \<and> ?C
        | Some res \<Rightarrow> (\<exists>p e. res = BConflict p (map_option sha (A p)) n \<and> (p, e) \<in> set checks \<and> map_option sha (A p) \<noteq> e) \<and> serving A n w)
      (case c of Some r \<Rightarrow> io_return r | None \<Rightarrow> commit_prepared sha etags prep) ?Q ?E" for c
      by (rule triple_case_option [OF final triple_return]) auto
  qed
  have all: "triple ?H (io_bind (check_collections prep colls) (\<lambda>c. case c of Some r \<Rightarrow> io_return r
     | None \<Rightarrow> io_bind (check_reads sha prep checks)
      (\<lambda>c. case c of Some r \<Rightarrow> io_return r | None \<Rightarrow> commit_prepared sha etags prep))) ?Q ?E"
  proof (rule triple_bind [OF triple_weaken_E [OF check_collections_triple [OF colls]]])
    show "triple (\<lambda>w. case c of None \<Rightarrow> ?H w \<and> ?C
       | Some res \<Rightarrow> (\<exists>p ns. res = BConflict p None n \<and> (p, ns) \<in> set colls \<and> \<not> collection_holds A (p, ns)) \<and> serving A n w)
      (case c of Some r \<Rightarrow> io_return r | None \<Rightarrow> io_bind (check_reads sha prep checks)
        (\<lambda>c. case c of Some r \<Rightarrow> io_return r | None \<Rightarrow> commit_prepared sha etags prep)) ?Q ?E" for c
      by (rule triple_case_option [OF reads triple_return]) auto
  qed (simp add: failed_def)
  show ?thesis unfolding publish_def by (rule triple_then [OF healthy all])
qed

subsection \<open>The whole write\<close>

lemma serving_recover_run: "serving A n w \<Longrightarrow> recover sha w = (Inr (), w)"
  by (simp add: recover_def serving_healthy_run io_bind_def io_then_def io_read_def io_lift_def serving_def)
    (simp add: assert_healthy_def io_bind_def io_read_def io_return_def)

lemma serving_etag_run:
  assumes "serving A n w" and "database_path p = Inr p"
  shows "\<not> linked w p \<Longrightarrow> engine_etag sha p w = (Inr (map_option sha (A p)), w)"
    and "linked w p \<Longrightarrow> \<exists>e. engine_etag sha p w = (Inl e, w)"
proof -
  note s = serving_recover_run [OF assms(1), of sha] serving_healthy_run [OF assms(1)] serving_db [OF assms(1)]
  show "\<not> linked w p \<Longrightarrow> engine_etag sha p w = (Inr (map_option sha (A p)), w)"
    using assms(2) assert_no_symlinks_run [of p w]
    by (simp add: engine_etag_def engine_read_def read_unlocked_def io_then_def io_bind_def io_lift_def
        read_optional_def io_read_def io_return_def s)
  show "linked w p \<Longrightarrow> \<exists>e. engine_etag sha p w = (Inl e, w)"
    using assms(2)
    by (simp add: engine_etag_def engine_read_def read_unlocked_def assert_no_symlinks_def io_then_def io_bind_def
        io_lift_def io_read_def io_throw_def linked_def s)
qed

lemma serving_etags_run:
  assumes "serving A n w" and "\<forall>r \<in> set rs. database_path (rq_path r) = Inr (rq_path r)"
  shows "io_map (\<lambda>r. engine_etag sha (rq_path r)) rs w = (Inr (map (\<lambda>r. map_option sha (A (rq_path r))) rs), w)
      \<and> (\<forall>r \<in> set rs. \<not> linked w (rq_path r))
    \<or> (\<exists>e. io_map (\<lambda>r. engine_etag sha (rq_path r)) rs w = (Inl e, w)) \<and> (\<exists>r \<in> set rs. linked w (rq_path r))"
  using assms(2)
proof (induction rs)
  case Nil
  then show ?case by (simp add: io_return_def)
next
  case (Cons r rs)
  then have p: "database_path (rq_path r) = Inr (rq_path r)" by simp
  show ?case
  proof (cases "linked w (rq_path r)")
    case True
    then obtain e where "engine_etag sha (rq_path r) w = (Inl e, w)"
      using serving_etag_run(2) [OF assms(1) p] by blast
    then show ?thesis using True by (simp add: io_bind_def)
  next
    case False
    then have "engine_etag sha (rq_path r) w = (Inr (map_option sha (A (rq_path r))), w)"
      using serving_etag_run(1) [OF assms(1) p] by blast
    then show ?thesis using Cons False by (auto simp: io_bind_def io_return_def)
  qed
qed

lemma prepare_held:
  assumes "txn_id t" and "fs \<noteq> []"
  shows "triple (\<lambda>w. serving A n w \<and> (\<forall>f \<in> set fs. \<not> linked w (ch_path f))) (prepare sha t fs)
    (\<lambda>p w. p = (t, map (mutation_of sha) fs) \<and> held sha A n (Some p) fs w) (\<lambda>w. serving A n w \<and> faulty w)"
proof (rule triple_pointwise)
  fix w
  let ?P = "\<lambda>w. serving A n w \<and> (\<forall>f \<in> set fs. \<not> linked w (ch_path f))"
  let ?Q = "\<lambda>p w. p = (t, map (mutation_of sha) fs) \<and> held sha A n (Some p) fs w"
  assume w: "?P w"
  let ?r = "file_at w Revision" and ?on = "(False, Some (Inr ()), links w) :: bool \<times> (string + unit) option \<times> path list"
  have st: "steady A n v" if "idle A ?r v" for v
    using that idle_at [OF that] serving_revision [of A n w] w by (simp add: steady_def)
  have unl: "\<forall>f \<in> set fs. \<not> linked v (ch_path f)" if "memory v = ?on" for v
    using w that by (simp add: linked_def memory_def)
  have "triple (\<lambda>v. idle A ?r v \<and> memory v = ?on) (prepare sha t fs) ?Q (\<lambda>w. serving A n w \<and> faulty w)"
  proof (rule triple_conseq [OF triple_preserves [OF prepare_triple [OF assms(1)] mem.preserves_prepare]])
    fix x v
    assume v: "(x = (t, map (mutation_of sha) fs) \<and> prepared A ?r t (enumerate 0 fs) v) \<and> memory v = ?on"
    then have "serving A n v" using st serving_memory by (auto simp: prepared_def)
    then show "?Q x v" using v unl [of v] assms(2) by (auto simp: held_def prepared_def)
  qed (auto intro: serving_memory st)
  then show "\<exists>m. prepare sha t fs w = m w \<and> triple (\<lambda>v. ?P v \<and> v = w) m ?Q (\<lambda>w. serving A n w \<and> faulty w)"
    by (intro exI conjI) (rule refl, erule triple_pre, use w in \<open>auto simp: serving_def steady_def memory_def\<close>)
qed

lemma changed_requests_map:
  "changed_requests sha (zip rs (map (\<lambda>r. map_option sha (A (rq_path r))) rs)) = filter (\<lambda>r. \<not> same sha A r) rs"
  by (induction rs) (auto simp: changed_requests_def same_def)

lemma changed_written:
  assumes "distinct (map rq_path rs)"
  shows "changed_db (map change_of (filter (\<lambda>r. \<not> same sha A r) rs)) A = written_db sha rs A"
proof
  fix p
  show "changed_db (map change_of (filter (\<lambda>r. \<not> same sha A r) rs)) A p = written_db sha rs A p"
  proof (cases "\<exists>r \<in> set rs. rq_path r = p")
    case True
    then obtain r where r: "r \<in> set rs" "p = rq_path r" by blast
    have f: "find (\<lambda>r. rq_path r = p) rs = Some r" using find_unique [OF assms r(1)] r(2) by simp
    show ?thesis
    proof (cases "same sha A r")
      case True
      then have "find (\<lambda>f. ch_path f = p) (map change_of (filter (\<lambda>r. \<not> same sha A r) rs)) = None"
        using assms r by (auto simp: find_None_iff change_of_def distinct_map inj_on_def)
      then show ?thesis using True f r by (simp add: changed_db_def written_db_def same_def)
    next
      case False
      have "distinct (map ch_path (map change_of (filter (\<lambda>r. \<not> same sha A r) rs)))"
        using assms by (simp add: change_of_def o_def distinct_map_filter)
      then have "changed_db (map change_of (filter (\<lambda>r. \<not> same sha A r) rs)) A (ch_path (change_of r)) = ch_content (change_of r)"
        by (rule changed_db_at) (use r False in auto)
      then show ?thesis using f r False by (simp add: change_of_def written_db_def same_def)
    qed
  next
    case False
    then have "find (\<lambda>r. rq_path r = p) rs = None" by (auto simp: find_None_iff)
    moreover have "p \<notin> ch_path ` set (map change_of (filter (\<lambda>r. \<not> same sha A r) rs))"
      using False by (auto simp: change_of_def)
    ultimately show ?thesis by (simp add: changed_db_other written_db_def)
  qed
qed

lemma write_ready_changed:
  assumes "distinct (map rq_path rs)" and "\<forall>r \<in> set rs. database_path (rq_path r) = Inr (rq_path r)"
  shows "write_ready sha A (map change_of (filter (\<lambda>r. \<not> same sha A r) rs))"
  using assms by (auto simp: write_ready_def change_of_def o_def distinct_map_filter same_def)

lemma stale_fresh [simp]: "stale (r, map_option sha (A (rq_path r))) \<longleftrightarrow> \<not> fresh sha A r"
  by (auto simp: stale_def fresh_def split: option.split)

lemma find_stale_None:
  "find stale (zip rs (map (\<lambda>r. map_option sha (A (rq_path r))) rs)) = None \<Longrightarrow> list_all (fresh sha A) rs"
  by (induction rs) (auto split: if_splits)

lemma find_stale_Some:
  "find stale (zip rs (map (\<lambda>r. map_option sha (A (rq_path r))) rs)) = Some (r, a) \<Longrightarrow>
   r \<in> set rs \<and> a = map_option sha (A (rq_path r)) \<and> \<not> fresh sha A r"
  by (induction rs) (auto split: if_splits)

definition write_paths :: "request list \<Rightarrow> read_check list \<Rightarrow> collection_check list \<Rightarrow> path list" where
  "write_paths rs checks colls = map fst checks @ map fst colls @ map rq_path rs"

lemma check_path_run: "\<forall>p \<in> set ps. database_path p = Inr p \<Longrightarrow> io_for check_path ps w = (Inr (), w)"
  by (rule io_for_run) (simp add: check_path_def io_bind_def io_lift_def io_return_def)

definition call_ok :: "(string \<Rightarrow> string) \<Rightarrow> string \<Rightarrow> request list \<Rightarrow> read_check list \<Rightarrow> collection_check list \<Rightarrow> bool" where
  "call_ok sha t rs checks colls = ((\<forall>s. hex64 (sha s)) \<and> txn_id t \<and> distinct (map rq_path rs)
     \<and> (\<forall>p \<in> set (write_paths rs checks colls). database_path p = Inr p))"

definition changes_of :: "(string \<Rightarrow> string) \<Rightarrow> (path \<Rightarrow> string option) \<Rightarrow> request list \<Rightarrow> change list" where
  "changes_of sha A rs = map change_of (filter (\<lambda>r. \<not> same sha A r) rs)"

definition prep_of :: "(string \<Rightarrow> string) \<Rightarrow> string \<Rightarrow> change list \<Rightarrow> (string \<times> mutation list) option" where
  "prep_of sha t fs = (if fs = [] then None else Some (t, map (mutation_of sha) fs))"

lemma stage_changes_triple:
  assumes "txn_id t"
  shows "triple (\<lambda>w. serving A n w \<and> (\<forall>f \<in> set fs. \<not> linked w (ch_path f))) (stage_changes sha t fs)
    (\<lambda>p w. p = prep_of sha t fs \<and> held sha A n (prep_of sha t fs) fs w) (\<lambda>w. serving A n w \<and> faulty w)"
proof (cases "fs = []")
  case True
  then show ?thesis by (auto simp: stage_changes_def prep_of_def triple_return held_def)
next
  case False
  have "triple (\<lambda>w. serving A n w \<and> (\<forall>f \<in> set fs. \<not> linked w (ch_path f))) (io_bind (prepare sha t fs) (\<lambda>p. io_return (Some p)))
      (\<lambda>p w. p = prep_of sha t fs \<and> held sha A n (prep_of sha t fs) fs w) (\<lambda>w. serving A n w \<and> faulty w)"
    by (rule triple_bind [OF prepare_held [OF assms False]], rule triple_return) (use False in \<open>auto simp: prep_of_def\<close>)
  then show ?thesis using False by (simp add: stage_changes_def)
qed

text \<open>When every expectation of the requests is met: staging, then the publication.\<close>

definition write_failed :: "(string \<Rightarrow> string) \<Rightarrow> (path \<Rightarrow> string option) \<Rightarrow> nat \<Rightarrow> request list \<Rightarrow> read_check list \<Rightarrow> collection_check list \<Rightarrow> world \<Rightarrow> bool" where
  "write_failed sha A n rs checks colls w = (failed sha A n (admitted sha A rs checks colls) (written_db sha rs A) w
     \<and> (excused (set (write_paths rs checks colls)) w \<or> max_safe < int (Suc n)))"

lemma stage_publish_triple:
  assumes call: "call_ok sha t rs checks colls" and no_errors: "request_errors rs = []" and fresh: "list_all (fresh sha A) rs"
  shows "triple (\<lambda>w. serving A n w \<and> (\<forall>f \<in> set (changes_of sha A rs). \<not> linked w (ch_path f)))
    (io_bind (stage_changes sha t (changes_of sha A rs)) (publish sha checks colls (etag_list sha rs)))
    (write_spec sha A n rs checks colls) (write_failed sha A n rs checks colls)"
proof (rule triple_bind)
  let ?fs = "changes_of sha A rs"
  have sha: "\<And>s. hex64 (sha s)" and t: "txn_id t" and dist: "distinct (map rq_path rs)"
    and valid: "\<forall>p \<in> set (write_paths rs checks colls). database_path p = Inr p"
    using call by (auto simp: call_ok_def)
  have new: "changed_db ?fs A = written_db sha rs A" unfolding changes_of_def by (rule changed_written [OF dist])
  show "triple (\<lambda>w. serving A n w \<and> (\<forall>f \<in> set ?fs. \<not> linked w (ch_path f))) (stage_changes sha t ?fs)
      (\<lambda>p w. p = prep_of sha t ?fs \<and> held sha A n (prep_of sha t ?fs) ?fs w) (write_failed sha A n rs checks colls)"
    by (rule triple_weaken_E [OF stage_changes_triple [OF t]]) (simp add: write_failed_def failed_def excused_def)
  show "triple (\<lambda>w. p = prep_of sha t ?fs \<and> held sha A n (prep_of sha t ?fs) ?fs w) (publish sha checks colls (etag_list sha rs) p)
      (write_spec sha A n rs checks colls) (write_failed sha A n rs checks colls)" for p
  proof (rule triple_assume, simp only:, rule triple_conseq [OF publish_triple [where ps = "set (write_paths rs checks colls)"]])
    show "write_ready sha A ?fs"
      unfolding changes_of_def by (rule write_ready_changed) (use dist valid in \<open>auto simp: write_paths_def\<close>)
    show "prep_of sha t ?fs = (if ?fs = [] then None else Some (t, map (mutation_of sha) ?fs))"
      by (simp add: prep_of_def)
  next
    fix res v
    assume "(list_all (read_holds sha A) checks \<and> list_all (collection_holds A) colls \<and>
        (if ?fs = [] then res = BUnchanged n (etag_list sha rs) \<and> serving A n v
         else res = BWritten (Suc n) (etag_list sha rs) \<and> serving (changed_db ?fs A) (Suc n) v))
      \<or> (serving A n v \<and> (\<exists>p a. res = BConflict p a n \<and>
          ((\<exists>e. (p, e) \<in> set checks \<and> a = map_option sha (A p) \<and> a \<noteq> e)
           \<or> (\<exists>ns. (p, ns) \<in> set colls \<and> a = None \<and> \<not> collection_holds A (p, ns)))))"
    then show "write_spec sha A n rs checks colls res v"
      using fresh no_errors new
      by (auto simp: write_spec_def admitted_def conflict_at_def list_all_iff changes_of_def filter_empty_conv split: if_splits)
  qed (use sha valid new fresh no_errors in \<open>auto simp: write_paths_def write_failed_def admitted_def failed_def\<close>)
qed

text \<open>Everything under the locks, from the moment recovery has succeeded.\<close>

lemma write_locked_triple:
  assumes call: "call_ok sha t rs checks colls"
  shows "triple (serving A n) (write_locked sha t rs checks colls) (write_spec sha A n rs checks colls)
    (write_failed sha A n rs checks colls)"
    (is "triple _ ?m ?Q ?E")
proof (rule triple_pointwise)
  fix w
  assume s: "serving A n w"
  let ?actuals = "map (\<lambda>r. map_option sha (A (rq_path r))) rs"
  have rs: "\<forall>r \<in> set rs. database_path (rq_path r) = Inr (rq_path r)"
    using call by (auto simp: call_ok_def write_paths_def)
  have settle: "\<exists>m. ?m w = m w \<and> triple (\<lambda>v. serving A n v \<and> v = w) m ?Q ?E"
    if "?m w = (r, w)" "case r of Inl e \<Rightarrow> ?E w | Inr x \<Rightarrow> ?Q x w" for r
    using that by (intro exI [of _ ?m]) (auto simp: triple_def split: sum.splits)
  show "\<exists>m. ?m w = m w \<and> triple (\<lambda>v. serving A n v \<and> v = w) m ?Q ?E"
  proof (cases "request_errors rs = []")
    case False
    then show ?thesis using s by (intro settle) (auto simp: write_locked_def io_return_def write_spec_def)
  next
    case ok: True
    from serving_etags_run [OF s rs, of sha] show ?thesis
    proof (elim disjE conjE exE)
      fix e
      assume throws: "io_map (\<lambda>r. engine_etag sha (rq_path r)) rs w = (Inl e, w)" and "\<exists>r \<in> set rs. linked w (rq_path r)"
      then have "excused (set (write_paths rs checks colls)) w" by (force simp: excused_def write_paths_def)
      then show ?thesis using s ok throws
        by (intro settle) (auto simp: write_locked_def io_bind_def write_failed_def failed_def)
    next
      assume etags: "io_map (\<lambda>r. engine_etag sha (rq_path r)) rs w = (Inr ?actuals, w)"
        and unlinked: "\<forall>r \<in> set rs. \<not> linked w (rq_path r)"
      show ?thesis
      proof (cases "find stale (zip rs ?actuals)")
        case (Some ra)
        obtain r a where ra: "ra = (r, a)" by (cases ra)
        have "?m w = (Inr (BConflict (rq_path r) a n), w)"
          using etags Some ra ok serving_recover_run [OF s, of sha] serving_healthy_run [OF s] serving_revision_run [OF s]
          by (simp add: write_locked_def engine_revision_def io_then_def io_bind_def io_return_def)
        then show ?thesis
          using s ok find_stale_Some [of rs sha A r a] Some ra
          by (intro settle) (auto simp: write_spec_def conflict_at_def)
      next
        case None
        have "?m w = io_bind (stage_changes sha t (changes_of sha A rs)) (publish sha checks colls (etag_list sha rs)) w"
          using etags None ok by (simp add: write_locked_def io_bind_def changed_requests_map changes_of_def)
        moreover have "triple (\<lambda>v. serving A n v \<and> v = w)
            (io_bind (stage_changes sha t (changes_of sha A rs)) (publish sha checks colls (etag_list sha rs))) ?Q ?E"
          by (rule triple_pre [OF stage_publish_triple [OF call ok find_stale_None [OF None]]])
            (use unlinked in \<open>auto simp: changes_of_def change_of_def\<close>)
        ultimately show ?thesis by blast
      qed
    qed
  qed
qed

text \<open>
  From a serving engine a call throws only when an operation of the disk fails, a path is a symbolic
  link or the revisions are exhausted; at the first call it may also be the recovery that fails.
\<close>

lemma write_many_from:
  assumes call: "call_ok sha t rs checks colls"
    and rec: "triple P (recover sha) (\<lambda>_. serving A n) E"
    and E: "\<And>w. write_failed sha A n rs checks colls w \<Longrightarrow> E w"
  shows "triple P (write_many sha t rs checks colls) (write_spec sha A n rs checks colls) E"
proof -
  have paths: "triple P (io_for check_path ps) (\<lambda>_. P) E"
    if "set ps \<subseteq> set (write_paths rs checks colls)" for ps
    using that call check_path_run [of ps] by (fastforce simp: triple_def call_ok_def)
  have "triple P (if \<not> distinct (map rq_path rs) then io_throw ''duplicate database path in transaction'' else
      io_then (recover sha) (write_locked sha t rs checks colls)) (write_spec sha A n rs checks colls) E"
    using call triple_then [OF rec triple_weaken_E [OF write_locked_triple [OF call] E]] by (simp add: call_ok_def)
  then show ?thesis
    unfolding write_many_def
    by (intro triple_then [OF paths]) (auto simp: write_paths_def)
qed

lemma write_many_serving:
  assumes "call_ok sha t rs checks colls"
  shows "triple (serving A n) (write_many sha t rs checks colls) (write_spec sha A n rs checks colls)
    (write_failed sha A n rs checks colls)"
proof -
  have rec: "triple (serving A n) (recover sha) (\<lambda>_. serving A n) E" for E
    using serving_recover_run [of A n _ sha] by (auto simp: triple_def)
  show ?thesis by (rule write_many_from [OF assms rec])
qed

definition written_or_not :: "(string \<Rightarrow> string) \<Rightarrow> request list \<Rightarrow> read_check list \<Rightarrow> collection_check list \<Rightarrow>
    (path \<Rightarrow> string option) \<Rightarrow> nat \<Rightarrow> world \<Rightarrow> bool" where
  "written_or_not sha rs checks colls A n w = (engine_ok sha A n w \<or>
     (admitted sha A rs checks colls \<and> engine_ok sha (written_db sha rs A) (Suc n) w))"

lemma write_many_triple:
  assumes "call_ok sha t rs checks colls"
  shows "triple (engine_ok sha A n) (write_many sha t rs checks colls) (write_spec sha A n rs checks colls)
    (written_or_not sha rs checks colls A n)"
proof (rule write_many_from [OF assms])
  show "triple (engine_ok sha A n) (recover sha) (\<lambda>_. serving A n) (written_or_not sha rs checks colls A n)"
    by (rule triple_weaken_E [OF recover_triple]) (simp add: written_or_not_def)
  show "written_or_not sha rs checks colls A n w" if "write_failed sha A n rs checks colls w" for w
    using that serving_ok [of A n w sha] by (auto simp: write_failed_def failed_def written_or_not_def engine_ok_def)
qed

end
