(* ===== verification/EngineProps.thy ===== *)
theory EngineProps
  imports Writes
begin

section \<open>Properties of the data engine\<close>

text \<open>
  What a caller of \<open>DBEngine\<close> may rely on, each stated of the model's own calls, and the concrete
  worlds that the witnesses run them in.
\<close>

subsection \<open>A concrete database\<close>

definition demo_sha :: "string \<Rightarrow> string" where
  "demo_sha s = take 64 (replicate (length s) (CHR ''1'') @ replicate 64 (CHR ''0''))"

definition demo_id :: string where
  "demo_id = replicate 36 (CHR ''a'')"

definition demo_world :: "(nat \<Rightarrow> bool) \<Rightarrow> world" where
  "demo_world g = \<lparr>files = [(Db ''a.yaml'', ''x'')], dirs = [], links = [], events = [], clock = 0, fails = g,
     recovery_required = False, ready = Some (Inr ())\<rparr>"

definition demo_db :: "path \<Rightarrow> string option" where
  "demo_db = (\<lambda>p. if p = ''a.yaml'' then Some ''x'' else None)"

definition demo_request :: "path \<Rightarrow> string option \<Rightarrow> string option option \<Rightarrow> request" where
  "demo_request p c e = \<lparr>rq_path = p, rq_content = c, rq_expected = e, rq_validate = (\<lambda>_. []), rq_actor = None, rq_keys = []\<rparr>"

lemma demo_sha_hex: "hex64 (demo_sha s)"
  by (auto simp: hex64_def demo_sha_def list_all_iff is_hex_def is_digit_def less_eq_char_def dest!: in_set_takeD)

lemma demo_serving: "serving demo_db 0 (demo_world g)"
  by (auto simp: serving_def steady_def idle_def tidy_def demo_world_def demo_db_def revision_of_def file_at_def)

lemma demo_call:
  "call_ok demo_sha demo_id [demo_request ''a.yaml'' (Some ''yz'') e, demo_request ''b.yaml'' (Some ''w'') e'] [] []"
proof -
  have "database_path ''a.yaml'' = Inr ''a.yaml''" "database_path ''b.yaml'' = Inr ''b.yaml''" by code_simp+
  moreover have "txn_id demo_id" by (simp add: txn_id_def demo_id_def list_all_iff is_hex_def less_eq_char_def is_digit_def)
  ultimately show ?thesis by (simp add: call_ok_def demo_sha_hex write_paths_def demo_request_def)
qed

subsection \<open>Atomicity\<close>

text \<open>C1: a write of several files is atomic under any failure. Whatever operations of the disk fail
  during \<open>writeMany\<close> (a crash is the case that all fail from some point on), and whatever fails again
  during the recovery of the next process, the database then holds all of the old contents at the
  old revision or all of the new contents at the next one; it holds the new ones if the call said
  \<open>written\<close>, and the old ones if it gave any other result. A recovery that succeeds puts these
  contents in the files, and one that fails can be repeated.\<close>

theorem write_crash_atomic:
  assumes "call_ok sha t rs checks colls" and "engine_ok sha A n w"
    and run: "write_many sha t rs checks colls w = (res, w')"
    and rec: "recover sha (restart g w') = (outcome, w'')"
  shows "\<exists>B m. (B, m) \<in> {(A, n), (written_db sha rs A, Suc n)}
    \<and> engine_ok sha B m w''
    \<and> (outcome = Inr () \<longrightarrow> serving B m w'' \<and> (\<forall>p. file_at w'' (Db p) = B p))
    \<and> (\<forall>k es. res = Inr (BWritten k es) \<longrightarrow> B = written_db sha rs A \<and> m = Suc n \<and> k = m)
    \<and> (\<forall>r. res = Inr r \<longrightarrow> (\<forall>k es. r \<noteq> BWritten k es) \<longrightarrow> B = A \<and> m = n)"
proof -
  have R: "case res of Inl e \<Rightarrow> written_or_not sha rs checks colls A n w' | Inr x \<Rightarrow> write_spec sha A n rs checks colls x w'"
    using tripleD [OF write_many_triple [OF assms(1)] assms(2) run] .
  have "\<exists>B m. (B, m) \<in> {(A, n), (written_db sha rs A, Suc n)} \<and> engine_ok sha B m w'
      \<and> (\<forall>k es. res = Inr (BWritten k es) \<longrightarrow> B = written_db sha rs A \<and> m = Suc n \<and> k = m)
      \<and> (\<forall>r. res = Inr r \<longrightarrow> (\<forall>k es. r \<noteq> BWritten k es) \<longrightarrow> B = A \<and> m = n)"
    using R by (fastforce simp: written_or_not_def write_spec_def intro: serving_ok split: sum.splits batch_result.splits)
  then obtain B m where B: "(B, m) \<in> {(A, n), (written_db sha rs A, Suc n)}" "engine_ok sha B m w'"
      "\<forall>k es. res = Inr (BWritten k es) \<longrightarrow> B = written_db sha rs A \<and> m = Suc n \<and> k = m"
      "\<forall>r. res = Inr r \<longrightarrow> (\<forall>k es. r \<noteq> BWritten k es) \<longrightarrow> B = A \<and> m = n"
    by blast
  have "engine_ok sha B m (restart g w')" using B(2) by (intro restart_ok) (simp add: engine_ok_def)
  from tripleD [OF recover_triple this rec] have "engine_ok sha B m w''"
      "outcome = Inr () \<Longrightarrow> serving B m w'' \<and> (\<forall>p. file_at w'' (Db p) = B p)"
    by (auto intro: serving_ok serving_db split: sum.splits)
  with B show ?thesis by blast
qed

text \<open>The witness crashes a write of two files after its twelfth disk operation.\<close>

theorem write_crash_atomic_witness:
  "let rs = [demo_request ''a.yaml'' (Some ''yz'') None, demo_request ''b.yaml'' (Some ''w'') None];
       (res, w') = write_many demo_sha demo_id rs [] [] (demo_world (\<lambda>k. 12 \<le> k));
       (outcome, w'') = recover demo_sha (restart (\<lambda>_. False) w')
   in \<exists>B m. (B, m) \<in> {(demo_db, 0), (written_db demo_sha rs demo_db, 1)} \<and> engine_ok demo_sha B m w''"
proof -
  let ?rs = "[demo_request ''a.yaml'' (Some ''yz'') None, demo_request ''b.yaml'' (Some ''w'') None]"
  obtain res w' where run: "write_many demo_sha demo_id ?rs [] [] (demo_world (\<lambda>k. 12 \<le> k)) = (res, w')" by fastforce
  obtain outcome w'' where rec: "recover demo_sha (restart (\<lambda>_. False) w') = (outcome, w'')" by fastforce
  from write_crash_atomic [OF demo_call serving_ok [OF demo_serving] run rec]
  show ?thesis by (auto simp: run rec)
qed

subsection \<open>An engine that refuses\<close>

lemma check_path_stays: "snd (io_for check_path ps w) = w"
proof (induction ps)
  case (Cons p ps)
  then show ?case by (cases "database_path p") (auto simp: check_path_def io_then_def io_bind_def io_lift_def io_return_def)
qed (simp add: io_return_def)

lemma refused_recover:
  "recovery_required w \<Longrightarrow> ready w = Some (Inr ()) \<Longrightarrow> \<exists>e. recover sha w = (Inl e, w)"
  by (simp add: recover_def assert_healthy_def io_bind_def io_then_def io_read_def io_lift_def io_throw_def)

lemma refused_read:
  assumes "recovery_required w" and "ready w = Some (Inr ())"
  shows "\<exists>e. engine_read sha p w = (Inl e, w)"
  using refused_recover [OF assms, of sha]
  by (cases "database_path p") (auto simp: engine_read_def io_bind_def io_then_def io_lift_def)

lemma refused_write:
  assumes "recovery_required w" and "ready w = Some (Inr ())"
  shows "\<exists>e. write_many sha t rs checks colls w = (Inl e, w)"
proof -
  have paths: "io_for check_path ps w = (r, w') \<Longrightarrow> w' = w" for ps r w'
    using check_path_stays [of ps w] by simp
  show ?thesis
    using refused_recover [OF assms, of sha]
    by (auto simp: write_many_def io_then_def io_bind_def io_throw_def split: prod.split sum.split dest!: paths)
qed

subsection \<open>The results\<close>



text \<open>C3: a request that expects another version than the stored one is never written: no matter which
  operations fail, the old contents and the old revision stay, so no update is lost.\<close>

theorem stale_write_refused:
  assumes "call_ok sha t rs checks colls" and "serving A n w"
    and "r \<in> set rs" and "rq_expected r = Some e" and "e \<noteq> map_option sha (A (rq_path r))"
    and "write_many sha t rs checks colls w = (res, w')"
  shows "engine_ok sha A n w' \<and> (\<forall>k es. res \<noteq> Inr (BWritten k es)) \<and>
    (\<not> faulty w' \<longrightarrow> links w' = [] \<longrightarrow> int (Suc n) \<le> max_safe \<longrightarrow>
      (\<exists>p a. res = Inr (BConflict p a n)) \<or> (\<exists>p es. res = Inr (BInvalid p es)))"
proof -
  have no: "\<not> admitted sha A rs checks colls"
    using assms(3,4,5) by (fastforce simp: admitted_def list_all_iff fresh_def)
  have R: "case res of Inl e \<Rightarrow> write_failed sha A n rs checks colls w' | Inr x \<Rightarrow> write_spec sha A n rs checks colls x w'"
    using tripleD [OF write_many_serving [OF assms(1)] assms(2,6)] .
  show ?thesis
  proof (cases res)
    case (Inl e)
    then show ?thesis
      using R no by (auto simp: write_failed_def failed_def engine_ok_def excused_def linked_def list_ex_iff
          intro: serving_ok [unfolded engine_ok_def, THEN conjunct1] dest: serving_ok [of A n w' sha])
  next
    case (Inr x)
    then show ?thesis
      using R no by (cases x) (auto simp: write_spec_def intro: serving_ok)
  qed
qed

theorem stale_write_refused_witness:
  "\<forall>k es. fst (write_many demo_sha demo_id [demo_request ''a.yaml'' (Some ''yz'') (Some None), demo_request ''b.yaml'' (Some ''w'') None] [] []
     (demo_world (\<lambda>k. k mod 7 = 3))) \<noteq> Inr (BWritten k es)"
proof -
  let ?r = "demo_request ''a.yaml'' (Some ''yz'') (Some None)"
  obtain res w' where run: "write_many demo_sha demo_id [?r, demo_request ''b.yaml'' (Some ''w'') None] [] []
      (demo_world (\<lambda>k. k mod 7 = 3)) = (res, w')" by fastforce
  have "\<forall>k es. res \<noteq> Inr (BWritten k es)"
    using stale_write_refused [OF demo_call demo_serving, of ?r "Some None" None None] run
    by (simp add: demo_request_def demo_db_def)
  then show ?thesis by (simp add: run)
qed

text \<open>C4: a call that throws has changed nothing and leaves the engine serving, or it leaves an engine
  that refuses every further read and write until the process is restarted, while the disk holds the
  old contents or, only if every guard of the call held, the new ones.\<close>

theorem failed_write_contained:
  assumes "call_ok sha t rs checks colls" and "serving A n w"
    and "write_many sha t rs checks colls w = (Inl e, w')"
  shows "serving A n w' \<or>
    ((holds sha A n w' \<or> admitted sha A rs checks colls \<and> holds sha (written_db sha rs A) (Suc n) w')
     \<and> (\<forall>p. \<exists>e'. engine_read sha p w' = (Inl e', w'))
     \<and> (\<forall>t' rs' cs ds. \<exists>e'. write_many sha t' rs' cs ds w' = (Inl e', w')))"
proof -
  have "failed sha A n (admitted sha A rs checks colls) (written_db sha rs A) w'"
    using tripleD [OF write_many_serving [OF assms(1)] assms(2,3)] by (simp add: write_failed_def)
  moreover have "\<exists>e'. engine_read sha p w' = (Inl e', w')" if "recovery_required w'" "ready w' = Some (Inr ())" for p
    using refused_read that by blast
  moreover have "\<exists>e'. write_many sha t' rs' cs ds w' = (Inl e', w')" if "recovery_required w'" "ready w' = Some (Inr ())" for t' rs' cs ds
    using refused_write that by blast
  ultimately show ?thesis by (auto simp: failed_def)
qed

lemma demo_crash:
  "fst (write_many demo_sha demo_id [demo_request ''a.yaml'' (Some ''yz'') None, demo_request ''b.yaml'' (Some ''w'') None] [] []
     (demo_world (\<lambda>k. 20 \<le> k))) = Inl ''EIO''"
  by code_simp

theorem failed_write_contained_witness:
  "let w' = snd (write_many demo_sha demo_id [demo_request ''a.yaml'' (Some ''yz'') None, demo_request ''b.yaml'' (Some ''w'') None] [] []
     (demo_world (\<lambda>k. 20 \<le> k)))
   in serving demo_db 0 w' \<or> (\<forall>p. \<exists>e'. engine_read demo_sha p w' = (Inl e', w'))"
proof -
  obtain w' where run: "write_many demo_sha demo_id
      [demo_request ''a.yaml'' (Some ''yz'') None, demo_request ''b.yaml'' (Some ''w'') None] [] []
      (demo_world (\<lambda>k. 20 \<le> k)) = (Inl ''EIO'', w')"
    using demo_crash by (metis prod.collapse)
  show ?thesis using failed_write_contained [OF demo_call demo_serving run] by (auto simp: run)
qed

lemma find_SomeD: "find P xs = Some x \<Longrightarrow> x \<in> set xs \<and> P x"
  by (induction xs) (auto split: if_splits)

lemma written_db_exact:
  assumes "\<forall>r \<in> set rs. \<forall>c c'. rq_content r = Some c \<longrightarrow> A (rq_path r) = Some c' \<longrightarrow> sha c = sha c' \<longrightarrow> c = c'"
  shows "written_db sha rs A q = (case find (\<lambda>r. rq_path r = q) rs of Some r \<Rightarrow> rq_content r | None \<Rightarrow> A q)"
proof (cases "find (\<lambda>r. rq_path r = q) rs")
  case (Some r)
  then have r: "r \<in> set rs" "rq_path r = q" by (auto dest: find_SomeD)
  have "rq_content r = A q" if eq: "map_option sha (rq_content r) = map_option sha (A q)"
  proof (cases "rq_content r")
    case None
    then show ?thesis using eq by simp
  next
    case (Some c)
    then obtain c' where "A q = Some c'" "sha c = sha c'" using eq by (cases "A q") auto
    then show ?thesis using assms [rule_format, OF r(1) Some, of c'] Some r(2) by simp
  qed
  then show ?thesis unfolding written_db_def Some by auto
qed (simp add: written_db_def)

text \<open>C5: what a write has stored is what every later read returns. After \<open>written\<close>, a file of the
  batch reads as the content asked for (or as absent, when it was removed) and any other file as
  before, provided that no requested content collides with the stored one it replaces; the etags
  the call returned are those the files now have.\<close>

theorem read_your_writes:
  assumes "call_ok sha t rs checks colls" and "serving A n w" and "links w = []"
    and "write_many sha t rs checks colls w = (Inr (BWritten k es), w')"
    and "\<forall>r \<in> set rs. \<forall>c c'. rq_content r = Some c \<longrightarrow> A (rq_path r) = Some c' \<longrightarrow> sha c = sha c' \<longrightarrow> c = c'"
    and "database_path p = Inr p"
  shows "engine_read sha p w' = (Inr (case find (\<lambda>r. rq_path r = p) rs of Some r \<Rightarrow> rq_content r | None \<Rightarrow> A p), w')
    \<and> (\<forall>r \<in> set rs. \<forall>c. rq_content r = Some c \<longrightarrow> (rq_path r, sha c) \<in> set es \<and> engine_etag sha (rq_path r) w' = (Inr (Some (sha c)), w'))"
proof -
  have spec: "es = etag_list sha rs" "serving (written_db sha rs A) (Suc n) w'"
    using tripleD [OF write_many_serving [OF assms(1)] assms(2,4)] by (auto simp: write_spec_def)
  have "environment w' = environment w"
    using env.preserves_write_many [of sha t rs checks colls] assms(4) unfolding preserves_def by (metis snd_conv)
  then have unlinked: "\<not> linked w' q" for q using assms(3) by (simp add: environment_def linked_def list_ex_iff)
  have content: "written_db sha rs A q = (case find (\<lambda>r. rq_path r = q) rs of Some r \<Rightarrow> rq_content r | None \<Rightarrow> A q)" for q
    using written_db_exact [OF assms(5)] .
  have read: "engine_read sha q w' = (Inr (written_db sha rs A q), w')" if "database_path q = Inr q" for q
    using that unlinked [of q] serving_recover_run [OF spec(2)] serving_healthy_run [OF spec(2)] serving_db [OF spec(2)]
      assert_no_symlinks_run [of q w']
    by (simp add: engine_read_def read_unlocked_def io_then_def io_bind_def io_lift_def read_optional_def io_read_def)
  have "(rq_path r, sha c) \<in> set es \<and> engine_etag sha (rq_path r) w' = (Inr (Some (sha c)), w')"
    if r: "r \<in> set rs" "rq_content r = Some c" for r c
  proof -
    have "database_path (rq_path r) = Inr (rq_path r)" "find (\<lambda>s. rq_path s = rq_path r) rs = Some r"
      using assms(1) r find_unique [of rq_path rs r] by (auto simp: call_ok_def write_paths_def)
    then show ?thesis
      using r read content spec(1) by (force simp: engine_etag_def io_bind_def io_return_def etag_list_def)
  qed
  with read [OF assms(6)] content show ?thesis by simp
qed

lemma demo_written:
  "fst (write_many demo_sha demo_id [demo_request ''a.yaml'' (Some ''yz'') None, demo_request ''b.yaml'' (Some ''w'') None] [] []
     (demo_world (\<lambda>_. False))) = Inr (BWritten 1 [(''a.yaml'', demo_sha ''yz''), (''b.yaml'', demo_sha ''w'')])"
  by code_simp

theorem read_your_writes_witness:
  "let w' = snd (write_many demo_sha demo_id [demo_request ''a.yaml'' (Some ''yz'') None, demo_request ''b.yaml'' (Some ''w'') None] [] []
     (demo_world (\<lambda>_. False)))
   in engine_read demo_sha ''a.yaml'' w' = (Inr (Some ''yz''), w')"
proof -
  let ?rs = "[demo_request ''a.yaml'' (Some ''yz'') None, demo_request ''b.yaml'' (Some ''w'') None]"
  obtain w' where run: "write_many demo_sha demo_id ?rs [] [] (demo_world (\<lambda>_. False))
      = (Inr (BWritten 1 [(''a.yaml'', demo_sha ''yz''), (''b.yaml'', demo_sha ''w'')]), w')"
    using demo_written by (metis prod.collapse)
  have sha: "demo_sha ''yz'' \<noteq> demo_sha ''x''" and path: "database_path ''a.yaml'' = Inr ''a.yaml''" by code_simp+
  have links: "links (demo_world (\<lambda>_. False)) = []" by (simp add: demo_world_def)
  have apart: "\<forall>r \<in> set ?rs. \<forall>c c'. rq_content r = Some c \<longrightarrow> demo_db (rq_path r) = Some c' \<longrightarrow>
      demo_sha c = demo_sha c' \<longrightarrow> c = c'"
    using sha by (simp add: demo_request_def demo_db_def)
  have "engine_read demo_sha ''a.yaml'' w' = (Inr (Some ''yz''), w')"
    using read_your_writes [OF demo_call demo_serving links run apart path] by (simp add: demo_request_def)
  then show ?thesis by (simp add: run)
qed

text \<open>A call with a path that leads out of the database, or with one path twice, throws before it
  has touched the disk.\<close>

theorem bad_call_untouched:
  assumes "(\<exists>p \<in> set (write_paths rs checks colls). database_path p \<noteq> Inr p) \<or> \<not> distinct (map rq_path rs)"
  shows "\<exists>e. write_many sha t rs checks colls w = (Inl e, w)"
proof -
  have stays: "snd (io_for check_path ps w) = w" for ps by (rule check_path_stays)
  have bad: "\<exists>e. io_for check_path ps w = (Inl e, w)" if "\<exists>p \<in> set ps. database_path p \<noteq> Inr p" for ps
    using that
  proof (induction ps)
    case (Cons p ps)
    then show ?case
      by (cases "database_path p")
        (auto simp: check_path_def io_then_def io_bind_def io_lift_def io_return_def dest: database_path_Inr)
  qed simp
  let ?A = "io_for check_path (map fst checks) w" and ?B = "io_for check_path (map fst colls) w"
    and ?C = "io_for check_path (map rq_path rs) w"
  obtain a b c where abc: "?A = (a, w)" "?B = (b, w)" "?C = (c, w)"
    using stays by (metis prod.collapse)
  consider "\<exists>e. a = Inl e" | "\<exists>e. b = Inl e" | "\<exists>e. c = Inl e" | "\<not> distinct (map rq_path rs)"
    using assms bad [of "map fst checks"] bad [of "map fst colls"] bad [of "map rq_path rs"] abc
    by (auto simp: write_paths_def)
  then show ?thesis
    using abc by cases (auto simp: write_many_def io_then_def io_bind_def io_throw_def split: sum.split)
qed

theorem bad_call_untouched_witness:
  "\<exists>e. write_many demo_sha demo_id [demo_request ''../x'' (Some ''y'') None] [] [] (demo_world (\<lambda>_. False))
     = (Inl e, demo_world (\<lambda>_. False))"
proof -
  have "database_path ''../x'' \<noteq> Inr ''../x''" by code_simp
  then show ?thesis by (intro bad_call_untouched) (simp add: write_paths_def demo_request_def)
qed

text \<open>A process that dies while it replaces \<open>.revision\<close> leaves the temporary beside it. Recovery
  completes the write, but nothing removes the temporary: every later snapshot of the database lists
  it as a file, under a name that \<open>databasePath\<close> itself refuses.\<close>

theorem crash_leaves_temporary:
  "let w' = snd (write_many demo_sha demo_id [demo_request ''a.yaml'' (Some ''yz'') None] [] [] (demo_world (\<lambda>k. 20 \<le> k)));
       (outcome, w'') = recover demo_sha (restart (\<lambda>_. False) w')
   in outcome = Inr () \<and> file_at w'' (Db ''a.yaml'') = Some ''yz''
     \<and> fst (engine_snapshot demo_sha '''' w'') = Inr (1, [(''a.yaml'', ''yz''), (''.revision.19.tmp'', '''')])
     \<and> database_path ''.revision.19.tmp'' = Inl ''invalid database path: .revision.19.tmp''"
  by code_simp

end
