(* ===== verification/Documents.thy ===== *)
theory Documents
  imports Paths Json
begin

section \<open>Documents (src/store/metadata.ts, src/namespace.ts, src/store/environment-order.ts)\<close>

text \<open>
  What a configuration document carries beside its keys, what names a document, and the declared
  order of the environments. \<open>yaml\<close> stands for the parser of the package \<open>yaml\<close> (\<open>Inl\<close> is a thrown
  error), \<open>dump\<close> for its printer. The only law assumed of them, where one is, is that the parser reads
  a printed document back and that the printer leaves out undefined members (\<open>yaml_law\<close>); the model's own
  JSON reader and printer satisfy it.
\<close>

type_synonym yaml = "string \<Rightarrow> string + jsval"
type_synonym dump = "jsval \<Rightarrow> string"

definition json_yaml :: yaml where
  "json_yaml s = (case json_parse s of None \<Rightarrow> Inl ''syntax error'' | Some v \<Rightarrow> Inr v)"

definition yaml_law :: "yaml \<Rightarrow> dump \<Rightarrow> bool" where
  "yaml_law yaml dump \<longleftrightarrow> (\<forall>v. json_ok v \<longrightarrow> yaml (dump v) = Inr v)
     \<and> (\<forall>kvs. dump (JObj kvs) = dump (JObj (filter (\<lambda>(_, v). v \<noteq> JUndef) kvs)))"

lemma json_yaml_json: "json_ok v \<Longrightarrow> json_yaml (json v) = Inr v"
  by (simp add: json_yaml_def)

lemma json_yaml_law: "yaml_law json_yaml json"
  by (simp add: yaml_law_def json_yaml_json)

lemma yaml_lawD: "yaml_law yaml dump \<Longrightarrow> json_ok v \<Longrightarrow> yaml (dump v) = Inr v"
  by (simp add: yaml_law_def)

lemma yaml_law_undef: "yaml_law yaml dump \<Longrightarrow> dump (JObj kvs) = dump (JObj (filter (\<lambda>(_, v). v \<noteq> JUndef) kvs))"
  by (simp only: yaml_law_def)

text \<open>\<open>Object.entries\<close>: an array has its indices as keys.\<close>

definition entries :: "jsval \<Rightarrow> obj" where
  "entries v = (case v of JObj kvs \<Rightarrow> kvs | JArr vs \<Rightarrow> map (\<lambda>(i, x). (nat_str i, x)) (enumerate 0 vs) | _ \<Rightarrow> [])"

text \<open>The own members of any value, which a spread copies: a string has its characters.\<close>

definition own_members :: "jsval \<Rightarrow> obj" where
  "own_members v = (case v of JStr s \<Rightarrow> map (\<lambda>(i, c). (nat_str i, JStr [c])) (enumerate 0 s) | _ \<Rightarrow> entries v)"

text \<open>\<open>{ ...base, ...added }\<close> of two objects: a later member takes the place of an earlier one.\<close>

definition merge_members :: "obj \<Rightarrow> obj \<Rightarrow> obj" where
  "merge_members base added = foldl (\<lambda>d (k, x). AList.update k x d) base added"

lemma merge_members_simps [simp]:
  "merge_members base [] = base" "merge_members base ((k, x) # added) = merge_members (AList.update k x base) added"
  by (simp_all add: merge_members_def)

subsection \<open>Numbers read from text\<close>

text \<open>
  \<open>Number(s)\<close>: white space around the literal is ignored and nothing at all is zero; a literal is a
  signed decimal with an optional fraction and exponent, a signed \<open>Infinity\<close>, or an unsigned
  hexadecimal, octal or binary integer; anything else is NaN.
\<close>

definition radix_digits :: "nat \<Rightarrow> string \<Rightarrow> jsnum" where
  "radix_digits r s = (if s \<noteq> [] \<and> list_all (\<lambda>c. case hex_val c of Some d \<Rightarrow> d < r | None \<Rightarrow> False) s
     then NInt (foldl (\<lambda>a c. a * int r + (case hex_val c of Some d \<Rightarrow> int d | None \<Rightarrow> 0)) 0 s) else NNaN)"

definition decimal_literal :: "string \<Rightarrow> jsnum" where
  "decimal_literal s = (
     let neg = (s \<noteq> [] \<and> hd s = CHR ''-''); t = (if s \<noteq> [] \<and> (hd s = CHR ''-'' \<or> hd s = CHR ''+'') then tl s else s);
         ip = takeWhile is_digit t; r = dropWhile is_digit t;
         dot = (r \<noteq> [] \<and> hd r = CHR ''.''); fp = (if dot then takeWhile is_digit (tl r) else []);
         r2 = (if dot then dropWhile is_digit (tl r) else r) in
     if t = ''Infinity'' then NInf (\<not> neg)
     else if ip = [] \<and> fp = [] then NNaN
     else case json_exponent r2 of
       Some (k, []) \<Rightarrow> scale_dec ((if neg then - 1 else 1) * int (digits_val (ip @ fp))) (k - int (length fp))
     | _ \<Rightarrow> NNaN)"

definition js_number :: "string \<Rightarrow> jsnum" where
  "js_number s = (let t = trim s; p = to_lower (take 2 t) in
     if t = [] then NInt 0
     else if p = ''0x'' then radix_digits 16 (drop 2 t)
     else if p = ''0o'' then radix_digits 8 (drop 2 t)
     else if p = ''0b'' then radix_digits 2 (drop 2 t)
     else decimal_literal t)"

lemma digit_not_ws: "is_digit c \<Longrightarrow> \<not> is_ws c"
  by (auto simp: is_ws_def is_digit_def less_eq_char_def)

lemma trim_no_ws: "\<forall>c \<in> set s. \<not> is_ws c \<Longrightarrow> trim s = s"
proof -
  assume "\<forall>c \<in> set s. \<not> is_ws c"
  then have "dropWhile is_ws s = s" "dropWhile is_ws (rev s) = rev s"
    using hd_in_set [of "rev s"] by (auto simp: dropWhile_eq_self_iff)
  then show ?thesis by (simp add: trim_def)
qed

text \<open>Reading a printed natural number gives it back.\<close>

lemma js_number_nat_str: "js_number (nat_str n) = NInt (int n)"
proof -
  let ?s = "nat_str n"
  have d: "\<forall>c \<in> set ?s. is_digit c" by (auto dest: nat_str_digits)
  then have trim: "trim ?s = ?s" by (intro trim_no_ws) (auto dest: digit_not_ws)
  have lower: "to_lower_char c = c" if "is_digit c" for c
    using that by (auto simp: to_lower_char_def is_upper_def is_digit_def less_eq_char_def)
  have p: "\<forall>c \<in> set (to_lower (take 2 ?s)). is_digit c" using d lower by (auto simp: to_lower_def dest!: in_set_takeD)
  have x: "\<not> is_digit (CHR ''x'')" "\<not> is_digit (CHR ''o'')" "\<not> is_digit (CHR ''b'')" "\<not> is_digit (CHR ''-'')" "\<not> is_digit (CHR ''+'')" "\<not> is_digit (CHR ''I'')"
    by (simp_all add: is_digit_def less_eq_char_def)
  have np: "to_lower (take 2 ?s) \<noteq> ''0x''" "to_lower (take 2 ?s) \<noteq> ''0o''" "to_lower (take 2 ?s) \<noteq> ''0b''"
    using p x by auto
  have hd: "is_digit (hd ?s)" using d by (simp add: nat_str_not_Nil)
  then have sign: "hd ?s \<noteq> CHR ''-''" "hd ?s \<noteq> CHR ''+''" "?s \<noteq> ''Infinity''" using x by auto
  have tw: "takeWhile is_digit ?s = ?s" "dropWhile is_digit ?s = []" using d by (simp_all add: takeWhile_eq_all_conv)
  have "decimal_literal ?s = NInt (int n)"
    using sign by (simp add: tw decimal_literal_def Let_def json_exponent_def digits_val_nat_str scale_dec_def)
  then show ?thesis using trim np by (simp add: js_number_def Let_def)
qed

subsection \<open>Metadata\<close>

definition version_key :: string where
  "version_key = ''version''"

definition metadata_keys :: "string list" where
  "metadata_keys = [version_key, ''sops'']"

definition is_metadata_key :: "string \<Rightarrow> bool" where
  "is_metadata_key k = (k \<in> set metadata_keys)"

definition version_of :: "obj \<Rightarrow> int" where
  "version_of d = (case get_prop d version_key of
     JNum (NInt n) \<Rightarrow> (if num_is_safe (NInt n) \<and> 0 \<le> n then n else 0) | _ \<Rightarrow> 0)"

definition bumped_version :: "obj \<Rightarrow> int" where
  "bumped_version d = version_of d + 1"

definition config_only :: "obj \<Rightarrow> obj" where
  "config_only d = filter (\<lambda>(k, v). \<not> is_metadata_key k) d"

lemma is_metadata_simps [simp]: "is_metadata_key ''version''" "is_metadata_key ''sops''" "is_metadata_key version_key"
  by (simp_all add: is_metadata_key_def metadata_keys_def version_key_def)

lemma config_only_mem [simp]: "(k, v) \<in> set (config_only d) \<longleftrightarrow> (k, v) \<in> set d \<and> \<not> is_metadata_key k"
  by (auto simp: config_only_def)

lemma map_of_config_only: "map_of (config_only d) k = (if is_metadata_key k then None else map_of d k)"
  by (induction d) (auto simp: config_only_def)

lemma config_only_idem [simp]: "config_only (config_only d) = config_only d"
  by (auto simp: config_only_def)

lemma version_of_nonneg: "0 \<le> version_of d"
  by (simp add: version_of_def split: jsval.split jsnum.split)

text \<open>The revision counter of a document only ever moves up by one from a whole number: what is
  not a safe, non-negative integer counts as zero, so a damaged counter heals with the next save,
  and the served document never shows the counter or the encryption block.\<close>

theorem version_bump:
  "0 < bumped_version d
   \<and> (version_of d < max_safe \<longrightarrow> version_of (AList.update version_key (JNum (NInt (bumped_version d))) d) = bumped_version d)
   \<and> config_only (AList.update version_key v d) = config_only d
   \<and> get_prop (config_only d) version_key = JUndef \<and> get_prop (config_only d) ''sops'' = JUndef"
proof (intro conjI impI)
  show "0 < bumped_version d" using version_of_nonneg [of d] by (simp add: bumped_version_def)
  show "version_of (AList.update version_key (JNum (NInt (bumped_version d))) d) = bumped_version d" if "version_of d < max_safe"
    using that version_of_nonneg [of d] by (simp add: version_of_def [of "AList.update _ _ _"] get_prop_def bumped_version_def)
  show "config_only (AList.update version_key v d) = config_only d"
    by (induction d) (auto simp: config_only_def)
qed (simp_all add: get_prop_def map_of_config_only)

theorem version_bump_witness:
  "version_of (AList.update version_key (JNum (NInt (bumped_version [(''a'', JNull)]))) [(''a'', JNull)]) = 1"
  using version_bump [of "[(''a'', JNull)]" JNull]
  by (simp add: max_safe_def version_of_def [of "[(''a'', JNull)]"] get_prop_def bumped_version_def version_key_def)

subsection \<open>Namespaces\<close>

definition ns_char :: "char \<Rightarrow> bool" where
  "ns_char c = (is_lower c \<or> is_digit c)"

definition ns_part :: "string \<Rightarrow> bool" where
  "ns_part s = (s \<noteq> [] \<and> ns_char (hd s) \<and> list_all (\<lambda>c. ns_char c \<or> c = CHR ''-'') s)"

definition is_namespace :: "string \<Rightarrow> bool" where
  "is_namespace s = (case split_on (CHR ''/'') s of [a, b] \<Rightarrow> ns_part a \<and> ns_part b | _ \<Rightarrow> False)"

lemma ns_part_no_slash: "ns_part s \<Longrightarrow> CHR ''/'' \<notin> set s"
  by (auto simp: ns_part_def list_all_iff ns_char_def is_lower_def is_digit_def less_eq_char_def dest!: bspec)

lemma is_namespace_iff: "is_namespace s \<longleftrightarrow> (\<exists>a b. s = a @ ''/'' @ b \<and> ns_part a \<and> ns_part b)"
proof
  assume "is_namespace s"
  then obtain a b where ab: "split_on (CHR ''/'') s = [a, b]" "ns_part a" "ns_part b"
    by (auto simp: is_namespace_def split: list.splits)
  then have "s = a @ ''/'' @ b" using join_split_on [of "CHR ''/''" s] by simp
  with ab show "\<exists>a b. s = a @ ''/'' @ b \<and> ns_part a \<and> ns_part b" by blast
qed (auto simp: is_namespace_def split_on_append split_on_no_sep ns_part_no_slash)

subsection \<open>Environments\<close>

definition order_from_yaml :: "yaml \<Rightarrow> string \<Rightarrow> string list" where
  "order_from_yaml yaml source = (case yaml source of Inl _ \<Rightarrow> []
     | Inr parsed \<Rightarrow> (case prop_of parsed ''order'' of
         JArr vs \<Rightarrow> List.map_filter (\<lambda>v. case v of JStr s \<Rightarrow> Some s | _ \<Rightarrow> None) vs
       | _ \<Rightarrow> []))"

fun next_environment :: "string list \<Rightarrow> string \<Rightarrow> string option" where
  "next_environment [] e = None"
| "next_environment (x # xs) e = (if x = e then (case xs of [] \<Rightarrow> None | y # _ \<Rightarrow> Some y) else next_environment xs e)"

lemma next_environment_nth:
  "next_environment xs e = Some y \<longleftrightarrow> (\<exists>i. Suc i < length xs \<and> xs ! i = e \<and> xs ! Suc i = y \<and> e \<notin> set (take i xs))"
proof (induction xs)
  case (Cons x xs)
  show ?case
  proof (cases "x = e")
    case True
    have "(\<exists>i. Suc i < length (x # xs) \<and> (x # xs) ! i = e \<and> (x # xs) ! Suc i = y \<and> e \<notin> set (take i (x # xs)))
        \<longleftrightarrow> xs \<noteq> [] \<and> xs ! 0 = y"
    proof
      assume "\<exists>i. Suc i < length (x # xs) \<and> (x # xs) ! i = e \<and> (x # xs) ! Suc i = y \<and> e \<notin> set (take i (x # xs))"
      then obtain i where i: "Suc i < length (x # xs)" "(x # xs) ! Suc i = y" "e \<notin> set (take i (x # xs))" by blast
      then have "i = 0" using True by (cases i) auto
      with i show "xs \<noteq> [] \<and> xs ! 0 = y" by auto
    qed (use True in \<open>auto intro: exI [of _ 0]\<close>)
    then show ?thesis using True by (cases xs) auto
  next
    case False
    have "(\<exists>i. Suc i < length (x # xs) \<and> (x # xs) ! i = e \<and> (x # xs) ! Suc i = y \<and> e \<notin> set (take i (x # xs)))
        \<longleftrightarrow> (\<exists>i. Suc i < length xs \<and> xs ! i = e \<and> xs ! Suc i = y \<and> e \<notin> set (take i xs))" (is "?l = ?r")
    proof
      assume ?l
      then obtain i where i: "Suc i < length (x # xs)" "(x # xs) ! i = e" "(x # xs) ! Suc i = y" "e \<notin> set (take i (x # xs))"
        by blast
      then obtain j where "i = Suc j" using False by (cases i) auto
      with i show ?r by (intro exI [of _ j]) auto
    next
      assume ?r
      then obtain i where "Suc i < length xs" "xs ! i = e" "xs ! Suc i = y" "e \<notin> set (take i xs)" by blast
      with False show ?l by (intro exI [of _ "Suc i"]) auto
    qed
    then show ?thesis using False Cons by simp
  qed
qed simp

end
