(* ===== verification/Schema.thy ===== *)
theory Schema
  imports Documents
begin

section \<open>Schemas (src/schema/validator.ts, src/schema/meta-schema.ts)\<close>

text \<open>
  The typed keys of a service: the check of one value, the check of a whole document, and the
  readers that turn a schema document into key definitions. Outside code the definitions take as
  arguments: \<open>yaml\<close> and \<open>dump\<close> of the package \<open>yaml\<close>, and \<open>urls\<close>, the platform's URL parser, which
  gives the protocol of a valid URL (with its colon) and \<open>None\<close> where \<open>new URL\<close> throws. A
  \<open>SchemaError\<close> is told apart from any other exception, as its catcher does.
\<close>

type_synonym urls = "string \<Rightarrow> string option"
type_synonym problem = "string \<times> string"

datatype schema_exn = SchemaError string | OtherError string

datatype key_type = KString | KInt | KBool | KEnum | KUrl | KStrings

definition key_types :: "(string \<times> key_type) list" where
  "key_types = [(''string'', KString), (''int'', KInt), (''bool'', KBool), (''enum'', KEnum), (''url'', KUrl), (''string[]'', KStrings)]"

definition key_type_of :: "jsval \<Rightarrow> key_type option" where
  "key_type_of v = (case v of JStr s \<Rightarrow> map_of key_types s | _ \<Rightarrow> None)"

fun type_name :: "key_type \<Rightarrow> string" where
  "type_name KString = ''string''"
| "type_name KInt = ''int''"
| "type_name KBool = ''bool''"
| "type_name KEnum = ''enum''"
| "type_name KUrl = ''url''"
| "type_name KStrings = ''string[]''"

lemma key_type_of_name [simp]: "key_type_of (JStr (type_name t)) = Some t"
  by (cases t) (simp_all add: key_type_of_def key_types_def)

record key_def =
  kd_type :: key_type
  kd_default :: jsval
  kd_values :: "string list option"
  kd_min :: "jsnum option"
  kd_max :: "jsnum option"
  kd_secret :: bool
  kd_description :: "string option"

type_synonym key_defs = "(string \<times> key_def) list"

record schema_set =
  ss_services :: "(string \<times> key_defs) list"
  ss_versions :: "(string \<times> int) list"
  ss_retiring :: "string list"

fun opt_all :: "('a \<Rightarrow> bool) \<Rightarrow> 'a option \<Rightarrow> bool" where
  "opt_all P None = True"
| "opt_all P (Some x) = P x"

subsection \<open>One value\<close>

definition sops_encrypted :: "string \<Rightarrow> bool" where
  "sops_encrypted s = starts_with ''ENC[AES256_GCM,'' s"

definition url_schemes :: "string list" where
  "url_schemes = [''http:'', ''https:'']"

definition em_dash :: string where
  "em_dash = [CHR 0xE2, CHR 0x80, CHR 0x94]"

definition list_of_strings :: "jsval \<Rightarrow> bool" where
  "list_of_strings v = (case v of JArr vs \<Rightarrow> list_all is_string vs | _ \<Rightarrow> False)"

definition complain :: "string \<Rightarrow> string \<Rightarrow> problem option" where
  "complain key message = Some (key, quoted key @ message)"

definition check_int :: "string \<Rightarrow> key_def \<Rightarrow> jsval \<Rightarrow> problem option" where
  "check_int key d v = (case v of
     JNum n \<Rightarrow>
       if \<not> num_is_integer n then complain key '' must be a whole number''
       else if opt_all (\<lambda>m. \<not> num_less n m) (kd_min d) then
         (if opt_all (\<lambda>m. \<not> num_less m n) (kd_max d) then None
          else complain key ('' must be at most '' @ num_str (the (kd_max d))))
       else complain key ('' must be at least '' @ num_str (the (kd_min d)))
   | _ \<Rightarrow> complain key '' must be a whole number'')"

definition check_value :: "urls \<Rightarrow> string \<Rightarrow> key_def \<Rightarrow> jsval \<Rightarrow> problem option" where
  "check_value urls key d v =
     (if (case v of JStr s \<Rightarrow> sops_encrypted s | _ \<Rightarrow> False)
      then (if kd_secret d then None else complain key '' holds an encrypted value but is not marked secret in the schema'')
      else if v = JNull \<or> v = JUndef
      then complain key ('' cannot be null '' @ em_dash @ '' delete the key to remove the override'')
      else case kd_type d of
        KString \<Rightarrow> if is_string v then None else complain key '' must be a string''
      | KBool \<Rightarrow> (case v of JBool _ \<Rightarrow> None | _ \<Rightarrow> complain key '' must be true or false'')
      | KInt \<Rightarrow> check_int key d v
      | KEnum \<Rightarrow> (let values = (case kd_values d of Some vs \<Rightarrow> vs | None \<Rightarrow> []) in
          case v of JStr s \<Rightarrow> if s \<in> set values then None else complain key ('' must be one of: '' @ join '', '' values)
          | _ \<Rightarrow> complain key ('' must be one of: '' @ join '', '' values))
      | KUrl \<Rightarrow> (case v of JStr s \<Rightarrow>
            (case urls s of None \<Rightarrow> complain key '' must be a valid URL''
             | Some p \<Rightarrow> if p \<in> set url_schemes then None else complain key '' must be an http or https URL'')
          | _ \<Rightarrow> complain key '' must be a URL'')
      | KStrings \<Rightarrow> if list_of_strings v then None else complain key '' must be a list of strings'')"

text \<open>What the type of a key promises of its values, stated without the order of the checks.\<close>

definition within :: "jsnum option \<Rightarrow> jsnum \<Rightarrow> jsnum option \<Rightarrow> bool" where
  "within lo n hi = (opt_all (\<lambda>m. \<not> num_less n m) lo \<and> opt_all (\<lambda>m. \<not> num_less m n) hi)"

fun has_type :: "urls \<Rightarrow> key_def \<Rightarrow> jsval \<Rightarrow> bool" where
  "has_type urls d (JStr s) = (case kd_type d of
      KString \<Rightarrow> True
    | KEnum \<Rightarrow> (case kd_values d of Some vs \<Rightarrow> s \<in> set vs | None \<Rightarrow> False)
    | KUrl \<Rightarrow> urls s \<in> {Some ''http:'', Some ''https:''}
    | _ \<Rightarrow> False)"
| "has_type urls d (JNum n) = (kd_type d = KInt \<and> num_is_integer n \<and> within (kd_min d) n (kd_max d))"
| "has_type urls d (JBool b) = (kd_type d = KBool)"
| "has_type urls d (JArr vs) = (kd_type d = KStrings \<and> list_all is_string vs)"
| "has_type urls d _ = False"

definition conforms :: "urls \<Rightarrow> key_def \<Rightarrow> jsval \<Rightarrow> bool" where
  "conforms urls d v = (if \<exists>s. v = JStr s \<and> sops_encrypted s then kd_secret d else has_type urls d v)"

lemma complain_not_None [simp]: "complain k m \<noteq> None"
  by (simp add: complain_def)

lemma complain_key: "complain k m = Some p \<Longrightarrow> fst p = k"
  by (auto simp: complain_def)

lemma check_int_None: "check_int key d v = None \<longleftrightarrow> (\<exists>n. v = JNum n \<and> num_is_integer n \<and> within (kd_min d) n (kd_max d))"
  by (auto simp: check_int_def within_def split: jsval.split option.split)

lemma check_value_None: "check_value urls key d v = None \<longleftrightarrow> conforms urls d v"
  by (cases v; cases "kd_type d"; cases "kd_values d")
     (auto simp: check_value_def conforms_def check_int_None list_of_strings_def is_string_def Let_def url_schemes_def split: option.split)

lemma check_value_key: "check_value urls key d v = Some p \<Longrightarrow> fst p = key"
  by (auto simp: check_value_def check_int_def Let_def dest: complain_key split: if_splits option.splits key_type.splits jsval.splits)

subsection \<open>One document\<close>

definition definitions_for :: "schema_set \<Rightarrow> string \<Rightarrow> key_defs" where
  "definitions_for S service = (case map_of (ss_services S) service of Some ks \<Rightarrow> ks | None \<Rightarrow> [])"

definition has_schema :: "schema_set \<Rightarrow> string \<Rightarrow> bool" where
  "has_schema S service = has_key (ss_services S) service"

definition defaults_for :: "schema_set \<Rightarrow> string \<Rightarrow> obj" where
  "defaults_for S service = foldl (\<lambda>ds (k, d). if kd_default d \<noteq> JUndef then AList.update k (kd_default d) ds else ds) []
     (definitions_for S service)"

definition is_secret :: "schema_set \<Rightarrow> string \<Rightarrow> string \<Rightarrow> bool" where
  "is_secret S service key = (case map_of (ss_services S) service of None \<Rightarrow> False
     | Some ks \<Rightarrow> (case map_of ks key of None \<Rightarrow> False | Some d \<Rightarrow> kd_secret d))"

definition schema_version_of :: "schema_set \<Rightarrow> string \<Rightarrow> int" where
  "schema_version_of S service = (case map_of (ss_versions S) service of Some n \<Rightarrow> n | None \<Rightarrow> 1)"

definition is_retiring :: "schema_set \<Rightarrow> string \<Rightarrow> bool" where
  "is_retiring S service = (service \<in> set (ss_retiring S))"

definition entry_problem :: "urls \<Rightarrow> string \<Rightarrow> key_defs \<Rightarrow> string \<times> jsval \<Rightarrow> problem option" where
  "entry_problem urls service ks = (\<lambda>(key, v).
     if is_metadata_key key then None
     else case map_of ks key of
       None \<Rightarrow> Some (key, quoted key @ '' is not a key in the '' @ service @ '' schema'')
     | Some d \<Rightarrow> check_value urls key d v)"

definition validate :: "urls \<Rightarrow> schema_set \<Rightarrow> string \<Rightarrow> obj \<Rightarrow> problem list + unit" where
  "validate urls S service config = (case map_of (ss_services S) service of
     None \<Rightarrow> Inl [(''*'', ''no schema is defined for service '' @ quoted service)]
   | Some ks \<Rightarrow> (let errors = List.map_filter (entry_problem urls service ks) config
                in if errors = [] then Inr () else Inl errors))"

definition acceptable :: "urls \<Rightarrow> key_defs \<Rightarrow> string \<times> jsval \<Rightarrow> bool" where
  "acceptable urls ks = (\<lambda>(k, v). is_metadata_key k \<or> (\<exists>d. map_of ks k = Some d \<and> conforms urls d v))"

lemma entry_problem_None: "entry_problem urls service ks e = None \<longleftrightarrow> acceptable urls ks e"
  by (cases e) (auto simp: entry_problem_def acceptable_def check_value_None split: option.split)

lemma entry_problem_key: "entry_problem urls service ks e = Some p \<Longrightarrow> fst p = fst e"
  by (cases e) (auto simp: entry_problem_def dest: check_value_key split: if_splits option.splits)

lemma problem_keys: "map fst (List.map_filter (entry_problem urls service ks) config) = map fst (filter (\<lambda>e. \<not> acceptable urls ks e) config)"
proof (induction config)
  case (Cons e config)
  then show ?case
    using entry_problem_None [of urls service ks e] entry_problem_key [of urls service ks e]
    by (cases "entry_problem urls service ks e") (auto simp: map_filter_simps)
qed (simp add: map_filter_simps)

lemma problems_Nil: "List.map_filter (entry_problem urls service ks) config = [] \<longleftrightarrow> list_all (acceptable urls ks) config"
proof -
  have "List.map_filter (entry_problem urls service ks) config = [] \<longleftrightarrow> filter (\<lambda>e. \<not> acceptable urls ks e) config = []"
    using problem_keys [of urls service ks config] by (metis map_is_Nil_conv)
  then show ?thesis by (simp add: filter_empty_conv list_all_iff)
qed

lemma validate_known:
  "map_of (ss_services S) service = Some ks \<Longrightarrow> validate urls S service config = Inr () \<longleftrightarrow> list_all (acceptable urls ks) config"
  by (simp add: validate_def Let_def problems_Nil)

lemma validate_Inr_iff:
  "validate urls S service config = Inr () \<longleftrightarrow> has_schema S service \<and> list_all (acceptable urls (definitions_for S service)) config"
  by (auto simp: validate_known has_schema_def has_key_def definitions_for_def validate_def [of urls S] Let_def problems_Nil split: option.split)

subsection \<open>Reading a schema\<close>

text \<open>The loops that read a mapping into a \<open>Map\<close>, entry by entry, and stop at the first exception.\<close>

definition collect_step :: "(string \<Rightarrow> 'v \<Rightarrow> 'e + 'd) \<Rightarrow> string \<times> 'v \<Rightarrow> (string \<times> 'd) list \<Rightarrow> 'e + (string \<times> 'd) list" where
  "collect_step f = (\<lambda>(k, v) m. case f k v of Inl e \<Rightarrow> Inl e | Inr d \<Rightarrow> Inr (AList.update k d m))"

definition collect :: "(string \<Rightarrow> 'v \<Rightarrow> 'e + 'd) \<Rightarrow> (string \<times> 'v) list \<Rightarrow> 'e + (string \<times> 'd) list" where
  "collect f kvs = fold_err (collect_step f) kvs []"

definition key_types_include :: "jsval \<Rightarrow> bool" where
  "key_types_include v = (key_type_of v \<noteq> None)"

definition num_of :: "jsval \<Rightarrow> jsnum option" where
  "num_of v = (case v of JNum n \<Rightarrow> Some n | _ \<Rightarrow> None)"

definition parse_key :: "urls \<Rightarrow> string \<Rightarrow> string \<Rightarrow> jsval \<Rightarrow> schema_exn + key_def" where
  "parse_key urls service key raw = (
     let place = ''schema/'' @ service @ ''.yaml: '' @ quoted key;
         o_values = prop_of raw ''values''; mn = num_of (prop_of raw ''min''); mx = num_of (prop_of raw ''max'') in
     bind_err (when_err (\<not> is_record raw) (SchemaError (place @ '' must be a mapping describing the key''))) (\<lambda>_.
     case key_type_of (prop_of raw ''type'') of
       None \<Rightarrow> Inl (SchemaError (place @ '' declares unsupported type '' @ quoted (to_str (prop_of raw ''type''))))
     | Some ty \<Rightarrow>
       bind_err (when_err (ty = KEnum \<and> (case o_values of JArr vs \<Rightarrow> vs = [] | _ \<Rightarrow> True))
         (SchemaError (place @ '' is an enum and must list at least one permitted value''))) (\<lambda>_.
       bind_err (when_err (case (mn, mx) of (Some a, Some b) \<Rightarrow> num_less b a | _ \<Rightarrow> False)
         (SchemaError (place @ '' has min '' @ num_str (the mn) @ '' greater than max '' @ num_str (the mx)))) (\<lambda>_.
       let definition = \<lparr>kd_type = ty, kd_default = JUndef,
             kd_values = (case o_values of JArr vs \<Rightarrow> Some (map to_str vs) | _ \<Rightarrow> None),
             kd_min = mn, kd_max = mx, kd_secret = (prop_of raw ''secret'' = JBool True),
             kd_description = (case prop_of raw ''description'' of JStr s \<Rightarrow> Some s | _ \<Rightarrow> None)\<rparr>;
           fallback = prop_of raw ''default''
       in if fallback = JUndef then Inr definition
          else case check_value urls key definition fallback of
            Some p \<Rightarrow> Inl (SchemaError (place @ '' declares a default it rejects: '' @ snd p))
          | None \<Rightarrow> Inr (definition\<lparr>kd_default := fallback\<rparr>)))))"

definition parse_schema :: "yaml \<Rightarrow> urls \<Rightarrow> string \<Rightarrow> string \<Rightarrow> schema_exn + key_defs" where
  "parse_schema yaml urls service source = (
     let file = ''schema/'' @ service @ ''.yaml'';
         shape = SchemaError (file @ '' must be a mapping with a '' @ quoted ''keys'' @ '' mapping'') in
     case yaml source of Inl _ \<Rightarrow> Inl (SchemaError (file @ '' is not valid YAML''))
     | Inr parsed \<Rightarrow>
       let ks = prop_of parsed ''keys'' in
       bind_err (when_err (\<not> is_record parsed) shape) (\<lambda>_.
         if ks = JUndef then Inr []
         else bind_err (when_err (\<not> is_record ks) shape) (\<lambda>_. collect (parse_key urls service) (obj_of ks))))"

definition yaml_or_throw :: "yaml \<Rightarrow> string \<Rightarrow> schema_exn + jsval" where
  "yaml_or_throw yaml source = map_sum OtherError id (yaml source)"

definition known_versions :: "int list" where
  "known_versions = [1]"

definition parse_schema_version :: "yaml \<Rightarrow> string \<Rightarrow> string \<Rightarrow> schema_exn + int" where
  "parse_schema_version yaml service source = bind_err (yaml_or_throw yaml source) (\<lambda>parsed.
     let file = ''schema/'' @ service @ ''.yaml''; declared = prop_of parsed ''version'' in
     case declared of
       JUndef \<Rightarrow> Inl (SchemaError (file @ '' declares no version; every schema must declare one''))
     | JNum (NInt n) \<Rightarrow>
         if n \<in> set known_versions then Inr n
         else Inl (SchemaError (file @ '' declares version '' @ int_str n @ ''; this service knows '' @ join '', '' (map int_str known_versions)))
     | _ \<Rightarrow> Inl (SchemaError (file @ '' declares a version that is not a whole number'')))"

definition parse_retiring :: "yaml \<Rightarrow> string \<Rightarrow> string \<Rightarrow> schema_exn + bool" where
  "parse_retiring yaml service source = bind_err (yaml_or_throw yaml source) (\<lambda>parsed.
     case prop_of parsed ''retiring'' of
       JUndef \<Rightarrow> Inr False
     | JBool b \<Rightarrow> Inr b
     | v \<Rightarrow> Inl (SchemaError (''schema/'' @ service @ ''.yaml declares '' @ quoted (''retiring: '' @ to_str v) @ ''; it must be true or false'')))"

definition add_file :: "yaml \<Rightarrow> urls \<Rightarrow> string \<times> string \<Rightarrow> schema_set \<Rightarrow> schema_exn + schema_set" where
  "add_file yaml urls = (\<lambda>(service, source) S.
     bind_err (parse_schema yaml urls service source) (\<lambda>ks.
     bind_err (parse_schema_version yaml service source) (\<lambda>n.
     bind_err (parse_retiring yaml service source) (\<lambda>r.
       Inr \<lparr>ss_services = AList.update service ks (ss_services S), ss_versions = AList.update service n (ss_versions S),
            ss_retiring = (if r then uniq (ss_retiring S @ [service]) else ss_retiring S)\<rparr>))))"

definition from_files :: "yaml \<Rightarrow> urls \<Rightarrow> (string \<times> string) list \<Rightarrow> schema_exn + schema_set" where
  "from_files yaml urls files = fold_err (add_file yaml urls) files \<lparr>ss_services = [], ss_versions = [], ss_retiring = []\<rparr>"

text \<open>\<open>path.match(/^schema\/([^/]+)\.yaml$/)\<close>\<close>

definition schema_path_name :: "path \<Rightarrow> string option" where
  "schema_path_name p = (if starts_with ''schema/'' p \<and> ends_with ''.yaml'' p \<and> length ''schema/'' + length ''.yaml'' < length p
     \<and> CHR ''/'' \<notin> set (slice 7 5 p) then Some (slice 7 5 p) else None)"

definition from_tree :: "yaml \<Rightarrow> urls \<Rightarrow> (path \<times> string) list \<Rightarrow> schema_exn + schema_set" where
  "from_tree yaml urls files = from_files yaml urls (foldl (\<lambda>sources (p, source).
     case schema_path_name p of Some name \<Rightarrow> AList.update name source sources | None \<Rightarrow> sources) [] files)"

definition document_shape :: "jsval \<Rightarrow> bool" where
  "document_shape parsed = (is_record parsed \<and> prop_of parsed ''version'' = JNum (NInt 1)
     \<and> (case prop_of parsed ''services'' of JObj _ \<Rightarrow> True | JArr _ \<Rightarrow> True | _ \<Rightarrow> False))"

definition service_source :: "dump \<Rightarrow> jsval \<Rightarrow> string" where
  "service_source dump definition = dump (JObj [(''version'', JNum (NInt 1)), (''keys'', prop_of definition ''keys'')])"

definition from_document :: "yaml \<Rightarrow> dump \<Rightarrow> urls \<Rightarrow> string \<Rightarrow> schema_exn + schema_set" where
  "from_document yaml dump urls source = (case yaml source of
     Inl _ \<Rightarrow> Inl (SchemaError ''schema.yaml is not valid YAML'')
   | Inr parsed \<Rightarrow>
     bind_err (when_err (\<not> document_shape parsed) (SchemaError ''schema.yaml must contain version: 1 and a services mapping'')) (\<lambda>_.
     let services = entries (prop_of parsed ''services'') in
     bind_err (collect (\<lambda>service v. if is_record v then Inr (service_source dump v)
         else Inl (SchemaError (''schema.yaml service '' @ quoted service @ '' must be a mapping''))) services) (\<lambda>files.
     bind_err (from_files yaml urls files) (\<lambda>result.
       Inr \<lparr>ss_services = ss_services result, ss_versions = map (\<lambda>s. (s, 1)) (keys (ss_services result)),
            ss_retiring = map fst (filter (\<lambda>(_, v). prop_of v ''retiring'' = JBool True) services)\<rparr>))))"

definition meta_validate :: "yaml \<Rightarrow> dump \<Rightarrow> urls \<Rightarrow> string \<Rightarrow> problem list + schema_set" where
  "meta_validate yaml dump urls source = (case from_document yaml dump urls source of
     Inr S \<Rightarrow> Inr S
   | Inl (SchemaError m) \<Rightarrow> Inl [(''*'', m)]
   | Inl (OtherError m) \<Rightarrow> Inl [(''*'', m)])"

subsection \<open>What was read is well formed\<close>

lemma fold_collect:
  assumes "fold_err (collect_step f) kvs m0 = Inr m"
  shows "distinct (map fst m0) \<Longrightarrow> distinct (map fst m)"
    and "fst ` set m = fst ` set m0 \<union> fst ` set kvs"
    and "map_of m k = Some d \<Longrightarrow> map_of m0 k = Some d \<or> (\<exists>v. (k, v) \<in> set kvs \<and> f k v = Inr d)"
proof -
  have "(distinct (map fst m0) \<longrightarrow> distinct (map fst m)) \<and> fst ` set m = fst ` set m0 \<union> fst ` set kvs
      \<and> (map_of m k = Some d \<longrightarrow> map_of m0 k = Some d \<or> (\<exists>v. (k, v) \<in> set kvs \<and> f k v = Inr d))"
    using assms
  proof (induction kvs arbitrary: m0)
    case (Cons e kvs)
    obtain k' v' where e: "e = (k', v')" by (cases e)
    with Cons.prems obtain d' where d: "f k' v' = Inr d'" by (cases "f k' v'") (auto simp: collect_step_def)
    with Cons.prems e have "fold_err (collect_step f) kvs (AList.update k' d' m0) = Inr m"
      by (simp add: collect_step_def)
    from Cons.IH [OF this] show ?case using e d by (auto simp: distinct_update split: if_splits)
  qed simp
  then show "distinct (map fst m0) \<Longrightarrow> distinct (map fst m)"
    and "fst ` set m = fst ` set m0 \<union> fst ` set kvs"
    and "map_of m k = Some d \<Longrightarrow> map_of m0 k = Some d \<or> (\<exists>v. (k, v) \<in> set kvs \<and> f k v = Inr d)" by blast+
qed

lemma collect_Inr:
  assumes "collect f kvs = Inr m"
  shows "distinct (map fst m)" "fst ` set m = fst ` set kvs"
    "map_of m k = Some d \<Longrightarrow> \<exists>v. (k, v) \<in> set kvs \<and> f k v = Inr d"
  using fold_collect [OF assms [unfolded collect_def]] by auto

definition key_def_ok :: "urls \<Rightarrow> key_def \<Rightarrow> bool" where
  "key_def_ok urls d = ((kd_type d = KEnum \<longrightarrow> kd_values d \<notin> {None, Some []})
     \<and> (case (kd_min d, kd_max d) of (Some a, Some b) \<Rightarrow> \<not> num_less b a | _ \<Rightarrow> True)
     \<and> (kd_default d \<noteq> JUndef \<longrightarrow> conforms urls d (kd_default d)))"

lemma conforms_default [simp]: "conforms urls (d\<lparr>kd_default := v\<rparr>) w = conforms urls d w"
  by (cases w) (simp_all add: conforms_def split: key_type.split)

definition bare_key_def :: "key_type \<Rightarrow> jsval \<Rightarrow> key_def" where
  "bare_key_def ty raw = \<lparr>kd_type = ty, kd_default = JUndef,
     kd_values = (case prop_of raw ''values'' of JArr vs \<Rightarrow> Some (map to_str vs) | _ \<Rightarrow> None),
     kd_min = num_of (prop_of raw ''min''), kd_max = num_of (prop_of raw ''max''), kd_secret = (prop_of raw ''secret'' = JBool True),
     kd_description = (case prop_of raw ''description'' of JStr s \<Rightarrow> Some s | _ \<Rightarrow> None)\<rparr>"

lemma bare_key_def_simps [simp]:
  "kd_type (bare_key_def ty raw) = ty" "kd_default (bare_key_def ty raw) = JUndef"
  "kd_values (bare_key_def ty raw) = (case prop_of raw ''values'' of JArr vs \<Rightarrow> Some (map to_str vs) | _ \<Rightarrow> None)"
  "kd_min (bare_key_def ty raw) = num_of (prop_of raw ''min'')" "kd_max (bare_key_def ty raw) = num_of (prop_of raw ''max'')"
  "kd_secret (bare_key_def ty raw) = (prop_of raw ''secret'' = JBool True)"
  by (simp_all add: bare_key_def_def)

lemma parse_key_Inr:
  "parse_key urls service key raw = Inr d \<longleftrightarrow> (\<exists>ty. is_record raw \<and> key_type_of (prop_of raw ''type'') = Some ty
     \<and> (ty = KEnum \<longrightarrow> (\<exists>v vs. prop_of raw ''values'' = JArr (v # vs)))
     \<and> (case (num_of (prop_of raw ''min''), num_of (prop_of raw ''max'')) of (Some a, Some b) \<Rightarrow> \<not> num_less b a | _ \<Rightarrow> True)
     \<and> (prop_of raw ''default'' = JUndef \<or> conforms urls (bare_key_def ty raw) (prop_of raw ''default''))
     \<and> d = bare_key_def ty raw\<lparr>kd_default := prop_of raw ''default''\<rparr>)" (is "?l \<longleftrightarrow> (\<exists>ty. ?r ty)")
proof (cases "key_type_of (prop_of raw ''type'')")
  case None
  then show ?thesis by (simp add: parse_key_def Let_def)
next
  case (Some ty)
  have e: "(case prop_of raw ''values'' of JArr vs \<Rightarrow> vs = [] | _ \<Rightarrow> True) \<longleftrightarrow> (\<nexists>v vs. prop_of raw ''values'' = JArr (v # vs))"
    by (simp split: jsval.split) (metis list.exhaust list.distinct(1))
  have m: "\<not> (case (x, y) of (Some a, Some b) \<Rightarrow> num_less b a | _ \<Rightarrow> False) \<longleftrightarrow> (case (x, y) of (Some a, Some b) \<Rightarrow> \<not> num_less b a | _ \<Rightarrow> True)" for x y
    by (simp split: option.split)
  have u: "bare_key_def ty raw\<lparr>kd_default := JUndef\<rparr> = bare_key_def ty raw" by (simp add: bare_key_def_def)
  have "?l \<longleftrightarrow> ?r ty"
    unfolding parse_key_def Let_def e bare_key_def_def [symmetric] bind_when_err_Inr m Some option.case
    using check_value_None [of urls key "bare_key_def ty raw" "prop_of raw ''default''"]
    by (cases "check_value urls key (bare_key_def ty raw) (prop_of raw ''default'')"; cases "prop_of raw ''default'' = JUndef")
       (auto simp: u)
  with Some show ?thesis by simp
qed

lemma parse_key_ok: "parse_key urls service key raw = Inr d \<Longrightarrow> key_def_ok urls d"
  unfolding parse_key_Inr key_def_ok_def by (elim exE conjE) auto

lemma parse_schema_ok:
  assumes "parse_schema yaml urls service source = Inr ks" and "map_of ks k = Some d"
  shows "key_def_ok urls d" "distinct (map fst ks)"
proof -
  have "ks \<noteq> []" using assms(2) by auto
  with assms(1) obtain kvs where c: "collect (parse_key urls service) kvs = Inr ks"
    by (auto simp: parse_schema_def Let_def split: sum.splits if_splits)
  from collect_Inr(3) [OF c assms(2)] show "key_def_ok urls d" by (auto dest: parse_key_ok)
  show "distinct (map fst ks)" by (rule collect_Inr(1) [OF c])
qed

definition schema_set_ok :: "urls \<Rightarrow> schema_set \<Rightarrow> bool" where
  "schema_set_ok urls S = (\<forall>service ks k d. map_of (ss_services S) service = Some ks \<longrightarrow> map_of ks k = Some d
     \<longrightarrow> key_def_ok urls d \<and> distinct (map fst ks))"

lemma schema_set_okD:
  assumes "schema_set_ok urls S" "map_of (ss_services S) service = Some ks" "map_of ks k = Some d"
  shows "key_def_ok urls d \<and> distinct (map fst ks)"
  using assms unfolding schema_set_ok_def by blast

lemma parse_schema_version_1:
  assumes "parse_schema_version yaml service source = Inr n"
  shows "n = 1"
proof -
  from assms obtain parsed where "yaml_or_throw yaml source = Inr parsed"
    by (auto simp: parse_schema_version_def bind_err_Inr_iff)
  with assms show ?thesis
    by (cases "prop_of parsed ''version''") (auto simp: parse_schema_version_def Let_def known_versions_def split: jsnum.splits if_splits)
qed

lemma from_files_ok:
  assumes "from_files yaml urls files = Inr S"
  shows "schema_set_ok urls S" "keys (ss_versions S) = keys (ss_services S)" "snd ` set (ss_versions S) \<subseteq> {1}"
    "fst ` set (ss_services S) = fst ` set files"
proof -
  define I where "I = (\<lambda>S. schema_set_ok urls S \<and> keys (ss_versions S) = keys (ss_services S) \<and> (\<forall>n \<in> snd ` set (ss_versions S). n = 1))"
  have same: "map fst xs = map fst ys \<Longrightarrow> map fst (AList.update k a xs) = map fst (AList.update k b ys)" for k and a :: key_defs and b :: int and xs ys
    by (induction xs arbitrary: ys) (auto simp: Cons_eq_map_conv)
  have upd: "snd ` set (AList.update k (1::int) xs) \<subseteq> insert 1 (snd ` set xs)" for k :: string and xs
    by (induction xs) auto
  have "I S \<and> fst ` set (ss_services S) = fst ` set (ss_services T) \<union> fst ` set files"
    if "I T" "fold_err (add_file yaml urls) files T = Inr S" for T
    using that
  proof (induction files arbitrary: T)
    case (Cons f files)
    obtain service source where f: "f = (service, source)" by (cases f)
    from Cons.prems(2) f obtain T' where T': "add_file yaml urls (service, source) T = Inr T'" "fold_err (add_file yaml urls) files T' = Inr S"
      by (cases "add_file yaml urls (service, source) T") simp_all
    from T'(1) obtain ks n r where p: "parse_schema yaml urls service source = Inr ks"
      "parse_schema_version yaml service source = Inr n" "parse_retiring yaml service source = Inr r"
      unfolding add_file_def prod.case bind_err_Inr_iff by blast
    let ?T = "\<lparr>ss_services = AList.update service ks (ss_services T), ss_versions = AList.update service n (ss_versions T),
            ss_retiring = (if r then uniq (ss_retiring T @ [service]) else ss_retiring T)\<rparr>"
    have n: "n = 1" by (rule parse_schema_version_1 [OF p(2)])
    have "schema_set_ok urls ?T"
    proof (unfold schema_set_ok_def, intro allI impI)
      fix s ks' k d
      assume a: "map_of (ss_services ?T) s = Some ks'" and d: "map_of ks' k = Some d"
      show "key_def_ok urls d \<and> distinct (map fst ks')"
      proof (cases "s = service")
        case True
        then have "ks' = ks" using a by simp
        with d parse_schema_ok [OF p(1)] show ?thesis by blast
      next
        case False
        then have "map_of (ss_services T) s = Some ks'" using a by simp
        moreover have "schema_set_ok urls T" using Cons.prems(1) by (simp only: I_def)
        ultimately show ?thesis using d by (blast dest: schema_set_okD)
      qed
    qed
    moreover have "keys (ss_versions ?T) = keys (ss_services ?T)"
      using Cons.prems(1) same [of "ss_services T" "ss_versions T" service ks n] by (auto simp: I_def keys_def)
    moreover have "\<forall>n \<in> snd ` set (ss_versions ?T). n = 1"
      using Cons.prems(1) upd [of service "ss_versions T"] by (auto simp: I_def n)
    ultimately have "I ?T" by (simp add: I_def)
    moreover have "fold_err (add_file yaml urls) files ?T = Inr S"
      using T' p by (simp add: add_file_def)
    ultimately show ?case using Cons.IH [of ?T] f by auto
  qed simp
  moreover have "I \<lparr>ss_services = [], ss_versions = [], ss_retiring = []\<rparr>" by (simp add: I_def schema_set_ok_def keys_def)
  ultimately have "I S \<and> fst ` set (ss_services S) = {} \<union> fst ` set files" using assms by (fastforce simp: from_files_def)
  then show "schema_set_ok urls S" "keys (ss_versions S) = keys (ss_services S)" "snd ` set (ss_versions S) \<subseteq> {1}"
    "fst ` set (ss_services S) = fst ` set files"
    unfolding I_def by blast+
qed

lemma from_document_Inr:
  assumes "from_document yaml dump urls source = Inr S"
  obtains parsed files result where "yaml source = Inr parsed" "document_shape parsed"
    "collect (\<lambda>service v. if is_record v then Inr (service_source dump v)
       else Inl (SchemaError (''schema.yaml service '' @ quoted service @ '' must be a mapping''))) (entries (prop_of parsed ''services'')) = Inr files"
    "from_files yaml urls files = Inr result" "ss_services S = ss_services result"
    "ss_versions S = map (\<lambda>s. (s, 1)) (keys (ss_services result))"
    "ss_retiring S = map fst (filter (\<lambda>(_, v). prop_of v ''retiring'' = JBool True) (entries (prop_of parsed ''services'')))"
  using assms by (auto simp: from_document_def Let_def bind_err_Inr_iff split: sum.splits)

lemma schema_set_ok_services: "ss_services S = ss_services S' \<Longrightarrow> schema_set_ok urls S = schema_set_ok urls S'"
  unfolding schema_set_ok_def by simp

lemma set_update_subset: "set (AList.update k v ds) \<subseteq> insert (k, v) (set ds)"
  by (induction ds) auto

lemma default_entries:
  fixes ks :: key_defs
  assumes "distinct (map fst ks)"
    and "(x, v) \<in> set (foldl (\<lambda>ds (k, d). if kd_default d \<noteq> JUndef then AList.update k (kd_default d) ds else ds) ds0 ks)"
  shows "(x, v) \<in> set ds0 \<or> (\<exists>d. map_of ks x = Some d \<and> v = kd_default d \<and> v \<noteq> JUndef)"
  using assms
proof (induction ks arbitrary: ds0)
  case (Cons e ks)
  obtain k d where e: "e = (k, d)" by (cases e)
  let ?ds = "if kd_default d \<noteq> JUndef then AList.update k (kd_default d) ds0 else ds0"
  have "(x, v) \<in> set ?ds \<or> (\<exists>d. map_of ks x = Some d \<and> v = kd_default d \<and> v \<noteq> JUndef)"
    using Cons e by simp
  moreover have "x \<noteq> k" if "map_of ks x = Some d'" for d'
    using Cons.prems(1) e that by (force dest: map_of_SomeD)
  moreover have "(x, v) \<in> set ?ds \<Longrightarrow> (x, v) \<in> set ds0 \<or> x = k \<and> v = kd_default d \<and> v \<noteq> JUndef"
    using set_update_subset [of k "kd_default d" ds0] by (auto split: if_splits)
  ultimately show ?case using e by auto
qed simp

lemma defaults_conform:
  assumes ok: "schema_set_ok urls S" and s: "map_of (ss_services S) service = Some ks"
  shows "list_all (acceptable urls ks) (defaults_for S service)"
proof (cases "ks = []")
  case False
  then obtain k d ks' where "ks = (k, d) # ks'" by (cases ks) auto
  then have "map_of ks k = Some d" by simp
  with ok s have dist: "distinct (map fst ks)" by (blast dest: schema_set_okD)
  show ?thesis unfolding list_all_iff
  proof
    fix e assume e: "e \<in> set (defaults_for S service)"
    obtain k v where kv: "e = (k, v)" by (cases e)
    from e s kv default_entries [OF dist, of k v "[]"]
    obtain d where "map_of ks k = Some d" "v = kd_default d" "v \<noteq> JUndef"
      by (auto simp: defaults_for_def definitions_for_def)
    with kv have e: "e = (k, kd_default d)" "map_of ks k = Some d" "kd_default d \<noteq> JUndef" by simp_all
    with ok s have "key_def_ok urls d" by (blast dest: schema_set_okD)
    with e show "acceptable urls ks e" by (simp add: acceptable_def key_def_ok_def)
  qed
qed (use s in \<open>simp add: defaults_for_def definitions_for_def\<close>)

definition demo_key :: jsval where
  "demo_key = JObj [(''type'', JStr ''int''), (''min'', JNum (NInt 1)), (''default'', JNum (NInt 5))]"

definition demo_schema :: jsval where
  "demo_schema = JObj [(''version'', JNum (NInt 1)), (''services'', JObj [(''iam'', JObj [(''keys'', JObj [(''TTL'', demo_key)]), (''retiring'', JBool True)])])]"

definition demo_schema_set :: schema_set where
  "demo_schema_set = \<lparr>ss_services = [(''iam'', [(''TTL'', \<lparr>kd_type = KInt, kd_default = JNum (NInt 5), kd_values = None,
      kd_min = Some (NInt 1), kd_max = None, kd_secret = False, kd_description = None\<rparr>)])],
    ss_versions = [(''iam'', 1)], ss_retiring = [''iam'']\<rparr>"

lemma demo_schema_read: "from_document json_yaml json (\<lambda>_. None) (json demo_schema) = Inr demo_schema_set"
  by code_simp



text \<open>A newly created environment file is written with the declared defaults of its service, and
  that document passes the validation every later save of it goes through.\<close>

theorem schema_defaults_pass:
  assumes "from_document yaml dump urls source = Inr S" and "has_schema S service"
  shows "validate urls S service (defaults_for S service) = Inr ()"
proof -
  obtain files result where r: "from_files yaml urls files = Inr result" "ss_services S = ss_services result"
    using assms(1) by (rule from_document_Inr)
  then have "schema_set_ok urls S" using from_files_ok(1) [OF r(1)] schema_set_ok_services [OF r(2)] by simp
  moreover obtain ks where "map_of (ss_services S) service = Some ks"
    using assms(2) by (auto simp: has_schema_def has_key_def)
  ultimately show ?thesis by (simp add: validate_known defaults_conform)
qed

theorem schema_defaults_pass_witness:
  "validate (\<lambda>_. None) demo_schema_set ''iam'' (defaults_for demo_schema_set ''iam'') = Inr ()
   \<and> defaults_for demo_schema_set ''iam'' = [(''TTL'', JNum (NInt 5))]"
  using schema_defaults_pass [OF demo_schema_read, of "''iam''"] by (auto simp: has_schema_def has_key_def demo_schema_set_def defaults_for_def definitions_for_def)

text \<open>C9: validation reports every entry that is wrong, in the order of the document, and nothing
  else: an entry is right when it is metadata, or when its key is declared and its value is of the
  declared type and inside its bounds (ciphertext is right exactly under a secret key). A service
  without a schema is refused as a whole, whatever the document holds.\<close>

theorem validate_reports:
  "case validate urls S service config of
     Inr _ \<Rightarrow> has_schema S service \<and> list_all (acceptable urls (definitions_for S service)) config
   | Inl errors \<Rightarrow>
       if has_schema S service
       then errors \<noteq> [] \<and> map fst errors = map fst (filter (\<lambda>e. \<not> acceptable urls (definitions_for S service) e) config)
       else errors = [(''*'', ''no schema is defined for service '' @ quoted service)]"
proof (cases "map_of (ss_services S) service")
  case None
  then show ?thesis by (simp add: validate_def has_schema_def has_key_def)
next
  case (Some ks)
  then have d: "definitions_for S service = ks" "has_schema S service" by (simp_all add: definitions_for_def has_schema_def has_key_def)
  show ?thesis
  proof (cases "List.map_filter (entry_problem urls service ks) config = []")
    case True
    then show ?thesis using Some d problems_Nil [of urls service ks config] by (simp add: validate_def)
  next
    case False
    then show ?thesis using Some d problem_keys [of urls service ks config] by (simp add: validate_def Let_def)
  qed
qed

subsection \<open>The document and the definitions read from it\<close>

lemma from_files_lookup:
  assumes "fold_err (add_file yaml urls) files T = Inr S" "map_of (ss_services S) service = Some ks"
  shows "map_of (ss_services T) service = Some ks \<or> (\<exists>source. (service, source) \<in> set files \<and> parse_schema yaml urls service source = Inr ks)"
  using assms
proof (induction files arbitrary: T)
  case (Cons f files)
  obtain s source where f: "f = (s, source)" by (cases f)
  from Cons.prems(1) f obtain T' where T': "add_file yaml urls (s, source) T = Inr T'" "fold_err (add_file yaml urls) files T' = Inr S"
    by (cases "add_file yaml urls (s, source) T") simp_all
  from T'(1) obtain ks' where p: "parse_schema yaml urls s source = Inr ks'" "ss_services T' = AList.update s ks' (ss_services T)"
    unfolding add_file_def prod.case bind_err_Inr_iff by auto
  from Cons.IH [OF T'(2) Cons.prems(2)] p f show ?case by (auto split: if_splits)
qed simp

lemma json_ok_member: "json_ok (JObj kvs) \<Longrightarrow> map_of kvs k = Some v \<Longrightarrow> json_ok v"
  by (force dest: map_of_SomeD simp: list_all_iff)

lemma json_ok_distinct: "json_ok (JObj kvs) \<Longrightarrow> distinct (map fst kvs)"
  by simp

lemma parse_service_source:
  assumes law: "yaml_law yaml dump" and ok: "json_ok v" "is_record v"
    and p: "parse_schema yaml urls service (service_source dump v) = Inr ks"
  shows "collect (parse_key urls service) (obj_of (prop_of v ''keys'')) = Inr ks"
proof -
  obtain kvs where v: "v = JObj kvs" using ok(2) by (cases v) (auto simp: is_record_def)
  show ?thesis
  proof (cases "map_of kvs ''keys''")
    case None
    then have k: "prop_of v ''keys'' = JUndef" by (simp add: v prop_of_def get_prop_def obj_of_def)
    have "yaml (service_source dump v) = Inr (JObj [(''version'', JNum (NInt 1))])"
      unfolding service_source_def k by (subst yaml_law_undef [OF law]) (simp add: yaml_lawD [OF law])
    with p k show ?thesis by (simp add: parse_schema_def Let_def is_record_def prop_of_def get_prop_def obj_of_def collect_def)
  next
    case (Some w)
    then have k: "prop_of v ''keys'' = w" by (simp add: v prop_of_def get_prop_def obj_of_def)
    have w: "json_ok w" using json_ok_member [OF _ Some] ok v by simp
    have y: "yaml (service_source dump v) = Inr (JObj [(''version'', JNum (NInt 1)), (''keys'', w)])"
      unfolding service_source_def k by (rule yaml_lawD [OF law]) (simp add: w)
    have "w \<noteq> JUndef" using w by auto
    with p y k show ?thesis
      by (simp add: parse_schema_def Let_def prop_of_def get_prop_def obj_of_def is_record_def when_err_def split: if_splits)
  qed
qed

text \<open>C8: what a service's keys mean is what the global document says under that service, although the
  reader prints every service back to YAML and parses it again: with a YAML library whose parser
  reads back what its printer wrote, the definitions are those of the document's own entries, and
  a service is retiring exactly when the document says \<open>retiring: true\<close>.\<close>

theorem schema_document_reads:
  assumes "yaml_law yaml dump" and "yaml source = Inr parsed" and "json_ok parsed"
    and "from_document yaml dump urls source = Inr S"
    and "prop_of parsed ''services'' = JObj services" and "map_of services service = Some v"
  shows "collect (parse_key urls service) (obj_of (prop_of v ''keys'')) = Inr (definitions_for S service)
    \<and> is_retiring S service = (prop_of v ''retiring'' = JBool True)"
proof -
  obtain parsed' files result where d: "yaml source = Inr parsed'" "document_shape parsed'"
    "collect (\<lambda>service v. if is_record v then Inr (service_source dump v)
       else Inl (SchemaError (''schema.yaml service '' @ quoted service @ '' must be a mapping''))) (entries (prop_of parsed' ''services'')) = Inr files"
    "from_files yaml urls files = Inr result" "ss_services S = ss_services result"
    "ss_retiring S = map fst (filter (\<lambda>(_, v). prop_of v ''retiring'' = JBool True) (entries (prop_of parsed' ''services'')))"
    using assms(4) by (rule from_document_Inr)
  have p: "parsed' = parsed" "entries (prop_of parsed ''services'') = services"
    using d(1) assms(2, 5) by (simp_all add: entries_def)
  obtain pkvs where "parsed = JObj pkvs" "map_of pkvs ''services'' = Some (JObj services)"
    using d(2) assms(5) p(1)
    by (cases parsed) (auto simp: document_shape_def is_record_def prop_of_def get_prop_def obj_of_def split: option.splits)
  then have sok: "json_ok (JObj services)" using json_ok_member assms(3) by blast
  note dist = json_ok_distinct [OF sok]
  have vok: "json_ok v" using json_ok_member [OF sok assms(6)] .
  note c = collect_Inr [OF d(3) [unfolded p]]
  have "service \<in> fst ` set (ss_services S)"
    using from_files_ok(4) [OF d(4)] c(2) d(5) assms(6) by (force dest: map_of_SomeD)
  then obtain ks where ks: "map_of (ss_services S) service = Some ks" by (metis map_of_eq_None_iff not_None_eq)
  then obtain src where src: "(service, src) \<in> set files" "parse_schema yaml urls service src = Inr ks"
    using from_files_lookup [of yaml urls files _ result] d(4, 5) by (fastforce simp: from_files_def)
  then have "map_of files service = Some src" using c(1) by simp
  from c(3) [OF this] obtain v' where v': "(service, v') \<in> set services" "is_record v'" "src = service_source dump v'"
    by (auto split: if_splits)
  then have "v' = v" using assms(6) dist by (metis map_of_eq_Some_iff option.inject)
  then have "collect (parse_key urls service) (obj_of (prop_of v ''keys'')) = Inr ks"
    using parse_service_source [OF assms(1) vok] v' src by simp
  moreover have "is_retiring S service = (prop_of v ''retiring'' = JBool True)"
  proof -
    have "is_retiring S service \<longleftrightarrow> (\<exists>w. (service, w) \<in> set services \<and> prop_of w ''retiring'' = JBool True)"
      using d(6) p by (force simp: is_retiring_def)
    moreover have "(service, w) \<in> set services \<longleftrightarrow> w = v" for w
      using assms(6) dist by (metis map_of_eq_Some_iff option.inject)
    ultimately show ?thesis by simp
  qed
  ultimately show ?thesis using ks by (simp add: definitions_for_def)
qed

lemma demo_schema_ok: "json_ok demo_schema"
  by (simp add: demo_schema_def demo_key_def)

theorem schema_document_reads_witness: "is_retiring demo_schema_set ''iam''"
  using schema_document_reads [OF json_yaml_law json_yaml_json [OF demo_schema_ok] demo_schema_ok demo_schema_read, of _ "''iam''"]
  by (simp add: demo_schema_def prop_of_def get_prop_def obj_of_def)

text \<open>Two places where the readers promise more than they check. A whole-number key may be declared
  with bounds between which there is no whole number, although \<open>parse_key\<close> means to refuse a
  schema no value can satisfy; and the global document ignores a \<open>retiring\<close> that is not a
  boolean, where the reader of a single file refuses it.\<close>

definition fractional_bounds :: jsval where
  "fractional_bounds = JObj [(''type'', JStr ''int''), (''min'', JNum (NDec 12 0)), (''max'', JNum (NDec 18 0))]"

lemma no_value_between: "\<not> has_type urls (bare_key_def KInt fractional_bounds) v"
proof (cases v)
  case (JNum n)
  show ?thesis
  proof (cases n)
    case (NInt i)
    have "i * 10 < 12 \<or> 18 < i * 10" by presburger
    then show ?thesis using JNum NInt
      by (auto simp: fractional_bounds_def prop_of_def get_prop_def obj_of_def num_of_def within_def)
  qed (use JNum in auto)
qed (auto simp: fractional_bounds_def)

text \<open>A key that no value satisfies is accepted: whole numbers with a minimum of 1.2 and a
  maximum of 1.8.\<close>

theorem unsatisfiable_key_accepted:
  "parse_key urls ''iam'' ''TTL'' fractional_bounds = Inr (bare_key_def KInt fractional_bounds)
   \<and> (\<forall>v. conforms urls (bare_key_def KInt fractional_bounds) v = False)"
proof
  show "parse_key urls ''iam'' ''TTL'' fractional_bounds = Inr (bare_key_def KInt fractional_bounds)"
    unfolding parse_key_Inr
    by (rule exI [of _ KInt]) (simp add: fractional_bounds_def is_record_def prop_of_def get_prop_def obj_of_def
      key_type_of_def key_types_def num_of_def bare_key_def_def)
  show "\<forall>v. conforms urls (bare_key_def KInt fractional_bounds) v = False"
    by (auto simp: conforms_def no_value_between) (simp_all add: fractional_bounds_def prop_of_def get_prop_def obj_of_def)
qed

lemma retiring_not_refused:
  "from_document json_yaml json (\<lambda>_. None) (json (JObj [(''version'', JNum (NInt 1)), (''services'', JObj [(''iam'', JObj [(''retiring'', JStr ''no'')])])]))
     = Inr \<lparr>ss_services = [(''iam'', [])], ss_versions = [(''iam'', 1)], ss_retiring = []\<rparr>
   \<and> (case from_files json_yaml (\<lambda>_. None) [(''iam'', json (JObj [(''version'', JNum (NInt 1)), (''retiring'', JStr ''no'')]))] of
        Inl (SchemaError m) \<Rightarrow> True | _ \<Rightarrow> False)"
  by (rule conjI; code_simp)

end
