(* ===== verification/Builder.thy ===== *)
theory Builder
  imports Schema
begin

section \<open>Building a schema from a form (src/schema/builder.ts, src/routes/product-form.ts)\<close>

text \<open>
  Key drafts as the forms post them, the rules they are checked by, and the schema document written
  from them. A draft's type is the text the form posted; a bound is a number or absent.
\<close>

record draft =
  dr_name :: string
  dr_type :: string
  dr_secret :: bool
  dr_values :: "string list"
  dr_description :: string
  dr_min :: "jsnum option"
  dr_max :: "jsnum option"
  dr_default :: jsval

definition key_name_ok :: "string \<Rightarrow> bool" where
  "key_name_ok s = (s \<noteq> [] \<and> is_upper (hd s) \<and> list_all (\<lambda>c. is_upper c \<or> is_digit c \<or> c = CHR ''_'') s)"

definition is_of_type :: "string \<Rightarrow> jsval \<Rightarrow> bool" where
  "is_of_type ty v = (v = JNull \<or>
     (if ty = ''int'' then is_integer v
      else if ty = ''bool'' then v = JBool True \<or> v = JBool False
      else if ty = ''string[]'' then list_of_strings v
      else is_string v))"

definition draft_name :: "draft \<Rightarrow> string" where
  "draft_name d = trim (dr_name d)"

definition draft_values :: "draft \<Rightarrow> string list" where
  "draft_values d = filter (\<lambda>v. trim v \<noteq> []) (dr_values d)"

definition report :: "bool \<Rightarrow> string \<Rightarrow> string \<Rightarrow> problem list" where
  "report c name message = (if c then [(name, message)] else [])"

lemma report_Nil [simp]: "report c n m = [] \<longleftrightarrow> \<not> c"
  by (simp add: report_def)

definition has_default :: "draft \<Rightarrow> bool" where
  "has_default d = (dr_default d \<noteq> JNull \<and> dr_default d \<noteq> JUndef)"

definition check_name :: "string \<Rightarrow> string list \<Rightarrow> problem list" where
  "check_name name seen =
     report (\<not> key_name_ok name) name (quoted name @ '' is not a valid key name: use upper snake case, like SESSION_TTL'')
     @ report (is_metadata_key name) name (quoted name @ '' is reserved by the file format and cannot be a key'')
     @ report (name \<in> set seen) name (quoted name @ '' is declared twice'')"

definition check_shape :: "draft \<Rightarrow> problem list" where
  "check_shape d = (let name = draft_name d; values = draft_values d in
     report (dr_secret d \<and> dr_type d \<noteq> ''string'') name ''only a string can be secret''
     @ report (dr_secret d \<and> has_default d \<and> dr_default d \<noteq> JStr '''') name ''a secret is created without a value; set it on the product page''
     @ report (dr_secret d \<and> values \<noteq> []) name ''a secret cannot declare values''
     @ report (values \<noteq> [] \<and> dr_type d \<notin> set [''string'', ''enum'']) name (''values can only be declared for a string, not for '' @ dr_type d))"

definition bound_problem :: "string \<Rightarrow> string \<Rightarrow> jsnum option \<Rightarrow> problem list" where
  "bound_problem name label bound = report (\<not> opt_all num_is_integer bound) name (label @ '' must be a whole number'')"

definition check_bounds :: "draft \<Rightarrow> problem list" where
  "check_bounds d = (let name = draft_name d in
     report ((dr_min d \<noteq> None \<or> dr_max d \<noteq> None) \<and> dr_type d \<noteq> ''int'') name (''min and max can only be declared for an int, not for '' @ dr_type d)
     @ bound_problem name ''min'' (dr_min d) @ bound_problem name ''max'' (dr_max d)
     @ (case (dr_min d, dr_max d) of
          (Some a, Some b) \<Rightarrow> report (num_is_finite a \<and> num_is_finite b \<and> num_less b a) name
            (''min '' @ num_str a @ '' is above max '' @ num_str b @ '': no value could satisfy it'')
        | _ \<Rightarrow> []))"

definition check_default :: "draft \<Rightarrow> problem list" where
  "check_default d = (let name = draft_name d; values = draft_values d; v = dr_default d in
     if \<not> has_default d then []
     else if values \<noteq> [] then report (to_str v \<notin> set values) name (''default '' @ quoted (to_str v) @ '' is not one of '' @ join '', '' values)
     else if \<not> is_of_type (dr_type d) v then [(name, ''default '' @ quoted (to_str v) @ '' is not a valid '' @ dr_type d)]
     else case v of
       JNum n \<Rightarrow> (case dr_min d of Some m \<Rightarrow> report (num_less n m) name (''default '' @ num_str n @ '' is below min '' @ num_str m) | None \<Rightarrow> [])
         @ (case dr_max d of Some m \<Rightarrow> report (num_less m n) name (''default '' @ num_str n @ '' is above max '' @ num_str m) | None \<Rightarrow> [])
     | _ \<Rightarrow> [])"

definition check_key :: "draft \<Rightarrow> string list \<Rightarrow> problem list" where
  "check_key d seen = check_name (draft_name d) seen
     @ (if map_of key_types (dr_type d) = None
        then [(draft_name d, quoted (dr_type d) @ '' is not a type this console knows'')]
        else check_shape d @ check_bounds d @ check_default d)"

text \<open>The set of names seen so far grows by every draft, whatever its problems.\<close>

fun check_keys :: "draft list \<Rightarrow> string list \<Rightarrow> problem list" where
  "check_keys [] seen = []"
| "check_keys (d # ds) seen = check_key d seen @ check_keys ds (draft_name d # seen)"

definition optional :: "bool \<Rightarrow> string \<Rightarrow> jsval \<Rightarrow> obj" where
  "optional c k v = (if c then [(k, v)] else [])"

definition num_or_undef :: "jsnum option \<Rightarrow> jsval" where
  "num_or_undef b = (case b of Some n \<Rightarrow> JNum n | None \<Rightarrow> JUndef)"

definition built_key :: "draft \<Rightarrow> obj" where
  "built_key d = (let values = draft_values d in
     (''type'', JStr (if values \<noteq> [] then ''enum'' else dr_type d))
     # optional (values \<noteq> []) ''values'' (JArr (map JStr values))
     @ optional (dr_min d \<noteq> None) ''min'' (num_or_undef (dr_min d))
     @ optional (dr_max d \<noteq> None) ''max'' (num_or_undef (dr_max d))
     @ optional (dr_secret d) ''secret'' (JBool True)
     @ optional (trim (dr_description d) \<noteq> []) ''description'' (JStr (trim (dr_description d)))
     @ optional (\<not> dr_secret d \<and> has_default d) ''default'' (dr_default d))"

definition built_keys :: "draft list \<Rightarrow> obj" where
  "built_keys ds = foldl (\<lambda>ks d. AList.update (draft_name d) (JObj (built_key d)) ks) [] ds"

definition build_schema :: "dump \<Rightarrow> draft list \<Rightarrow> problem list + string" where
  "build_schema dump ds = (let problems = check_keys ds [] in
     if problems \<noteq> [] then Inl problems
     else Inr (dump (JObj [(''version'', JNum (NInt 1)), (''keys'', JObj (built_keys ds))])))"

subsection \<open>The builder and the validator\<close>

lemma built_key_props:
  "get_prop (built_key d) ''type'' = JStr (if draft_values d \<noteq> [] then ''enum'' else dr_type d)"
  "get_prop (built_key d) ''values'' = (if draft_values d \<noteq> [] then JArr (map JStr (draft_values d)) else JUndef)"
  "get_prop (built_key d) ''min'' = num_or_undef (dr_min d)"
  "get_prop (built_key d) ''max'' = num_or_undef (dr_max d)"
  "get_prop (built_key d) ''secret'' = (if dr_secret d then JBool True else JUndef)"
  "get_prop (built_key d) ''description'' = (if trim (dr_description d) \<noteq> [] then JStr (trim (dr_description d)) else JUndef)"
  "get_prop (built_key d) ''default'' = (if \<not> dr_secret d \<and> has_default d then dr_default d else JUndef)"
  by (simp_all add: built_key_def get_prop_def optional_def Let_def num_or_undef_def)

lemma check_keys_distinct:
  "check_keys ds seen = [] \<Longrightarrow> distinct (map draft_name ds) \<and> set (map draft_name ds) \<inter> set seen = {}"
proof (induction ds arbitrary: seen)
  case (Cons d ds)
  then have "draft_name d \<notin> set seen" by (simp add: check_key_def check_name_def)
  moreover have "distinct (map draft_name ds) \<and> set (map draft_name ds) \<inter> set (draft_name d # seen) = {}"
    by (rule Cons.IH) (use Cons.prems in simp)
  ultimately show ?case by auto
qed simp

lemma check_keys_each: "check_keys ds seen = [] \<Longrightarrow> d \<in> set ds \<Longrightarrow> \<exists>seen'. check_key d seen' = []"
  by (induction ds arbitrary: seen) auto

lemma built_keys_map: "distinct (map draft_name ds) \<Longrightarrow> built_keys ds = map (\<lambda>d. (draft_name d, JObj (built_key d))) ds"
proof -
  assume d: "distinct (map draft_name ds)"
  have "foldl (\<lambda>ks d. AList.update (draft_name d) (JObj (built_key d)) ks) acc ds = acc @ map (\<lambda>d. (draft_name d, JObj (built_key d))) ds"
    if "distinct (map fst acc @ map draft_name ds)" for acc
    using that
    by (induction ds arbitrary: acc) (auto simp: update_fresh)
  from this [of "[]"] d show ?thesis by (simp add: built_keys_def)
qed

definition sound_draft :: "urls \<Rightarrow> draft \<Rightarrow> bool" where
  "sound_draft urls d = ((draft_values d = [] \<longrightarrow> dr_type d \<noteq> ''enum'')
     \<and> (case dr_default d of
          JStr s \<Rightarrow> \<not> sops_encrypted s \<and> (dr_type d = ''url'' \<and> draft_values d = [] \<longrightarrow> urls s \<in> {Some ''http:'', Some ''https:''})
        | v \<Rightarrow> draft_values d = [] \<or> v = JNull \<or> v = JUndef))"

definition drafted :: "draft \<Rightarrow> key_def" where
  "drafted d = \<lparr>kd_type = (if draft_values d \<noteq> [] then KEnum else the (map_of key_types (dr_type d))),
     kd_default = (if \<not> dr_secret d \<and> has_default d then dr_default d else JUndef),
     kd_values = (if draft_values d \<noteq> [] then Some (draft_values d) else None), kd_min = dr_min d, kd_max = dr_max d,
     kd_secret = dr_secret d,
     kd_description = (if trim (dr_description d) \<noteq> [] then Some (trim (dr_description d)) else None)\<rparr>"

lemma map_to_str_JStr [simp]: "map (\<lambda>x. to_str (JStr x)) vs = vs"
  by simp

lemma key_types_cases:
  assumes "map_of key_types s = Some t"
  shows "s = type_name t"
  using assms by (auto simp: key_types_def split: if_splits)

lemma type_name_simps [simp]: "type_name t = ''enum'' \<longleftrightarrow> t = KEnum" "type_name t = ''url'' \<longleftrightarrow> t = KUrl" "type_name t = ''int'' \<longleftrightarrow> t = KInt"
    "type_name t = ''bool'' \<longleftrightarrow> t = KBool" "type_name t = ''string[]'' \<longleftrightarrow> t = KStrings" "type_name t = ''string'' \<longleftrightarrow> t = KString"
  by (cases t; simp)+

lemma map_of_type_name [simp]: "map_of key_types (type_name t) = Some t"
  by (cases t) (simp_all add: key_types_def)

lemma check_key_Nil:
  assumes "check_key d seen = []"
  obtains t where "dr_type d = type_name t" "check_shape d = []" "check_bounds d = []" "check_default d = []" "key_name_ok (draft_name d)"
proof -
  from assms obtain t where t: "map_of key_types (dr_type d) = Some t"
    by (cases "map_of key_types (dr_type d)") (auto simp: check_key_def)
  with assms show ?thesis
    using that [OF key_types_cases [OF t]] by (simp add: check_key_def check_name_def)
qed

lemma is_string_json_ok: "is_string v \<Longrightarrow> json_ok v"
  by (cases v) (simp_all add: is_string_def)

lemma integer_finite: "num_is_integer n \<Longrightarrow> num_is_finite n"
  by (cases n) simp_all

lemma drafted_default_conforms:
  assumes c: "check_shape d = []" "check_bounds d = []" "check_default d = []" and t: "dr_type d = type_name t"
    and s: "sound_draft urls d" and v: "\<not> dr_secret d" "has_default d"
  shows "conforms urls (drafted d) (dr_default d) \<and> json_ok (dr_default d)"
proof (cases "draft_values d = []")
  case True
  have ty: "kd_type (drafted d) = t" using True t by (simp add: drafted_def)
  have of_type: "is_of_type (type_name t) (dr_default d)"
    using c(3) v True t by (auto simp: check_default_def Let_def split: if_splits)
  show ?thesis
  proof (cases "dr_default d")
    case (JNum n)
    then have n: "t = KInt" "num_is_integer n" using of_type by (auto simp: is_of_type_def is_string_def list_of_strings_def is_integer_def split: if_splits)
    then have "within (dr_min d) n (dr_max d)"
      using c(3) v True t JNum of_type by (simp add: check_default_def within_def Let_def split: option.splits)
    then show ?thesis using n JNum ty by (simp add: conforms_def drafted_def)
  next
    case (JStr s)
    then show ?thesis using of_type s ty t True
      by (cases t) (auto simp: sound_draft_def conforms_def is_of_type_def is_integer_def list_of_strings_def)
  next
    case (JArr vs)
    then have "t = KStrings" "list_all is_string vs" using of_type by (auto simp: is_of_type_def is_string_def list_of_strings_def is_integer_def split: if_splits)
    moreover have "list_all json_ok vs" using calculation(2) by (simp add: list_all_iff is_string_json_ok)
    ultimately show ?thesis using JArr ty by (simp add: conforms_def)
  next
    case (JBool b)
    then show ?thesis using of_type ty by (auto simp: conforms_def is_of_type_def is_string_def list_of_strings_def is_integer_def split: if_splits)
  qed (use v of_type in \<open>auto simp: has_default_def is_of_type_def is_string_def list_of_strings_def is_integer_def split: if_splits\<close>)
next
  case False
  then obtain s where d: "dr_default d = JStr s" using s v by (cases "dr_default d") (auto simp: sound_draft_def has_default_def)
  have "s \<in> set (draft_values d)" using c(3) False v d by (simp add: check_default_def Let_def)
  then show ?thesis using d s False by (auto simp: conforms_def drafted_def sound_draft_def)
qed

lemma drafted_bare:
  assumes "dr_type d = type_name t"
  shows "drafted d = bare_key_def (if draft_values d \<noteq> [] then KEnum else t) (JObj (built_key d))
    \<lparr>kd_default := prop_of (JObj (built_key d)) ''default''\<rparr>"
  using assms by (auto simp: drafted_def bare_key_def_def prop_of_def obj_of_def built_key_props num_of_def num_or_undef_def comp_def split: option.split)

lemma parse_built_key:
  assumes "check_key d seen = []" and s: "sound_draft urls d"
  shows "parse_key urls service key (JObj (built_key d)) = Inr (drafted d)"
proof -
  obtain t where t: "dr_type d = type_name t" and c: "check_shape d = []" "check_bounds d = []" "check_default d = []"
    using assms(1) by (rule check_key_Nil)
  let ?ty = "if draft_values d \<noteq> [] then KEnum else t"
  have ranges: "case (dr_min d, dr_max d) of (Some a, Some b) \<Rightarrow> \<not> num_less b a | _ \<Rightarrow> True"
  proof (cases "dr_min d"; cases "dr_max d")
    fix a b assume ab: "dr_min d = Some a" "dr_max d = Some b"
    then have "num_is_integer a" "num_is_integer b" using c(2) by (simp_all add: check_bounds_def bound_problem_def Let_def)
    then have "num_is_finite a" "num_is_finite b" by (simp_all add: integer_finite)
    then show ?thesis using c(2) ab by (simp add: check_bounds_def Let_def)
  qed simp_all
  have default: "\<not> dr_secret d \<and> has_default d \<longrightarrow> conforms urls (bare_key_def ?ty (JObj (built_key d))) (dr_default d)"
    using drafted_default_conforms [OF c t s] unfolding drafted_bare [OF t] by simp
  have num: "num_of (num_or_undef b) = b" for b by (cases b) (simp_all add: num_of_def num_or_undef_def)
  have "?ty = KEnum \<longrightarrow> draft_values d \<noteq> []" using s t by (auto simp: sound_draft_def)
  then have enum: "?ty = KEnum \<longrightarrow> (\<exists>v vs. prop_of (JObj (built_key d)) ''values'' = JArr (v # vs))"
    by (cases "draft_values d") (auto simp: prop_of_def obj_of_def built_key_props)
  show ?thesis
    unfolding parse_key_Inr
  proof (intro exI conjI)
    show "is_record (JObj (built_key d))" by (simp add: is_record_def)
    show "key_type_of (prop_of (JObj (built_key d)) ''type'') = Some ?ty"
      using t key_type_of_name [of KEnum] by (simp add: prop_of_def obj_of_def built_key_props)
    show "?ty = KEnum \<longrightarrow> (\<exists>v vs. prop_of (JObj (built_key d)) ''values'' = JArr (v # vs))" by (rule enum)
    show "case (num_of (prop_of (JObj (built_key d)) ''min''), num_of (prop_of (JObj (built_key d)) ''max'')) of (Some a, Some b) \<Rightarrow> \<not> num_less b a | _ \<Rightarrow> True"
      using ranges by (simp add: prop_of_def obj_of_def built_key_props num)
    show "prop_of (JObj (built_key d)) ''default'' = JUndef \<or> conforms urls (bare_key_def ?ty (JObj (built_key d))) (prop_of (JObj (built_key d)) ''default'')"
      using default by (simp add: prop_of_def obj_of_def built_key_props)
    show "drafted d = bare_key_def ?ty (JObj (built_key d))\<lparr>kd_default := prop_of (JObj (built_key d)) ''default''\<rparr>"
      by (rule drafted_bare [OF t])
  qed
qed

lemma collect_map:
  assumes "distinct (map fst kvs)" and "\<And>k v. (k, v) \<in> set kvs \<Longrightarrow> f k v = Inr (g k v)"
  shows "collect f kvs = Inr (map (\<lambda>(k, v). (k, g k v)) kvs)"
proof -
  have "fold_err (collect_step f) xs acc = Inr (acc @ map (\<lambda>(k, v). (k, g k v)) xs)"
    if "distinct (map fst acc @ map fst xs)" "set xs \<subseteq> set kvs" for xs acc
    using that
  proof (induction xs arbitrary: acc)
    case (Cons e xs)
    obtain k v where e: "e = (k, v)" by (cases e)
    then have "f k v = Inr (g k v)" using assms(2) Cons.prems(2) by simp
    moreover have "k \<notin> fst ` set acc" using Cons.prems(1) e by auto
    ultimately show ?case
      using Cons.IH [of "acc @ [(k, g k v)]"] Cons.prems e by (simp add: collect_step_def update_fresh)
  qed simp
  from this [of "[]" kvs] assms(1) show ?thesis by (simp add: collect_def)
qed

lemma built_key_json_ok:
  assumes "check_key d seen = []" and s: "sound_draft urls d"
  shows "json_ok (JObj (built_key d))"
proof -
  obtain t where t: "dr_type d = type_name t" and c: "check_shape d = []" "check_bounds d = []" "check_default d = []"
    using assms(1) by (rule check_key_Nil)
  have "opt_all num_is_integer (dr_min d)" "opt_all num_is_integer (dr_max d)"
    using c(2) by (simp_all add: check_bounds_def bound_problem_def Let_def)
  then have "json_ok (num_or_undef (dr_min d))" if "dr_min d \<noteq> None" using that by (auto simp: num_or_undef_def)
  moreover have "json_ok (num_or_undef (dr_max d))" if "dr_max d \<noteq> None"
    using that \<open>opt_all num_is_integer (dr_max d)\<close> by (auto simp: num_or_undef_def)
  moreover have "json_ok (dr_default d)" if "\<not> dr_secret d" "has_default d"
    using drafted_default_conforms [OF c t s that] by simp
  ultimately show ?thesis by (simp add: built_key_def optional_def Let_def list_all_iff)
qed

lemma map_of_map_inj: "distinct (map f ds) \<Longrightarrow> d \<in> set ds \<Longrightarrow> map_of (map (\<lambda>d. (f d, h d)) ds) (f d) = Some (h d)"
proof (induction ds)
  case (Cons e ds)
  then show ?case by (cases "d = e") (auto simp: image_iff)
qed simp


definition demo_draft :: draft where
  "demo_draft = \<lparr>dr_name = '' TTL '', dr_type = ''int'', dr_secret = False, dr_values = [], dr_description = '''',
     dr_min = Some (NInt 1), dr_max = None, dr_default = JNum (NInt 5)\<rparr>"

lemma demo_build: "build_schema json [demo_draft] = Inr (json (JObj [(''version'', JNum (NInt 1)), (''keys'', JObj [(''TTL'', demo_key)])]))"
  by code_simp

lemma demo_drafted: "draft_name demo_draft = ''TTL'' \<and> kd_default (drafted demo_draft) = JNum (NInt 5) \<and> sound_draft urls demo_draft"
  by (simp add: demo_draft_def drafted_def draft_name_def draft_values_def has_default_def trim_def is_ws_def sound_draft_def)


text \<open>Without those conditions the two disagree: each of these drafts is built without a problem, and
  the schema that results is refused when it is read.\<close>

definition plain_draft :: "string \<Rightarrow> jsval \<Rightarrow> draft" where
  "plain_draft ty v = \<lparr>dr_name = ''K'', dr_type = ty, dr_secret = False, dr_values = [], dr_description = '''',
     dr_min = None, dr_max = None, dr_default = v\<rparr>"

definition refused :: "draft \<Rightarrow> bool" where
  "refused d = (case build_schema json [d] of Inl _ \<Rightarrow> False
     | Inr source \<Rightarrow> (case parse_schema json_yaml (\<lambda>_. None) ''iam'' source of Inl _ \<Rightarrow> True | Inr _ \<Rightarrow> False))"

lemma builder_disagrees:
  "refused (plain_draft ''enum'' JNull)" "refused (plain_draft ''url'' (JStr ''ftp''))"
  "refused (plain_draft ''string'' (JStr ''ENC[AES256_GCM,x''))"
  by code_simp+

subsection \<open>Rows of a form\<close>

type_synonym row = "(string \<times> string) list"

definition word_char :: "char \<Rightarrow> bool" where
  "word_char c = (is_upper c \<or> is_lower c \<or> is_digit c \<or> c = CHR ''_'')"

text \<open>\<open>/^key\.(\d+)\.(\w+)$/\<close>\<close>

definition key_field :: "string \<Rightarrow> (nat \<times> string) option" where
  "key_field f = (let r = drop 4 f; ds = takeWhile is_digit r; t = dropWhile is_digit r in
     if starts_with ''key.'' f \<and> ds \<noteq> [] \<and> t \<noteq> [] \<and> hd t = CHR ''.'' \<and> tl t \<noteq> [] \<and> list_all word_char (tl t)
     then Some (digits_val ds, tl t) else None)"

definition posted :: "jsval \<Rightarrow> string" where
  "posted v = (case v of JArr (x # _) \<Rightarrow> to_str x | JArr [] \<Rightarrow> ''undefined'' | _ \<Rightarrow> to_str v)"

definition add_field :: "string \<times> jsval \<Rightarrow> (nat \<times> row) list \<Rightarrow> (nat \<times> row) list" where
  "add_field = (\<lambda>(field, v) rows. case key_field field of None \<Rightarrow> rows
     | Some (i, name) \<Rightarrow> AList.update i (AList.update name (posted v) (case map_of rows i of Some r \<Rightarrow> r | None \<Rightarrow> [])) rows)"

definition all_key_bodies :: "obj \<Rightarrow> row list" where
  "all_key_bodies body = map snd (sort_by (\<lambda>a b. fst a \<le> fst b) (foldl (\<lambda>rows e. add_field e rows) [] body))"

definition cell :: "row \<Rightarrow> string \<Rightarrow> string" where
  "cell r k = (case map_of r k of Some v \<Rightarrow> v | None \<Rightarrow> '''')"

definition key_bodies :: "obj \<Rightarrow> row list" where
  "key_bodies body = filter (\<lambda>r. trim (cell r ''name'') \<noteq> []) (all_key_bodies body)"

definition parse_default :: "string \<Rightarrow> string \<Rightarrow> jsval" where
  "parse_default ty raw =
     (if ty = ''int'' then (if num_is_finite (js_number raw) then JNum (js_number raw) else JStr raw)
      else if ty = ''bool'' then (if raw = ''true'' then JBool True else if raw = ''false'' then JBool False else JStr raw)
      else if ty = ''string[]'' then JArr (map (\<lambda>s. JStr (trim s)) (split_on (CHR '','') raw))
      else JStr raw)"

definition row_type :: "row \<Rightarrow> string" where
  "row_type r = (case map_of r ''type'' of Some t \<Rightarrow> t | None \<Rightarrow> ''string'')"

definition bound_cell :: "row \<Rightarrow> string \<Rightarrow> jsnum option" where
  "bound_cell r k = (if cell r k \<noteq> [] then Some (js_number (cell r k)) else None)"

definition row_draft :: "row \<Rightarrow> draft" where
  "row_draft r =
     (if row_type r = ''bool'' then
        \<lparr>dr_name = trim (cell r ''name''), dr_type = row_type r, dr_secret = False, dr_values = [],
         dr_description = cell r ''description'', dr_min = None, dr_max = None,
         dr_default = (if cell r ''defaultBool'' = ''true'' then JBool True else JNull)\<rparr>
      else
        (let raw = trim (cell r ''default'') in
         \<lparr>dr_name = trim (cell r ''name''), dr_type = row_type r, dr_secret = (cell r ''secret'' = ''1''),
          dr_values = filter (\<lambda>v. v \<noteq> []) (map trim (split_on (CHR '','') (cell r ''values''))),
          dr_description = cell r ''description'', dr_min = bound_cell r ''min'', dr_max = bound_cell r ''max'',
          dr_default = (if raw = [] then JNull else parse_default (row_type r) raw)\<rparr>))"

definition key_drafts :: "obj \<Rightarrow> draft list" where
  "key_drafts body = map row_draft (key_bodies body)"

definition defaults_of :: "draft list \<Rightarrow> obj" where
  "defaults_of ds = foldl (\<lambda>acc d. if dr_secret d \<or> \<not> has_default d then acc else AList.update (draft_name d) (dr_default d) acc) [] ds"

text \<open>The view models of the rows; an empty list shows one blank row.\<close>

definition key_draft_types :: "string list" where
  "key_draft_types = [''string'', ''int'', ''bool'', ''url'', ''string[]'']"

record row_model =
  rm_index :: nat
  rm_cells :: row
  rm_secret :: bool
  rm_problems :: "problem list"

definition key_draft_models :: "row list \<Rightarrow> problem list \<Rightarrow> row_model list" where
  "key_draft_models rows problems = map (\<lambda>(i, r).
     \<lparr>rm_index = i,
      rm_cells = map (\<lambda>k. (k, cell r k)) [''name'', ''type'', ''values'', ''min'', ''max'', ''default'', ''defaultBool'', ''description''],
      rm_secret = (cell r ''secret'' \<noteq> []),
      rm_problems = filter (\<lambda>p. fst p = cell r ''name'') problems\<rparr>) (enumerate 0 (if rows = [] then [[]] else rows))"

subsection \<open>What a form posts is read back\<close>

definition field_name :: "nat \<Rightarrow> string \<Rightarrow> string" where
  "field_name i k = ''key.'' @ nat_str i @ ''.'' @ k"

definition posted_row :: "nat \<times> row \<Rightarrow> obj" where
  "posted_row = (\<lambda>(i, r). map (\<lambda>(k, v). (field_name i k, JStr v)) r)"

definition row_ok :: "row \<Rightarrow> bool" where
  "row_ok r = (r \<noteq> [] \<and> distinct (map fst r) \<and> list_all (\<lambda>(k, v). k \<noteq> [] \<and> list_all word_char k) r)"

lemma key_field_posted: "k \<noteq> [] \<Longrightarrow> list_all word_char k \<Longrightarrow> key_field (field_name i k) = Some (i, k)"
proof -
  assume k: "k \<noteq> []" "list_all word_char k"
  have d: "\<not> is_digit (CHR ''.'')" by (simp add: is_digit_def less_eq_char_def)
  have n: "\<forall>c \<in> set (nat_str i). is_digit c" by (auto dest: nat_str_digits)
  have "takeWhile is_digit (nat_str i @ ''.'' @ k) = nat_str i" "dropWhile is_digit (nat_str i @ ''.'' @ k) = ''.'' @ k"
    using n d by (simp_all add: takeWhile_append2 dropWhile_append2)
  then show ?thesis using k using d by (simp add: key_field_def field_name_def Let_def starts_with_def digits_val_nat_str)
qed

lemma add_row:
  assumes "distinct (map fst (done1 @ r))" "list_all (\<lambda>(k, v). k \<noteq> [] \<and> list_all word_char k) r" "i \<notin> fst ` set acc"
  shows "foldl (\<lambda>rows e. add_field e rows) (acc @ [(i, done1)]) (posted_row (i, r)) = acc @ [(i, done1 @ r)]"
  using assms
proof (induction r arbitrary: done1)
  case (Cons e r)
  obtain k v where e: "e = (k, v)" by (cases e)
  have upd: "AList.update i x (acc @ [(i, y)]) = acc @ [(i, x)]" for x y
    using Cons.prems(3) by (induction acc) auto
  have look: "map_of (acc @ [(i, done1)]) i = Some done1"
    using Cons.prems(3) by (induction acc) auto
  have "add_field (field_name i k, JStr v) (acc @ [(i, done1)]) = acc @ [(i, done1 @ [(k, v)])]"
    using Cons.prems e look upd by (simp add: add_field_def key_field_posted posted_def update_fresh del: map_of_append)
  then show ?case
    using Cons.IH [of "done1 @ [(k, v)]"] Cons.prems e by (simp add: posted_row_def)
qed (simp add: posted_row_def)

lemma add_first:
  assumes "row_ok r" "i \<notin> fst ` set acc"
  shows "foldl (\<lambda>rows e. add_field e rows) acc (posted_row (i, r)) = acc @ [(i, r)]"
proof -
  obtain k v r' where r: "r = (k, v) # r'" using assms(1) by (cases r) (auto simp: row_ok_def)
  have "map_of acc i = None" using assms(2) by (simp add: map_of_eq_None_iff)
  then have "add_field (field_name i k, JStr v) acc = acc @ [(i, [(k, v)])]"
    using assms r by (simp add: add_field_def key_field_posted posted_def update_fresh row_ok_def)
  then show ?thesis
    using add_row [of "[(k, v)]" r' i acc] assms r by (simp add: posted_row_def row_ok_def)
qed

lemma sort_by_sorted: "sorted_wrt le xs \<Longrightarrow> sort_by le xs = xs"
proof (induction xs)
  case (Cons x xs)
  then have "sort_by le (x # xs) = insert_by le x xs" by (simp add: sort_by_def)
  with Cons.prems show ?case by (cases xs) auto
qed (simp add: sort_by_def)

lemma add_rows:
  assumes "list_all row_ok rs" "\<forall>j \<in> fst ` set acc. j < n"
  shows "foldl (\<lambda>rows e. add_field e rows) acc (concat (map posted_row (enumerate n rs))) = acc @ enumerate n rs"
  using assms
proof (induction rs arbitrary: acc n)
  case (Cons r rs)
  then have "n \<notin> fst ` set acc" by auto
  moreover have "\<forall>j \<in> fst ` set (acc @ [(n, r)]). j < Suc n" using Cons.prems(2) by auto
  ultimately show ?case using Cons.IH [of "acc @ [(n, r)]" "Suc n"] Cons.prems(1) by (simp add: add_first)
qed simp

text \<open>The rows of key fields a form posts, \<open>key.0.name\<close>, \<open>key.0.type\<close>, ..., are read back as the
  same rows in the same order, so that the form can be shown again without losing a line.\<close>

theorem form_rows_roundtrip:
  assumes "list_all row_ok rows"
  shows "all_key_bodies (concat (map posted_row (enumerate 0 rows))) = rows"
proof -
  have "sorted_wrt (\<lambda>a b. fst a \<le> fst b) (enumerate n rows)" for n
    by (induction rows arbitrary: n) (auto simp: in_set_enumerate_eq)
  then show ?thesis using assms by (simp add: all_key_bodies_def add_rows sort_by_sorted)
qed

lemma demo_form: "concat (map posted_row (enumerate 0 [[(''name'', ''A''), (''min'', '''')], [(''name'', ''B'')]]))
    = [(''key.0.name'', JStr ''A''), (''key.0.min'', JStr ''''), (''key.1.name'', JStr ''B'')]"
  by code_simp

theorem form_rows_roundtrip_witness:
  "all_key_bodies [(''key.0.name'', JStr ''A''), (''key.0.min'', JStr ''''), (''key.1.name'', JStr ''B'')]
    = [[(''name'', ''A''), (''min'', '''')], [(''name'', ''B'')]]"
  using form_rows_roundtrip [of "[[(''name'', ''A''), (''min'', '''')], [(''name'', ''B'')]]", unfolded demo_form]
  by (simp add: row_ok_def word_char_def is_upper_def is_lower_def less_eq_char_def)

end
