(* ===== verification/Identity.thy ===== *)
theory Identity
  imports Documents "HOL-Library.Word"
begin

section \<open>Who may read what (src/identity)\<close>

text \<open>
  The grant table of \<open>services.yaml\<close>, the peer credentials the kernel reports for a socket, and the
  guard that decides every read from both. Parameters: \<open>yaml\<close>, and \<open>issues\<close>, the text the schema
  library gives for a document it refuses. What the guard keeps and reports is its state: the audit
  trail, the alerts it raised, and the denials it has alerted about.
\<close>

subsection \<open>The grant table (registry.ts)\<close>

record service =
  sv_name :: string
  sv_uid :: nat
  sv_namespaces :: "string list"

record registry =
  rg_by_uid :: "(nat \<times> service) list"
  rg_version :: nat

datatype registry_exn = RegistryError string | YamlError string

definition nonneg_int :: "jsval \<Rightarrow> nat option" where
  "nonneg_int v = (case v of JNum (NInt n) \<Rightarrow> (if 0 \<le> n \<and> n \<le> max_safe then Some (nat n) else None) | _ \<Rightarrow> None)"

definition namespace_of :: "jsval \<Rightarrow> string option" where
  "namespace_of v = (case v of JStr s \<Rightarrow> (if is_namespace s then Some s else None) | _ \<Rightarrow> None)"

definition parse_service :: "jsval \<Rightarrow> service option" where
  "parse_service v = (case (prop_of v ''name'', nonneg_int (prop_of v ''uid''), prop_of v ''namespaces'') of
     (JStr name, Some uid, JArr ns) \<Rightarrow>
       (case all_some (map namespace_of ns) of
          Some spaces \<Rightarrow> if is_record v \<and> name \<noteq> [] \<and> spaces \<noteq> []
            then Some \<lparr>sv_name = name, sv_uid = uid, sv_namespaces = spaces\<rparr> else None
        | None \<Rightarrow> None)
   | _ \<Rightarrow> None)"

definition registry_versions :: "nat list" where
  "registry_versions = [1]"

definition parse_file :: "jsval \<Rightarrow> (nat \<times> service list) option" where
  "parse_file v = (case (nonneg_int (prop_of v ''version''), prop_of v ''services'') of
     (Some n, JArr vs) \<Rightarrow> if is_record v \<and> n \<in> set registry_versions
       then map_option (Pair n) (all_some (map parse_service vs)) else None
   | _ \<Rightarrow> None)"

definition register :: "service \<Rightarrow> (nat \<times> service) list \<Rightarrow> registry_exn + (nat \<times> service) list" where
  "register s by_uid = (case map_of by_uid (sv_uid s) of
     Some clash \<Rightarrow> Inl (RegistryError (''services.yaml is invalid: uid '' @ nat_str (sv_uid s) @ '' is claimed by both ''
       @ quoted (sv_name clash) @ '' and '' @ quoted (sv_name s)))
   | None \<Rightarrow> Inr (AList.update (sv_uid s) s by_uid))"

definition registry_from_yaml :: "yaml \<Rightarrow> (jsval \<Rightarrow> string) \<Rightarrow> string \<Rightarrow> registry_exn + registry" where
  "registry_from_yaml yaml issues source = (case yaml source of
     Inl e \<Rightarrow> Inl (YamlError e)
   | Inr v \<Rightarrow> (case parse_file v of
       None \<Rightarrow> Inl (RegistryError (''services.yaml is invalid: '' @ issues v))
     | Some (n, ss) \<Rightarrow> bind_err (fold_err register ss []) (\<lambda>by_uid. Inr \<lparr>rg_by_uid = by_uid, rg_version = n\<rparr>)))"

definition registry_services :: "registry \<Rightarrow> service list" where
  "registry_services R = map snd (rg_by_uid R)"

definition identify :: "registry \<Rightarrow> nat \<Rightarrow> service option" where
  "identify R uid = map_of (rg_by_uid R) uid"

definition may_read :: "registry \<Rightarrow> service \<Rightarrow> string \<Rightarrow> bool" where
  "may_read R s namespace = (case map_of (rg_by_uid R) (sv_uid s) of
     Some known \<Rightarrow> sv_name known = sv_name s \<and> namespace \<in> set (sv_namespaces known) | None \<Rightarrow> False)"

lemma register_Inr: "register s m = Inr m' \<longleftrightarrow> map_of m (sv_uid s) = None \<and> m' = m @ [(sv_uid s, s)]"
proof (cases "map_of m (sv_uid s)")
  case None
  then show ?thesis by (auto simp: register_def update_fresh map_of_eq_None_iff [symmetric])
qed (simp add: register_def)

lemma fold_register:
  "fold_err register ss m = Inr m' \<longleftrightarrow> distinct (map sv_uid ss) \<and> (\<forall>s \<in> set ss. map_of m (sv_uid s) = None)
     \<and> m' = m @ map (\<lambda>s. (sv_uid s, s)) ss"
proof (induction ss arbitrary: m)
  case (Cons s ss)
  show ?case
  proof (cases "map_of m (sv_uid s)")
    case None
    then have "register s m = Inr (m @ [(sv_uid s, s)])" by (simp add: register_Inr)
    moreover have "map_of (m @ [(sv_uid s, s)]) k = None \<longleftrightarrow> map_of m k = None \<and> k \<noteq> sv_uid s" for k
      by (auto simp: map_of_eq_None_iff)
    moreover have "sv_uid s \<notin> sv_uid ` set ss \<longleftrightarrow> (\<forall>s' \<in> set ss. sv_uid s' \<noteq> sv_uid s)"
      by (metis (no_types) image_iff)
    ultimately show ?thesis using Cons.IH [of "m @ [(sv_uid s, s)]"] None
      by (simp del: map_of_append image_iff) blast
  next
    case (Some x)
    then show ?thesis by (auto simp: register_def)
  qed
qed auto

lemma namespace_of_Some: "namespace_of v = Some s \<longleftrightarrow> v = JStr s \<and> is_namespace s"
  by (auto simp: namespace_of_def split: jsval.splits if_splits)

lemma parse_service_Some:
  "parse_service v = Some s \<Longrightarrow> prop_of v ''name'' = JStr (sv_name s) \<and> prop_of v ''uid'' = JNum (NInt (int (sv_uid s)))
     \<and> prop_of v ''namespaces'' = JArr (map JStr (sv_namespaces s)) \<and> list_all is_namespace (sv_namespaces s)
     \<and> sv_name s \<noteq> [] \<and> sv_namespaces s \<noteq> []"
proof -
  assume p: "parse_service v = Some s"
  then obtain name uid ns spaces where a: "prop_of v ''name'' = JStr name" "nonneg_int (prop_of v ''uid'') = Some uid"
    "prop_of v ''namespaces'' = JArr ns" "all_some (map namespace_of ns) = Some spaces" "name \<noteq> []" "spaces \<noteq> []"
    "s = \<lparr>sv_name = name, sv_uid = uid, sv_namespaces = spaces\<rparr>"
    by (auto simp: parse_service_def split: jsval.splits option.splits if_splits)
  have "prop_of v ''uid'' = JNum (NInt (int uid))"
    using a(2) by (auto simp: nonneg_int_def split: jsval.splits jsnum.splits if_splits)
  moreover have "map namespace_of ns = map Some spaces" using a(4) by (simp add: all_some_iff)
  then have "ns = map JStr spaces \<and> list_all is_namespace spaces"
    by (induction ns arbitrary: spaces) (auto simp: namespace_of_Some Cons_eq_map_conv)
  ultimately show ?thesis using a by simp
qed

text \<open>What a registry file grants, read off the document.\<close>

definition grant_entry :: "nat \<Rightarrow> string \<Rightarrow> jsval \<Rightarrow> bool" where
  "grant_entry uid namespace e = (prop_of e ''uid'' = JNum (NInt (int uid))
     \<and> (case prop_of e ''namespaces'' of JArr ns \<Rightarrow> JStr namespace \<in> set ns | _ \<Rightarrow> False))"

definition grants :: "jsval \<Rightarrow> nat \<Rightarrow> string \<Rightarrow> bool" where
  "grants v uid namespace = (case prop_of v ''services'' of JArr es \<Rightarrow> list_ex (grant_entry uid namespace) es | _ \<Rightarrow> False)"

lemma granted_entries:
  "map parse_service es = map Some ss \<Longrightarrow>
     list_ex (grant_entry uid namespace) es \<longleftrightarrow> (\<exists>s. s \<in> set ss \<and> sv_uid s = uid \<and> namespace \<in> set (sv_namespaces s))"
proof (induction es arbitrary: ss)
  case (Cons e es)
  then obtain s ss' where s: "ss = s # ss'" "parse_service e = Some s" "map parse_service es = map Some ss'" by (cases ss) auto
  have "grant_entry uid namespace e \<longleftrightarrow> sv_uid s = uid \<and> namespace \<in> set (sv_namespaces s)"
    using parse_service_Some [OF s(2)] by (auto simp: grant_entry_def)
  with Cons.IH [OF s(3)] s(1) show ?case by auto
qed simp

lemma registry_from_yaml_Inr:
  assumes "registry_from_yaml yaml issues source = Inr R"
  obtains v es ss where "yaml source = Inr v" "prop_of v ''services'' = JArr es"
    "map parse_service es = map Some ss" "distinct (map sv_uid ss)" "rg_by_uid R = map (\<lambda>s. (sv_uid s, s)) ss" "rg_version R = 1"
proof -
  from assms obtain v n ss m where a: "yaml source = Inr v" "parse_file v = Some (n, ss)" "fold_err register ss [] = Inr m"
    "R = \<lparr>rg_by_uid = m, rg_version = n\<rparr>"
    by (auto simp: registry_from_yaml_def bind_err_Inr_iff split: sum.splits option.splits)
  from a(2) obtain es where "prop_of v ''services'' = JArr es" "all_some (map parse_service es) = Some ss" "n = 1"
    by (auto simp: parse_file_def registry_versions_def split: jsval.splits option.splits if_splits)
  with a that show ?thesis by (auto simp: fold_register all_some_iff)
qed

lemma map_of_tagged: "distinct (map f xs) \<Longrightarrow> map_of (map (\<lambda>x. (f x, x)) xs) k = Some y \<longleftrightarrow> y \<in> set xs \<and> f y = k"
proof (induction xs)
  case (Cons x xs)
  then show ?case by (cases "f x = k") (auto simp: image_iff)
qed simp

lemma registry_from_yaml_ok:
  assumes "registry_from_yaml yaml issues source = Inr R"
  shows "distinct (map fst (rg_by_uid R))" and "identify R uid = Some s \<Longrightarrow> sv_uid s = uid \<and> sv_name s \<noteq> [] \<and> sv_namespaces s \<noteq> []
      \<and> list_all is_namespace (sv_namespaces s)"
proof -
  from assms obtain v es ss where a: "map parse_service es = map Some ss" "distinct (map sv_uid ss)"
    "rg_by_uid R = map (\<lambda>s. (sv_uid s, s)) ss"
    by (rule registry_from_yaml_Inr)
  show "distinct (map fst (rg_by_uid R))" using a by (simp add: comp_def)
  assume "identify R uid = Some s"
  then have "s \<in> set ss" "sv_uid s = uid" using a(2, 3) by (simp_all add: identify_def map_of_tagged)
  then have "Some s \<in> set (map parse_service es)" using a(1) by simp
  then obtain e where "parse_service e = Some s" by (auto simp del: a)
  then show "sv_uid s = uid \<and> sv_name s \<noteq> [] \<and> sv_namespaces s \<noteq> [] \<and> list_all is_namespace (sv_namespaces s)"
    using \<open>sv_uid s = uid\<close> by (auto dest: parse_service_Some)
qed

lemma registry_grants:
  assumes "registry_from_yaml yaml issues source = Inr R" "yaml source = Inr v"
  shows "(\<exists>s. identify R uid = Some s \<and> namespace \<in> set (sv_namespaces s)) \<longleftrightarrow> grants v uid namespace"
proof -
  from assms obtain es ss where a: "prop_of v ''services'' = JArr es" "map parse_service es = map Some ss"
    "distinct (map sv_uid ss)" "rg_by_uid R = map (\<lambda>s. (sv_uid s, s)) ss"
    by (elim registry_from_yaml_Inr) simp
  have l: "identify R uid = Some s \<longleftrightarrow> s \<in> set ss \<and> sv_uid s = uid" for s
    using a(3, 4) by (simp add: identify_def map_of_tagged)
  show ?thesis using granted_entries [OF a(2)] by (auto simp: grants_def a(1) l)
qed

subsection \<open>Peer credentials (peercred.ts)\<close>

record peer =
  pc_uid :: jsnum
  pc_gid :: jsnum
  pc_pid :: jsnum

definition peer_fields :: "peer \<Rightarrow> (string \<times> jsnum) list" where
  "peer_fields c = [(''uid'', pc_uid c), (''gid'', pc_gid c), (''pid'', pc_pid c)]"

definition field_ok :: "jsnum \<Rightarrow> bool" where
  "field_ok n = (num_is_integer n \<and> \<not> num_less n (NInt 0))"

definition resolve :: "bool \<Rightarrow> string + peer \<Rightarrow> string + peer" where
  "resolve destroyed credentials =
     (if destroyed then Inl ''cannot read peer credentials: socket is destroyed''
      else case credentials of
        Inl _ \<Rightarrow> Inl ''could not read peer credentials from the socket''
      | Inr c \<Rightarrow> (case find (\<lambda>(_, n). \<not> field_ok n) (peer_fields c) of
          Some (field, n) \<Rightarrow> Inl (''peer credentials are invalid: '' @ field @ ''='' @ num_str n)
        | None \<Rightarrow> Inr \<lparr>pc_uid = pc_uid c, pc_gid = pc_gid c, pc_pid = pc_pid c\<rparr>))"

definition int32_le :: "8 word list \<Rightarrow> nat \<Rightarrow> int" where
  "int32_le bs i = (let n = uint (bs ! i) + 256 * uint (bs ! (i + 1)) + 65536 * uint (bs ! (i + 2)) + 16777216 * uint (bs ! (i + 3))
     in if n < 2147483648 then n else n - 4294967296)"

text \<open>
  The reader of the Linux build: \<open>fd\<close> is the file descriptor of the socket's handle, if it has one,
  and \<open>getsockopt\<close> the system call, with its return code and the twelve bytes it filled in.
\<close>

definition platform_reader :: "(int \<Rightarrow> int \<times> 8 word list) \<Rightarrow> int option \<Rightarrow> string + peer" where
  "platform_reader getsockopt fd = (case fd of
     None \<Rightarrow> Inl ''socket has no file descriptor''
   | Some n \<Rightarrow> (if n < 0 then Inl ''socket has no file descriptor''
       else case getsockopt n of (rc, buffer) \<Rightarrow>
         if rc \<noteq> 0 then Inl (''getsockopt(SO_PEERCRED) failed with '' @ int_str rc)
         else Inr \<lparr>pc_uid = NInt (int32_le buffer 4), pc_gid = NInt (int32_le buffer 8), pc_pid = NInt (int32_le buffer 0)\<rparr>))"

lemma resolve_Inr: "resolve destroyed r = Inr c \<longleftrightarrow> \<not> destroyed \<and> (\<exists>c'. r = Inr c' \<and> c = \<lparr>pc_uid = pc_uid c', pc_gid = pc_gid c', pc_pid = pc_pid c'\<rparr>
    \<and> field_ok (pc_uid c') \<and> field_ok (pc_gid c') \<and> field_ok (pc_pid c'))"
  by (cases r) (auto simp: resolve_def peer_fields_def)

definition le_bytes :: "32 word \<Rightarrow> 8 word list" where
  "le_bytes w = [ucast w, ucast (drop_bit 8 w), ucast (drop_bit 16 w), ucast (drop_bit 24 w)]"

lemma int_digits: "0 \<le> n \<Longrightarrow> n < 4294967296 \<Longrightarrow>
    (n::int) mod 256 + 256 * (n div 256 mod 256) + 65536 * (n div 65536 mod 256) + 16777216 * (n div 16777216 mod 256) = n"
proof -
  assume n: "0 \<le> n" "n < 4294967296"
  have d: "n div 65536 = n div 256 div 256" using zdiv_zmult2_eq [of 256 n 256] by simp
  have d': "n div 16777216 = n div 256 div 256 div 256" using zdiv_zmult2_eq [of 256 n 65536] zdiv_zmult2_eq [of 65536 n 256] d by simp
  define a where "a = n div 256"
  define b where "b = a div 256"
  define c where "c = b div 256"
  have "c mod 256 = c" using n unfolding a_def b_def c_def by simp
  moreover have "n = 256 * a + n mod 256" "a = 256 * b + a mod 256" "b = 256 * c + b mod 256" unfolding a_def b_def c_def by simp_all
  ultimately show ?thesis unfolding d d' a_def [symmetric] b_def [symmetric] c_def [symmetric] by linarith
qed

lemma sint32: "sint (w :: 32 word) = (if uint w < 2147483648 then uint w else uint w - 4294967296)"
proof -
  have "(uint w + 2147483648) mod 4294967296 = (if uint w < 2147483648 then uint w + 2147483648 else uint w - 2147483648)"
  proof (cases "uint w < 2147483648")
    case False
    have "uint w + 2147483648 = (uint w - 2147483648) + 4294967296 * 1" by simp
    then have "(uint w + 2147483648) mod 4294967296 = ((uint w - 2147483648) + 4294967296 * 1) mod 4294967296" by (rule arg_cong)
    also have "\<dots> = (uint w - 2147483648) mod 4294967296" by (rule mod_mult_self2)
    finally show ?thesis using False uint_bounded [of w] by simp
  qed simp
  then show ?thesis using uint_bounded [of w] by (simp add: sint_uint signed_take_bit_eq_take_bit_shift take_bit_eq_mod)
qed

lemma int32_le_bytes:
  assumes "i + 4 \<le> length bs" "take 4 (drop i bs) = le_bytes w"
  shows "int32_le bs i = sint w"
proof -
  have b: "bs ! (i + j) = le_bytes w ! j" if "j < 4" for j
    using assms that by (metis add_leD1 nth_drop nth_take)
  have u: "uint (ucast (drop_bit k w) :: 8 word) = uint w div 2 ^ k mod 256" for k
  proof -
    have "uint (drop_bit k w) = uint w div 2 ^ k" 
      using uint_bounded [of w] by (subst unsigned_drop_bit_eq, subst drop_bit_eq_div) (simp add: take_bit_eq_mod)
    then show ?thesis by (simp only: unsigned_ucast_eq take_bit_eq_mod) simp
  qed
  have "bs ! i = ucast (drop_bit 0 w)" "bs ! (i + 1) = ucast (drop_bit 8 w)" "bs ! (i + 2) = ucast (drop_bit 16 w)" "bs ! (i + 3) = ucast (drop_bit 24 w)"
    using b [of 0] b [of 1] b [of 2] b [of 3] by (simp_all add: le_bytes_def)
  then have "uint (bs ! i) + 256 * uint (bs ! (i + 1)) + 65536 * uint (bs ! (i + 2)) + 16777216 * uint (bs ! (i + 3))
      = uint w mod 256 + 256 * (uint w div 256 mod 256) + 65536 * (uint w div 65536 mod 256) + 16777216 * (uint w div 16777216 mod 256)"
    by (simp only: u) simp
  also have "\<dots> = uint w" using uint_bounded [of w] by (intro int_digits) simp_all
  finally have "uint (bs ! i) + 256 * uint (bs ! (i + 1)) + 65536 * uint (bs ! (i + 2)) + 16777216 * uint (bs ! (i + 3)) = uint w" .
  then show ?thesis by (simp add: int32_le_def sint32)
qed

text \<open>The twelve bytes of the kernel's \<open>struct ucred\<close>.\<close>

definition ucred :: "32 word \<Rightarrow> 32 word \<Rightarrow> 32 word \<Rightarrow> 8 word list" where
  "ucred pid uid gid = le_bytes pid @ le_bytes uid @ le_bytes gid"

lemma ucred_read:
  "int32_le (ucred pid uid gid) 0 = sint pid" "int32_le (ucred pid uid gid) 4 = sint uid" "int32_le (ucred pid uid gid) 8 = sint gid"
  by (rule int32_le_bytes; simp add: ucred_def le_bytes_def)+

lemma sint_nonneg: "0 \<le> sint (w :: 32 word) \<longleftrightarrow> unat w < 2147483648" "0 \<le> sint w \<Longrightarrow> sint w = int (unat w)"
proof -
  have "int (unat w) = uint w" by simp
  then have "unat w < 2147483648 \<longleftrightarrow> uint w < 2147483648" by linarith
  then show "0 \<le> sint w \<longleftrightarrow> unat w < 2147483648" "0 \<le> sint w \<Longrightarrow> sint w = int (unat w)"
    using uint_bounded [of w] unfolding sint32 by (simp_all split: if_splits)
qed

text \<open>The identity the guard sees is the kernel's, or there is none: with a file descriptor and a
  call that succeeds, the credentials are accepted exactly when all three 32-bit fields are below
  2^31, and then they are the kernel's own numbers. A uid of 2^31 or more, which the signed read
  makes negative, is refused instead of being looked up as something else.\<close>

theorem peer_credentials_exact:
  assumes "0 \<le> fd" and "getsockopt fd = (0, ucred pid uid gid)"
  shows "resolve destroyed (platform_reader getsockopt (Some fd)) = Inr c \<longleftrightarrow>
    \<not> destroyed \<and> unat pid < 2147483648 \<and> unat uid < 2147483648 \<and> unat gid < 2147483648
    \<and> c = \<lparr>pc_uid = NInt (int (unat uid)), pc_gid = NInt (int (unat gid)), pc_pid = NInt (int (unat pid))\<rparr>"
  using assms sint_nonneg(2) [of uid] sint_nonneg(2) [of gid] sint_nonneg(2) [of pid]
  by (auto simp: resolve_Inr platform_reader_def ucred_read field_ok_def sint_nonneg(1) not_less)

theorem peer_credentials_exact_witness:
  "resolve False (platform_reader (\<lambda>_. (0, ucred 7 1000 1000)) (Some 3)) = Inr \<lparr>pc_uid = NInt 1000, pc_gid = NInt 1000, pc_pid = NInt 7\<rparr>
   \<and> \<not> (\<exists>c. resolve False (platform_reader (\<lambda>_. (0, ucred 7 4294967294 1000)) (Some 3)) = Inr c)"
  using peer_credentials_exact [of 3 "\<lambda>_. (0, ucred 7 1000 1000)" 7 1000 1000 False]
    peer_credentials_exact [of 3 "\<lambda>_. (0, ucred 7 4294967294 1000)" 7 4294967294 1000 False] by simp

subsection \<open>The guard (access-guard.ts)\<close>

datatype denial = CredentialsUnreadable | UnknownUid | NamespaceNotGranted

fun denial_name :: "denial \<Rightarrow> string" where
  "denial_name CredentialsUnreadable = ''credentials_unreadable''"
| "denial_name UnknownUid = ''unknown_uid''"
| "denial_name NamespaceNotGranted = ''namespace_not_granted''"

record audit_entry =
  au_uid :: "nat option"
  au_service :: "string option"
  au_namespace :: string
  au_reason :: "denial option"

record denied =
  dn_status :: nat
  dn_code :: string
  dn_title :: string
  dn_detail :: string

definition the_denial :: denied where
  "the_denial = \<lparr>dn_status = 403, dn_code = ''forbidden'', dn_title = ''Forbidden'', dn_detail = ''Access denied.''\<rparr>"

record guard =
  gd_alerted :: "string list"
  gd_audit :: "audit_entry list"
  gd_alerts :: "audit_entry list"

definition alert_key :: "audit_entry \<Rightarrow> string" where
  "alert_key e = (case au_uid e of None \<Rightarrow> ''none'' | Some u \<Rightarrow> nat_str u) @ '':'' @ au_namespace e @ '':''
     @ (case au_reason e of None \<Rightarrow> ''null'' | Some r \<Rightarrow> denial_name r)"

definition deny :: "audit_entry \<Rightarrow> guard \<Rightarrow> (denied + service) \<times> guard" where
  "deny e g = (let g' = g\<lparr>gd_audit := gd_audit g @ [e]\<rparr>; key = alert_key e in
     (Inl the_denial,
      if key \<in> set (gd_alerted g) then g'
      else g'\<lparr>gd_alerted := gd_alerted g @ [key], gd_alerts := gd_alerts g @ [e]\<rparr>))"

definition uid_of :: "jsnum \<Rightarrow> nat" where
  "uid_of n = (case n of NInt i \<Rightarrow> nat i | _ \<Rightarrow> 0)"

definition authorize :: "string + peer \<Rightarrow> registry \<Rightarrow> string \<Rightarrow> guard \<Rightarrow> (denied + service) \<times> guard" where
  "authorize resolved R namespace g = (case resolved of
     Inl _ \<Rightarrow> deny \<lparr>au_uid = None, au_service = None, au_namespace = namespace, au_reason = Some CredentialsUnreadable\<rparr> g
   | Inr c \<Rightarrow> (let uid = uid_of (pc_uid c) in case identify R uid of
       None \<Rightarrow> deny \<lparr>au_uid = Some uid, au_service = None, au_namespace = namespace, au_reason = Some UnknownUid\<rparr> g
     | Some s \<Rightarrow>
         if \<not> may_read R s namespace
         then deny \<lparr>au_uid = Some uid, au_service = Some (sv_name s), au_namespace = namespace, au_reason = Some NamespaceNotGranted\<rparr> g
         else (Inr s, g\<lparr>gd_audit := gd_audit g @ [\<lparr>au_uid = Some uid, au_service = Some (sv_name s), au_namespace = namespace, au_reason = None\<rparr>]\<rparr>)))"

text \<open>A run of the guard over the requests it gets, each with the registry of its moment.\<close>

fun authorize_all :: "((string + peer) \<times> registry \<times> string) list \<Rightarrow> guard \<Rightarrow> guard" where
  "authorize_all [] g = g"
| "authorize_all ((c, R, n) # rs) g = authorize_all rs (snd (authorize c R n g))"

definition new_guard :: guard where
  "new_guard = \<lparr>gd_alerted = [], gd_audit = [], gd_alerts = []\<rparr>"

definition denials :: "guard \<Rightarrow> audit_entry list" where
  "denials g = filter (\<lambda>e. au_reason e \<noteq> None) (gd_audit g)"

definition guard_inv :: "guard \<Rightarrow> bool" where
  "guard_inv g \<longleftrightarrow> gd_alerted g = map alert_key (gd_alerts g) \<and> distinct (gd_alerted g)
     \<and> set (gd_alerted g) = alert_key ` set (denials g) \<and> set (gd_alerts g) \<subseteq> set (denials g)"

lemma deny_inv:
  assumes "guard_inv g" "au_reason e \<noteq> None"
  shows "guard_inv (snd (deny e g))"
  using assms by (auto simp: guard_inv_def deny_def denials_def Let_def)

lemma allow_denials: "au_reason e = None \<Longrightarrow> denials (g\<lparr>gd_audit := gd_audit g @ [e]\<rparr>) = denials g"
  by (simp add: denials_def)

lemma authorize_inv: "guard_inv g \<Longrightarrow> guard_inv (snd (authorize c R n g))"
  by (auto simp: authorize_def Let_def deny_inv guard_inv_def [of "_\<lparr>gd_audit := _\<rparr>"] allow_denials guard_inv_def [of g] split: sum.split option.split)

lemma authorize_all_inv: "guard_inv g \<Longrightarrow> guard_inv (authorize_all rs g)"
  by (induction rs g rule: authorize_all.induct) (simp_all add: authorize_inv)

lemma denial_name_no_colon: "CHR '':'' \<notin> set (denial_name r)"
  by (cases r) simp_all

lemma denial_name_inj: "denial_name r = denial_name r' \<longleftrightarrow> r = r'"
  by (cases r; cases r') simp_all

lemma append_colon_inj:
  assumes "CHR '':'' \<notin> set a" "CHR '':'' \<notin> set b"
  shows "a @ CHR '':'' # x = b @ CHR '':'' # y \<longleftrightarrow> a = b \<and> x = y"
  using assms by (induction a arbitrary: b) (case_tac b; auto)+

lemma last_colon_inj:
  assumes "CHR '':'' \<notin> set a" "CHR '':'' \<notin> set b"
  shows "x @ CHR '':'' # a = y @ CHR '':'' # b \<longleftrightarrow> x = y \<and> a = b"
proof -
  have "x @ CHR '':'' # a = y @ CHR '':'' # b \<longleftrightarrow> rev a @ CHR '':'' # rev x = rev b @ CHR '':'' # rev y"
    by (metis append.assoc append_Cons append_Nil rev.simps(2) rev_append rev_rev_ident)
  then show ?thesis using append_colon_inj [of "rev a" "rev b"] assms by auto
qed

lemma nat_str_no_colon: "CHR '':'' \<notin> set (nat_str n)"
  by (auto dest!: nat_str_digits simp: is_digit_def less_eq_char_def)

lemma alert_key_inj:
  assumes "alert_key e = alert_key f" "au_reason e \<noteq> None" "au_reason f \<noteq> None"
  shows "au_uid e = au_uid f \<and> au_namespace e = au_namespace f \<and> au_reason e = au_reason f"
proof -
  let ?u = "\<lambda>e. case au_uid e of None \<Rightarrow> ''none'' | Some u \<Rightarrow> nat_str u"
  have nc: "CHR '':'' \<notin> set (?u e)" for e by (simp add: nat_str_no_colon split: option.split)
  obtain r r' where r: "au_reason e = Some r" "au_reason f = Some r'" using assms by auto
  have "?u e @ CHR '':'' # (au_namespace e @ CHR '':'' # denial_name r) = ?u f @ CHR '':'' # (au_namespace f @ CHR '':'' # denial_name r')"
    using assms(1) r by (simp add: alert_key_def)
  then have "?u e = ?u f" "au_namespace e = au_namespace f" "r = r'"
    by (simp_all add: append_colon_inj [OF nc nc] last_colon_inj denial_name_no_colon denial_name_inj)
  moreover have "nat_str u \<noteq> ''none''" for u using nat_str_digits [of "CHR ''n''" u] by (auto simp: is_digit_def less_eq_char_def)
  moreover have "nat_str u = nat_str u' \<longleftrightarrow> u = u'" for u u' using digits_val_nat_str by metis
  ultimately show ?thesis using r by (auto split: option.splits dest: sym)
qed

lemma may_read_identified:
  assumes "registry_from_yaml yaml issues source = Inr R" "identify R uid = Some s"
  shows "may_read R s namespace \<longleftrightarrow> namespace \<in> set (sv_namespaces s)"
proof -
  have "sv_uid s = uid" using registry_from_yaml_ok(2) [OF assms] by simp
  then show ?thesis using assms(2) by (simp add: may_read_def identify_def)
qed

text \<open>C11: a read is allowed exactly when the file the registry was read from lists that namespace, word
  for word, under the uid the kernel reported; every refusal, whatever its reason, is the same
  answer; and widening the grants of an identity one holds changes nothing.\<close>

theorem reads_are_granted:
  assumes "registry_from_yaml yaml issues source = Inr R" and "yaml source = Inr v"
  shows "fst (authorize (Inl e) R namespace g) = Inl the_denial
    \<and> fst (authorize (Inr c) R namespace g) = (case identify R (uid_of (pc_uid c)) of
       Some s \<Rightarrow> if grants v (uid_of (pc_uid c)) namespace then Inr s else Inl the_denial
     | None \<Rightarrow> Inl the_denial)
    \<and> (grants v (uid_of (pc_uid c)) namespace \<longrightarrow> (\<exists>s. fst (authorize (Inr c) R namespace g) = Inr s \<and> sv_uid s = uid_of (pc_uid c)))
    \<and> may_read R (s\<lparr>sv_namespaces := wider\<rparr>) namespace = may_read R s namespace"
proof -
  have g: "grants v (uid_of (pc_uid c)) namespace \<longleftrightarrow>
      (\<exists>s. identify R (uid_of (pc_uid c)) = Some s \<and> namespace \<in> set (sv_namespaces s))"
    using registry_grants [OF assms] by blast
  have a: "fst (authorize (Inr c) R namespace g) = (case identify R (uid_of (pc_uid c)) of
       Some s \<Rightarrow> if grants v (uid_of (pc_uid c)) namespace then Inr s else Inl the_denial
     | None \<Rightarrow> Inl the_denial)"
    using may_read_identified [OF assms(1)]
    by (cases "identify R (uid_of (pc_uid c))") (simp_all add: authorize_def deny_def Let_def g)
  have "\<exists>s. fst (authorize (Inr c) R namespace g) = Inr s \<and> sv_uid s = uid_of (pc_uid c)" if "grants v (uid_of (pc_uid c)) namespace"
  proof -
    from that g obtain s where "identify R (uid_of (pc_uid c)) = Some s" by blast
    with a that registry_from_yaml_ok(2) [OF assms(1) this] show ?thesis by simp
  qed
  moreover have "may_read R (s\<lparr>sv_namespaces := wider\<rparr>) namespace = may_read R s namespace"
    by (simp add: may_read_def split: option.split)
  moreover have "fst (authorize (Inl e) R namespace g) = Inl the_denial" by (simp add: authorize_def deny_def Let_def)
  ultimately show ?thesis using a by blast
qed

definition demo_services :: jsval where
  "demo_services = JObj [(''version'', JNum (NInt 1)), (''services'', JArr [JObj [(''name'', JStr ''iam''),
     (''uid'', JNum (NInt 1000)), (''namespaces'', JArr [JStr ''iam/prod''])]])]"

definition demo_registry :: registry where
  "demo_registry = \<lparr>rg_by_uid = [(1000, \<lparr>sv_name = ''iam'', sv_uid = 1000, sv_namespaces = [''iam/prod'']\<rparr>)], rg_version = 1\<rparr>"

lemma demo_registry_read: "registry_from_yaml json_yaml (\<lambda>_. '''') (json demo_services) = Inr demo_registry"
  by code_simp

theorem reads_are_granted_witness:
  "fst (authorize (Inr \<lparr>pc_uid = NInt 1000, pc_gid = NInt 1, pc_pid = NInt 1\<rparr>) demo_registry ''iam/prod-eu'' new_guard) = Inl the_denial"
  using reads_are_granted [OF demo_registry_read json_yaml_json, of _ "''iam/prod-eu''" new_guard "\<lparr>pc_uid = NInt 1000, pc_gid = NInt 1, pc_pid = NInt 1\<rparr>"]
  by (simp add: demo_services_def uid_of_def grants_def grant_entry_def prop_of_def get_prop_def obj_of_def demo_registry_def identify_def)

definition denied_fact :: "audit_entry \<Rightarrow> nat option \<times> string \<times> denial option" where
  "denied_fact e = (au_uid e, au_namespace e, au_reason e)"

lemma alert_key_iff:
  assumes "au_reason e \<noteq> None" "au_reason f \<noteq> None"
  shows "alert_key e = alert_key f \<longleftrightarrow> denied_fact e = denied_fact f"
proof
  assume "alert_key e = alert_key f"
  from alert_key_inj [OF this assms] show "denied_fact e = denied_fact f" by (simp add: denied_fact_def)
qed (simp add: denied_fact_def alert_key_def)

text \<open>Over any run of requests, and registries that change between them, an alert is raised for
  every distinct denied fact (which uid, which namespace, which reason) and never twice for the
  same one, while every request leaves one line in the audit trail.\<close>

theorem alerts_once_per_fact:
  "distinct (map denied_fact (gd_alerts (authorize_all requests new_guard)))
   \<and> denied_fact ` set (gd_alerts (authorize_all requests new_guard)) = denied_fact ` set (denials (authorize_all requests new_guard))
   \<and> length (gd_audit (authorize_all requests new_guard)) = length requests"
proof -
  have "guard_inv (authorize_all requests new_guard)"
    by (rule authorize_all_inv) (simp add: guard_inv_def new_guard_def denials_def)
  then obtain g where g: "g = authorize_all requests new_guard" "guard_inv g" by simp
  then have i: "distinct (map alert_key (gd_alerts g))" "alert_key ` set (gd_alerts g) = alert_key ` set (denials g)" "set (gd_alerts g) \<subseteq> set (denials g)"
    by (auto simp: guard_inv_def)
  have r: "au_reason e \<noteq> None" if "e \<in> set (denials g)" for e using that by (simp add: denials_def)
  note inj = alert_key_iff [OF r r]
  have "distinct (map denied_fact (gd_alerts g))"
    using i(1, 3) inj unfolding distinct_map inj_on_def by (metis subsetD)
  moreover have "denied_fact ` set (gd_alerts g) = denied_fact ` set (denials g)"
  proof
    show "denied_fact ` set (denials g) \<subseteq> denied_fact ` set (gd_alerts g)"
    proof
      fix x assume "x \<in> denied_fact ` set (denials g)"
      then obtain e where e: "e \<in> set (denials g)" "x = denied_fact e" by blast
      then obtain f where "f \<in> set (gd_alerts g)" "alert_key e = alert_key f" using i(2) by (metis imageE imageI)
      then show "x \<in> denied_fact ` set (gd_alerts g)" using inj e i(3) by (metis imageI subsetD)
    qed
  qed (use i(3) in blast)
  moreover have "length (gd_audit (authorize_all rs h)) = length (gd_audit h) + length rs" for rs h
    by (induction rs h rule: authorize_all.induct)
       (simp_all add: authorize_def deny_def Let_def split: sum.split option.split)
  ultimately show ?thesis using g(1) by (simp add: new_guard_def)
qed

end
