(* ===== verification/Locks.thy ===== *)
theory Locks
  imports Prelude
begin

section \<open>The write lock (src/git/write-lock.ts)\<close>

text \<open>
  \<open>withLock\<close> as the steps its callers can be seen to take. Every call takes the tail of the chain as
  the promise it waits for and puts its own, new promise in its place; it enters once the promise it
  waits for is settled; when its function has returned or thrown, it settles its own. Promise \<open>0\<close>
  is the resolved one the chain starts with, and call \<open>i\<close> owns promise \<open>Suc i\<close>.
\<close>

datatype phase = Waiting | Running | Released

record lock =
  lk_tail :: nat
  lk_calls :: "(nat \<times> phase) list"
  lk_settled :: "nat list"
  lk_depth :: nat

definition new_lock :: lock where
  "new_lock = \<lparr>lk_tail = 0, lk_calls = [], lk_settled = [0], lk_depth = 0\<rparr>"

definition lock_held :: "lock \<Rightarrow> bool" where
  "lock_held l = (0 < lk_depth l)"

definition lock_call :: "lock \<Rightarrow> lock" where
  "lock_call l = l\<lparr>lk_calls := lk_calls l @ [(lk_tail l, Waiting)], lk_tail := Suc (length (lk_calls l))\<rparr>"

definition lock_enter :: "nat \<Rightarrow> lock \<Rightarrow> lock option" where
  "lock_enter i l = (if i < length (lk_calls l) \<and> snd (lk_calls l ! i) = Waiting \<and> fst (lk_calls l ! i) \<in> set (lk_settled l)
     then Some (l\<lparr>lk_calls := (lk_calls l)[i := (fst (lk_calls l ! i), Running)], lk_depth := lk_depth l + 1\<rparr>) else None)"

definition lock_leave :: "nat \<Rightarrow> lock \<Rightarrow> lock option" where
  "lock_leave i l = (if i < length (lk_calls l) \<and> snd (lk_calls l ! i) = Running
     then Some (l\<lparr>lk_calls := (lk_calls l)[i := (fst (lk_calls l ! i), Released)], lk_depth := lk_depth l - 1,
       lk_settled := Suc i # lk_settled l\<rparr>) else None)"

inductive lock_step :: "lock \<Rightarrow> lock \<Rightarrow> bool" where
  call: "lock_step l (lock_call l)"
| enter: "lock_enter i l = Some l' \<Longrightarrow> lock_step l l'"
| leave: "lock_leave i l = Some l' \<Longrightarrow> lock_step l l'"

inductive_cases lock_stepE: "lock_step l l'"

text \<open>
  What a lock promises, abstractly: the callers in the order they came, and how many of them are
  done. Only the first one that is not done may be inside.
\<close>

record fifo =
  fq_arrived :: nat
  fq_done :: nat
  fq_inside :: bool

inductive fifo_step :: "fifo \<Rightarrow> fifo \<Rightarrow> bool" where
  arrive: "fifo_step q (q\<lparr>fq_arrived := Suc (fq_arrived q)\<rparr>)"
| admit: "\<not> fq_inside q \<Longrightarrow> fq_done q < fq_arrived q \<Longrightarrow> fifo_step q (q\<lparr>fq_inside := True\<rparr>)"
| release: "fq_inside q \<Longrightarrow> fifo_step q (q\<lparr>fq_inside := False, fq_done := Suc (fq_done q)\<rparr>)"

definition new_fifo :: fifo where
  "new_fifo = \<lparr>fq_arrived = 0, fq_done = 0, fq_inside = False\<rparr>"

definition phase_at :: "fifo \<Rightarrow> nat \<Rightarrow> phase" where
  "phase_at q i = (if i < fq_done q then Released else if i = fq_done q \<and> fq_inside q then Running else Waiting)"

definition represents :: "fifo \<Rightarrow> lock \<Rightarrow> bool" where
  "represents q l \<longleftrightarrow> fq_done q \<le> fq_arrived q \<and> (fq_inside q \<longrightarrow> fq_done q < fq_arrived q)
     \<and> lk_calls l = map (\<lambda>i. (i, phase_at q i)) [0..<fq_arrived q] \<and> lk_tail l = fq_arrived q
     \<and> set (lk_settled l) = {..fq_done q} \<and> lk_depth l = (if fq_inside q then 1 else 0)"

lemma represents_nth: "represents q l \<Longrightarrow> i < length (lk_calls l) \<Longrightarrow> lk_calls l ! i = (i, phase_at q i)"
  by (simp add: represents_def)

lemma represents_length: "represents q l \<Longrightarrow> length (lk_calls l) = fq_arrived q"
  by (simp add: represents_def)

lemma represents_call: "represents q l \<Longrightarrow> represents (q\<lparr>fq_arrived := Suc (fq_arrived q)\<rparr>) (lock_call l)"
  by (auto simp: represents_def lock_call_def phase_at_def)

lemma enter_only_next:
  assumes "represents q l" "lock_enter i l = Some l'"
  shows "i = fq_done q" "\<not> fq_inside q" "fq_done q < fq_arrived q"
proof -
  have i: "i < length (lk_calls l)" "phase_at q i = Waiting" "i \<in> set (lk_settled l)"
    using assms by (auto simp: lock_enter_def represents_nth split: if_splits)
  then have "i \<le> fq_done q" using assms(1) by (simp add: represents_def)
  then show "i = fq_done q" "\<not> fq_inside q" "fq_done q < fq_arrived q"
    using i represents_length [OF assms(1)] by (auto simp: phase_at_def split: if_splits)
qed

lemma represents_enter:
  assumes "represents q l" "lock_enter i l = Some l'"
  shows "represents (q\<lparr>fq_inside := True\<rparr>) l'"
proof -
  note n = enter_only_next [OF assms]
  have "lk_calls l' = (lk_calls l)[fq_done q := (fq_done q, Running)]" "lk_tail l' = lk_tail l" "lk_settled l' = lk_settled l" "lk_depth l' = lk_depth l + 1"
    using assms n by (auto simp: lock_enter_def represents_nth split: if_splits)
  moreover have "(lk_calls l)[fq_done q := (fq_done q, Running)] = map (\<lambda>i. (i, phase_at (q\<lparr>fq_inside := True\<rparr>) i)) [0..<fq_arrived q]"
    using assms(1) n by (intro nth_equalityI) (auto simp: represents_def nth_list_update phase_at_def)
  ultimately show ?thesis using assms(1) n by (simp add: represents_def)
qed

lemma leave_only_first:
  assumes "represents q l" "lock_leave i l = Some l'"
  shows "i = fq_done q" "fq_inside q"
  using assms by (auto simp: lock_leave_def represents_nth phase_at_def split: if_splits)

lemma represents_leave:
  assumes "represents q l" "lock_leave i l = Some l'"
  shows "represents (q\<lparr>fq_inside := False, fq_done := Suc (fq_done q)\<rparr>) l'"
proof -
  note n = leave_only_first [OF assms]
  have d: "fq_done q < fq_arrived q" using assms(1) n by (simp add: represents_def)
  have "lk_calls l' = (lk_calls l)[fq_done q := (fq_done q, Released)]" "lk_tail l' = lk_tail l"
    "lk_settled l' = Suc (fq_done q) # lk_settled l" "lk_depth l' = lk_depth l - 1"
    using assms n by (auto simp: lock_leave_def represents_nth split: if_splits)
  moreover have "(lk_calls l)[fq_done q := (fq_done q, Released)]
      = map (\<lambda>i. (i, phase_at (q\<lparr>fq_inside := False, fq_done := Suc (fq_done q)\<rparr>) i)) [0..<fq_arrived q]"
    using assms(1) n d by (intro nth_equalityI) (auto simp: represents_def nth_list_update phase_at_def)
  ultimately show ?thesis using assms(1) n d by (auto simp: represents_def)
qed

lemma step_simulated:
  assumes "lock_step l l'" "represents q l"
  shows "\<exists>q'. fifo_step q q' \<and> represents q' l'"
  using assms(1)
proof (rule lock_stepE)
  assume "l' = lock_call l"
  then have r: "represents (q\<lparr>fq_arrived := Suc (fq_arrived q)\<rparr>) l'" using represents_call [OF assms(2)] by simp
  show ?thesis by (intro exI conjI, rule arrive, rule r)
next
  fix i assume e: "lock_enter i l = Some l'"
  show ?thesis by (intro exI conjI, rule admit [OF enter_only_next(2, 3) [OF assms(2) e]], rule represents_enter [OF assms(2) e])
next
  fix i assume e: "lock_leave i l = Some l'"
  show ?thesis by (intro exI conjI, rule release [OF leave_only_first(2) [OF assms(2) e]], rule represents_leave [OF assms(2) e])
qed

lemma represents_new: "represents new_fifo new_lock"
  by (simp add: represents_def new_fifo_def new_lock_def)

lemma reachable_simulated: "lock_step\<^sup>*\<^sup>* new_lock l \<Longrightarrow> \<exists>q. fifo_step\<^sup>*\<^sup>* new_fifo q \<and> represents q l"
proof (induction rule: rtranclp_induct)
  case base
  show ?case using represents_new by blast
next
  case (step l l')
  then obtain q where q: "fifo_step\<^sup>*\<^sup>* new_fifo q" "represents q l" by blast
  from step_simulated [OF step(2) q(2)] obtain q' where "fifo_step q q'" "represents q' l'" by blast
  with q(1) show ?case by (blast intro: rtranclp.rtrancl_into_rtrancl)
qed

lemma two_calls: "lock_step\<^sup>*\<^sup>* new_lock (lock_call (lock_call new_lock))"
proof -
  have "lock_step\<^sup>*\<^sup>* new_lock (lock_call new_lock)" by (rule r_into_rtranclp) (rule call)
  then show ?thesis by (rule rtranclp.rtrancl_into_rtrancl) (rule call)
qed

text \<open>C12: the chain of promises is a queue: every run of the lock, however its callers interleave, is a
  run of the queue that admits one caller at a time, in the order the calls were made, whether or
  not the functions they run throw.\<close>

theorem lock_is_fifo:
  assumes "lock_step\<^sup>*\<^sup>* new_lock l"
  shows "\<exists>q. fifo_step\<^sup>*\<^sup>* new_fifo q \<and> represents q l"
  by (rule reachable_simulated [OF assms])

theorem lock_is_fifo_witness:
  "\<exists>q. fifo_step\<^sup>*\<^sup>* new_fifo q \<and> represents q (lock_call (lock_call new_lock))"
  by (rule lock_is_fifo [OF two_calls])

text \<open>C13: the lock never deadlocks and never holds two at once: in every state that can be reached at
  most one caller is inside, \<open>lock_held\<close> says whether one is, and when none is, the longest waiting
  caller, if there is one, can enter at once.\<close>

theorem lock_exclusive_and_live:
  assumes "lock_step\<^sup>*\<^sup>* new_lock l"
  shows "length (filter (\<lambda>c. snd c = Running) (lk_calls l)) = lk_depth l \<and> lk_depth l \<le> 1
    \<and> (lock_held l \<or> filter (\<lambda>c. snd c \<noteq> Released) (lk_calls l) = [] \<or>
       (\<exists>i. lock_enter i l \<noteq> None \<and> list_all (\<lambda>c. snd c = Released) (take i (lk_calls l))))"
proof -
  obtain q where r: "represents q l" using reachable_simulated [OF assms] by blast
  have "map snd (lk_calls l) = replicate (fq_done q) Released @ (if fq_inside q then [Running] else [])
      @ replicate (fq_arrived q - fq_done q - lk_depth l) Waiting"
    using r by (intro nth_equalityI) (auto simp: represents_def phase_at_def nth_append)
  then have count: "length (filter (\<lambda>p. p = Running) (map snd (lk_calls l))) = lk_depth l"
    using r by (simp add: represents_def)
  have rel: "snd (lk_calls l ! i) = phase_at q i" if "i < fq_arrived q" for i
    using r represents_length [OF r] that by (simp add: represents_nth)
  have "\<exists>i. lock_enter i l \<noteq> None \<and> list_all (\<lambda>c. snd c = Released) (take i (lk_calls l))"
    if "\<not> lock_held l" "fq_done q < fq_arrived q"
  proof (intro exI conjI)
    have "\<not> fq_inside q" using that(1) r by (auto simp: lock_held_def represents_def)
    then show "lock_enter (fq_done q) l \<noteq> None"
      using r that(2) by (auto simp: lock_enter_def represents_def phase_at_def)
    show "list_all (\<lambda>c. snd c = Released) (take (fq_done q) (lk_calls l))"
      using r that(2) by (auto simp: list_all_iff in_set_conv_nth represents_def phase_at_def)
  qed
  moreover have "filter (\<lambda>c. snd c \<noteq> Released) (lk_calls l) = []" if "fq_done q = fq_arrived q"
    using r that by (auto simp: represents_def filter_empty_conv phase_at_def)
  moreover have "lk_depth l \<le> 1" "fq_done q \<le> fq_arrived q" using r by (auto simp: represents_def)
  ultimately show ?thesis using count by (simp add: filter_map comp_def) (metis le_neq_implies_less)
qed

theorem lock_exclusive_and_live_witness:
  "lk_depth (lock_call (lock_call new_lock)) \<le> 1"
  using lock_exclusive_and_live [OF two_calls] by blast

end
