(* ===== verification/Encoding.thy ===== *)
theory Encoding
  imports Prelude
begin

section \<open>Encodings of the platform: base64, base64url, percent-encoding\<close>

text \<open>
  The functions of the language's library that cookies, tokens, hashes and query strings are written
  with: \<open>Buffer.toString('base64')\<close> and \<open>'base64url'\<close> with their common decoder (it takes either
  alphabet and skips every other character), \<open>encodeURIComponent\<close>, and the form encoding of
  \<open>URLSearchParams\<close>. A byte is a number below 256; a string is the list of its bytes.
\<close>

definition bytes_of :: "string \<Rightarrow> nat list" where
  "bytes_of s = map of_char s"

definition string_of :: "nat list \<Rightarrow> string" where
  "string_of bs = map char_of bs"

lemma string_of_bytes_of [simp]: "string_of (bytes_of s) = s"
  by (simp add: string_of_def bytes_of_def comp_def)

definition byte_list :: "nat list \<Rightarrow> bool" where
  "byte_list bs = list_all (\<lambda>b. b < 256) bs"

lemma byte_list_bytes_of [simp]: "byte_list (bytes_of s)"
  by (auto simp: byte_list_def bytes_of_def list_all_iff)

subsection \<open>Base64\<close>

definition base64_common :: string where
  "base64_common = ''ABCDEFGHIJKLMNOPQRSTUVWXYZabcdefghijklmnopqrstuvwxyz0123456789''"

definition base64_digit :: "bool \<Rightarrow> nat \<Rightarrow> char" where
  "base64_digit url d = (if d < 62 then base64_common ! d
     else if d = 62 then (if url then CHR ''-'' else CHR ''+'') else (if url then CHR ''_'' else CHR ''/''))"

fun base64_digits :: "nat list \<Rightarrow> nat list" where
  "base64_digits [] = []"
| "base64_digits [a] = [a div 4, a mod 4 * 16]"
| "base64_digits [a, b] = [a div 4, a mod 4 * 16 + b div 16, b mod 16 * 4]"
| "base64_digits (a # b # c # bs) = a div 4 # (a mod 4 * 16 + b div 16) # (b mod 16 * 4 + c div 64) # c mod 64 # base64_digits bs"

definition base64url :: "nat list \<Rightarrow> string" where
  "base64url bs = map (base64_digit True) (base64_digits bs)"

definition base64 :: "nat list \<Rightarrow> string" where
  "base64 bs = (let ds = map (base64_digit False) (base64_digits bs)
     in ds @ replicate ((4 - length ds mod 4) mod 4) (CHR ''=''))"

definition base64_value :: "char \<Rightarrow> nat option" where
  "base64_value c =
     (if is_upper c then Some (of_char c - 65)
      else if is_lower c then Some (of_char c - 71)
      else if is_digit c then Some (of_char c + 4)
      else if c = CHR ''-'' \<or> c = CHR ''+'' then Some 62
      else if c = CHR ''_'' \<or> c = CHR ''/'' then Some 63 else None)"

fun base64_join :: "nat list \<Rightarrow> nat list" where
  "base64_join (p # q # r # s # ds) = (p * 4 + q div 16) # (q mod 16 * 16 + r div 4) # (r mod 4 * 64 + s) # base64_join ds"
| "base64_join [p, q, r] = [p * 4 + q div 16, q mod 16 * 16 + r div 4]"
| "base64_join [p, q] = [p * 4 + q div 16]"
| "base64_join _ = []"

definition base64_decode :: "string \<Rightarrow> nat list" where
  "base64_decode s = base64_join (List.map_filter base64_value s)"

lemma base64_value_digit: "d < 64 \<Longrightarrow> base64_value (base64_digit url d) = Some d"
proof -
  assume "d < 64"
  then have "d \<in> set [0..<64]" by simp
  moreover have "list_all (\<lambda>d. base64_value (base64_digit True d) = Some d) [0..<64]"
    "list_all (\<lambda>d. base64_value (base64_digit False d) = Some d) [0..<64]" by code_simp+
  ultimately show ?thesis by (cases url) (simp_all only: list_all_iff)
qed

lemma base64_digits_bound: "byte_list bs \<Longrightarrow> list_all (\<lambda>d. d < 64) (base64_digits bs)"
  by (induction bs rule: base64_digits.induct) (auto simp: byte_list_def)

lemma base64_join_digits: "byte_list bs \<Longrightarrow> base64_join (base64_digits bs) = bs"
proof (induction bs rule: base64_digits.induct)
  case (4 a b c bs)
  then have b: "a < 256" "b < 256" "c < 256" "byte_list bs" by (simp_all add: byte_list_def)
  have "(a mod 4 * 16 + b div 16) div 16 = a mod 4" "(a mod 4 * 16 + b div 16) mod 16 = b div 16"
    "(b mod 16 * 4 + c div 64) div 4 = b mod 16" "(b mod 16 * 4 + c div 64) mod 4 = c div 64"
    using b by simp_all
  then show ?case using 4(1) b by simp
next
  case (3 a b)
  then have "b < 16 * 16" by (simp add: byte_list_def)
  then have "b div 16 < 16" by (rule less_mult_imp_div_less)
  then show ?case by simp
qed (simp_all add: byte_list_def)

lemma map_filter_digits: "list_all (\<lambda>d. d < 64) ds \<Longrightarrow> List.map_filter base64_value (map (base64_digit url) ds @ replicate n (CHR ''='')) = ds"
proof (induction ds)
  case Nil
  have "base64_value (CHR ''='') = None" by code_simp
  then show ?case by (induction n) (simp_all add: map_filter_simps)
qed (simp add: map_filter_simps base64_value_digit)

lemma base64url_roundtrip: "byte_list bs \<Longrightarrow> base64_decode (base64url bs) = bs"
  using map_filter_digits [of "base64_digits bs" True 0]
  by (simp add: base64_decode_def base64url_def base64_digits_bound base64_join_digits)

lemma base64_roundtrip: "byte_list bs \<Longrightarrow> base64_decode (base64 bs) = bs"
  by (simp add: base64_decode_def base64_def Let_def map_filter_digits base64_digits_bound base64_join_digits)

lemma base64_no_special: "d < 64 \<Longrightarrow> base64_digit url d \<noteq> CHR ''.'' \<and> base64_digit url d \<noteq> CHR ''$''"
proof -
  assume "d < 64"
  then have "d \<in> set [0..<64]" by simp
  moreover have "list_all (\<lambda>d. base64_digit True d \<noteq> CHR ''.'' \<and> base64_digit True d \<noteq> CHR ''$'') [0..<64]"
    "list_all (\<lambda>d. base64_digit False d \<noteq> CHR ''.'' \<and> base64_digit False d \<noteq> CHR ''$'') [0..<64]" by code_simp+
  ultimately show ?thesis by (cases url) (simp_all only: list_all_iff simp_thms)
qed

lemma base64url_no_dot:
  assumes "byte_list bs"
  shows "CHR ''.'' \<notin> set (base64url bs)"
proof
  assume "CHR ''.'' \<in> set (base64url bs)"
  then obtain d where "d \<in> set (base64_digits bs)" "base64_digit True d = CHR ''.''" by (auto simp: base64url_def)
  with base64_digits_bound [OF assms] base64_no_special show False by (simp add: list_all_iff)
qed

lemma base64_no_dollar:
  assumes "byte_list bs"
  shows "CHR ''$'' \<notin> set (base64 bs)"
proof
  assume "CHR ''$'' \<in> set (base64 bs)"
  then obtain d where "d \<in> set (base64_digits bs)" "base64_digit False d = CHR ''$''" by (auto simp: base64_def Let_def)
  with base64_digits_bound [OF assms] base64_no_special show False by (simp add: list_all_iff)
qed

lemma base64_digits_Nil [simp]: "base64_digits bs = [] \<longleftrightarrow> bs = []"
  by (induction bs rule: base64_digits.induct) simp_all

lemma base64url_Nil [simp]: "base64url bs = [] \<longleftrightarrow> bs = []"
  by (simp add: base64url_def)

lemma base64_Nil [simp]: "base64 bs = [] \<longleftrightarrow> bs = []"
  by (cases bs rule: base64_digits.cases) (simp_all add: base64_def Let_def)

subsection \<open>Query strings\<close>

definition upper_hex :: "nat \<Rightarrow> char" where
  "upper_hex d = (if d < 10 then char_of (48 + d) else char_of (55 + d))"

definition percent :: "char \<Rightarrow> string" where
  "percent c = [CHR ''%'', upper_hex (of_char c div 16), upper_hex (of_char c mod 16)]"

definition alphanumeric :: "char \<Rightarrow> bool" where
  "alphanumeric c = (is_upper c \<or> is_lower c \<or> is_digit c)"

definition encode_uri_component :: "string \<Rightarrow> string" where
  "encode_uri_component s = concat (map (\<lambda>c. if alphanumeric c \<or> c \<in> set ''-_.!~*()'' \<or> [c] = sq then [c] else percent c) s)"

definition form_encode :: "string \<Rightarrow> string" where
  "form_encode s = concat (map (\<lambda>c. if c = CHR '' '' then ''+'' else if alphanumeric c \<or> c \<in> set ''-_.*'' then [c] else percent c) s)"

definition form_body :: "(string \<times> string) list \<Rightarrow> string" where
  "form_body ps = join ''&'' (map (\<lambda>(k, v). form_encode k @ ''='' @ form_encode v) ps)"

end
