(* ===== verification/Base32.thy ===== *)
theory Base32
  imports Prelude "HOL-Library.Word"
begin

section \<open>Base32 of the TOTP secret (src/auth/base32.ts)\<close>

text \<open>
  \<open>encodeBase32\<close> and \<open>decodeBase32\<close> as the code has them: an accumulator that is shifted
  left and never masked, so that its upper bits fall off a 32-bit word. A byte is a \<^typ>\<open>nat\<close>
  below 256. The lemmas relate the accumulator to the number its pending bits denote, on which the
  round trip is a statement about division.
\<close>

unbundle bit_operations_syntax

definition base32_alphabet :: string where
  "base32_alphabet = ''ABCDEFGHIJKLMNOPQRSTUVWXYZ234567''"

definition index_of :: "char \<Rightarrow> string \<Rightarrow> nat option" where
  "index_of c s = (let n = length (takeWhile (\<lambda>d. d \<noteq> c) s) in if n < length s then Some n else None)"

definition strip_padding :: "string \<Rightarrow> string" where
  "strip_padding s = rev (dropWhile (\<lambda>c. c = CHR ''='') (rev s))"

definition base32_clean :: "string \<Rightarrow> string" where
  "base32_clean s = filter (\<lambda>c. \<not> is_ws c) (strip_padding (to_upper s))"

fun decode_loop :: "nat \<Rightarrow> 32 word \<Rightarrow> string \<Rightarrow> string + nat list" where
  "decode_loop bits v [] = Inr []"
| "decode_loop bits v (c # cs) =
     (case index_of c base32_alphabet of
        None \<Rightarrow> Inl (''invalid base32 character: '' @ [c])
      | Some i \<Rightarrow>
          (let v' = push_bit 5 v OR of_nat i; b = bits + 5
           in if 8 \<le> b
              then (case decode_loop (b - 8) v' cs of
                      Inl e \<Rightarrow> Inl e
                    | Inr out \<Rightarrow> Inr (unat (drop_bit (b - 8) v' AND 255) # out))
              else decode_loop b v' cs))"

definition decode_base32 :: "string \<Rightarrow> string + nat list" where
  "decode_base32 s = decode_loop 0 0 (base32_clean s)"

text \<open>The inner \<open>while\<close> of the encoder: the digits it emits and the bits it leaves.\<close>

fun emit_digits :: "nat \<Rightarrow> 32 word \<Rightarrow> string \<times> nat" where
  "emit_digits bits v =
     (if 5 \<le> bits
      then (let (s, b) = emit_digits (bits - 5) v
            in (base32_alphabet ! unat (drop_bit (bits - 5) v AND 31) # s, b))
      else ([], bits))"

declare emit_digits.simps [simp del]

fun encode_loop :: "nat \<Rightarrow> 32 word \<Rightarrow> nat list \<Rightarrow> string" where
  "encode_loop bits v [] =
     (if 0 < bits then [base32_alphabet ! unat (push_bit (5 - bits) v AND 31)] else [])"
| "encode_loop bits v (b # bs) =
     (let v' = push_bit 8 v OR of_nat b; (s, bits') = emit_digits (bits + 8) v'
      in s @ encode_loop bits' v' bs)"

definition encode_base32 :: "nat list \<Rightarrow> string" where
  "encode_base32 bs = encode_loop 0 0 bs"

lemma to_upper_append [simp]: "to_upper (s @ t) = to_upper s @ to_upper t"
  by (simp add: to_upper_def)

subsection \<open>The pending bits of the accumulator\<close>

lemma or_disjoint_add: "b < 2 ^ k \<Longrightarrow> push_bit k (a::nat) OR b = a * 2 ^ k + b"
proof -
  assume "b < 2 ^ k"
  then have b: "take_bit k b = b" by (simp add: take_bit_nat_eq_self)
  have "push_bit k a AND b = 0"
    by (rule bit_eqI) (metis b bit_0_eq bit_and_iff bit_push_bit_iff bit_take_bit_iff bot_apply bot_bool_def not_le)
  then have "push_bit k a OR b = push_bit k a + b" by (simp add: disjunctive_add_eq_or)
  then show ?thesis by (simp add: push_bit_eq_mult)
qed

lemma pending_shift:
  fixes v :: "32 word"
  assumes "n + k \<le> 32" and "b < 2 ^ k"
  shows "take_bit (n + k) (unat (push_bit k v OR of_nat b)) = take_bit n (unat v) * 2 ^ k + b"
proof -
  have k: "k \<le> 32" using assms(1) by simp
  have "b < 2 ^ 32" using assms(2) k by (meson le_less_trans less_le_trans one_le_numeral order_less_imp_le power_increasing)
  then have "unat (of_nat b :: 32 word) = b" by (simp add: unat_of_nat take_bit_nat_eq_self take_bit_eq_mod)
  then have "unat (push_bit k v OR of_nat b) = take_bit 32 (push_bit k (unat v)) OR b"
    by (simp add: unsigned_or_eq unsigned_push_bit_eq)
  moreover have "take_bit (n + k) b = b"
    using assms(2) by (simp add: take_bit_nat_eq_self_iff)
      (meson less_le_trans le_add2 one_le_numeral power_increasing)
  ultimately have "take_bit (n + k) (unat (push_bit k v OR of_nat b))
      = take_bit (n + k) (push_bit k (unat v)) OR b"
    using assms(1) by (simp add: take_bit_or)
  also have "take_bit (n + k) (push_bit k (unat v)) = push_bit k (take_bit n (unat v))"
    by (simp add: take_bit_push_bit)
  finally show ?thesis using assms(2) by (simp add: or_disjoint_add)
qed

lemma take_unat_32: "take_bit 32 (unat (v :: 32 word)) = unat v"
proof -
  have "unat v < 2 ^ LENGTH(32)" by (rule unsigned_less)
  then show ?thesis by (simp add: take_bit_nat_eq_self)
qed

lemma emit_value:
  fixes v :: "32 word"
  assumes "take_bit (n + k) (unat v) = p" and "k \<le> 32"
  shows "unat (drop_bit n v AND mask k) = p div 2 ^ n" and "take_bit n (unat v) = p mod 2 ^ n"
proof -
  have "unat (drop_bit n v AND mask k) = take_bit k (drop_bit n (unat v))"
    by (simp add: unsigned_take_bit_eq unsigned_drop_bit_eq take_unat_32 flip: take_bit_eq_mask)
  also have "\<dots> = drop_bit n (take_bit (n + k) (unat v))"
    by (simp add: drop_bit_take_bit)
  finally show "unat (drop_bit n v AND mask k) = p div 2 ^ n"
    using assms(1) by (simp add: drop_bit_eq_div)
  have "take_bit n (take_bit (n + k) (unat v)) = take_bit n (unat v)" by simp
  then show "take_bit n (unat v) = p mod 2 ^ n"
    using assms(1) by (metis take_bit_eq_mod)
qed

lemma power_split: "k \<le> n \<Longrightarrow> (2::nat) ^ n = 2 ^ k * 2 ^ (n - k)"
  by (simp flip: power_add)

lemma mask_5: "(31 :: 32 word) = mask 5"
  by (simp add: mask_numeral)

lemma mask_8: "(255 :: 32 word) = mask 8"
  by (simp add: mask_numeral)

subsection \<open>One digit, one byte\<close>

lemma index_alphabet: "i < 32 \<Longrightarrow> index_of (base32_alphabet ! i) base32_alphabet = Some i"
proof -
  have "list_all (\<lambda>i. index_of (base32_alphabet ! i) base32_alphabet = Some i) [0..<32]"
    by code_simp
  then show "i < 32 \<Longrightarrow> index_of (base32_alphabet ! i) base32_alphabet = Some i"
    by (simp add: list_all_iff)
qed

lemma decode_digit:
  assumes "i < 32" and "bits < 8" and "take_bit bits (unat v) = p"
  shows "\<exists>v'. decode_loop bits v (base32_alphabet ! i # cs) =
      (if 3 \<le> bits then bind_err (decode_loop (bits - 3) v' cs) (\<lambda>out. Inr ((p * 32 + i) div 2 ^ (bits - 3) # out))
       else decode_loop (bits + 5) v' cs)
    \<and> take_bit (bits + 5) (unat v') = p * 32 + i
    \<and> (3 \<le> bits \<longrightarrow> p * 32 + i < 2 ^ 8 * 2 ^ (bits - 3) \<and> take_bit (bits - 3) (unat v') = (p * 32 + i) mod 2 ^ (bits - 3))"
proof -
  let ?v = "push_bit 5 v OR of_nat i :: 32 word"
  have p: "take_bit (bits + 5) (unat ?v) = p * 32 + i"
    using pending_shift [of bits 5 i v] assms by simp
  have "p * 32 + i < 2 ^ (bits + 5)"
    unfolding p [symmetric] by simp
  then have lt: "3 \<le> bits \<Longrightarrow> p * 32 + i < 2 ^ 8 * 2 ^ (bits - 3)"
    by (simp add: power_split [of 8 "bits + 5"])
  have sum: "bits + 5 = bits - 3 + 8" if "3 \<le> bits" using that by simp
  have q: "unat (drop_bit (bits - 3) ?v AND 255) = (p * 32 + i) div 2 ^ (bits - 3)"
      "take_bit (bits - 3) (unat ?v) = (p * 32 + i) mod 2 ^ (bits - 3)" if "3 \<le> bits"
    using emit_value [where k = 8, OF p [unfolded sum [OF that]]] by (simp_all add: mask_8)
  have sub: "bits + 5 - 8 = bits - 3" by simp
  have "decode_loop bits v (base32_alphabet ! i # cs) =
      (if 3 \<le> bits then bind_err (decode_loop (bits - 3) ?v cs) (\<lambda>out. Inr ((p * 32 + i) div 2 ^ (bits - 3) # out))
       else decode_loop (bits + 5) ?v cs)"
    using assms q by (simp add: index_alphabet Let_def bind_err_def sub split: sum.split)
  with p q lt show ?thesis by blast
qed

lemma last_digit:
  assumes "take_bit bits (unat v) = p" and "bits < 5"
  shows "unat (push_bit (5 - bits) v AND (31 :: 32 word)) = p * 2 ^ (5 - bits)"
proof -
  have "take_bit (bits + (5 - bits)) (unat (push_bit (5 - bits) v OR of_nat 0)) = p * 2 ^ (5 - bits) + 0"
    using pending_shift [of bits "5 - bits" 0 v] assms by simp
  then have "take_bit 5 (unat (push_bit (5 - bits) v)) = p * 2 ^ (5 - bits)"
    using assms(2) by simp
  then show ?thesis
    by (simp add: mask_5 unsigned_take_bit_eq flip: take_bit_eq_mask)
qed

lemma emit_one:
  assumes "take_bit n (unat v) = p" and "5 \<le> n" and "n < 10"
  shows "\<exists>i. i < 32 \<and> i = p div 2 ^ (n - 5) \<and> emit_digits n v = ([base32_alphabet ! i], n - 5)
    \<and> take_bit (n - 5) (unat v) = p mod 2 ^ (n - 5)"
proof -
  have e: "unat (drop_bit (n - 5) v AND 31) = p div 2 ^ (n - 5)" "take_bit (n - 5) (unat v) = p mod 2 ^ (n - 5)"
    using emit_value [of "n - 5" 5 v p] assms by (simp_all add: mask_5)
  have "p < 2 ^ n" unfolding assms(1) [symmetric] by simp
  then have "p div 2 ^ (n - 5) < 32"
    using assms(2) by (simp add: div_less_iff_less_mult power_split [of 5 n])
  moreover have "emit_digits n v = ([base32_alphabet ! (p div 2 ^ (n - 5))], n - 5)"
  proof -
    have "\<not> 5 \<le> n - 5" using assms(3) by simp
    then have "emit_digits (n - 5) v = ([], n - 5)" by (simp add: emit_digits.simps [of "n - 5"])
    then show ?thesis using assms(2) e by (simp add: emit_digits.simps [of n])
  qed
  ultimately show ?thesis using e by blast
qed

lemma emit_two:
  assumes "take_bit n (unat v) = p" and "10 \<le> n" and "n < 15"
  shows "\<exists>i j. i < 32 \<and> j < 32 \<and> i = p div 2 ^ (n - 5) \<and> j = p mod 2 ^ (n - 5) div 2 ^ (n - 10)
    \<and> emit_digits n v = ([base32_alphabet ! i, base32_alphabet ! j], n - 10)
    \<and> take_bit (n - 10) (unat v) = p mod 2 ^ (n - 10)"
proof -
  have e: "unat (drop_bit (n - 5) v AND 31) = p div 2 ^ (n - 5)" "take_bit (n - 5) (unat v) = p mod 2 ^ (n - 5)"
    using emit_value [of "n - 5" 5 v p] assms by (simp_all add: mask_5)
  obtain j where j: "j < 32" "j = p mod 2 ^ (n - 5) div 2 ^ (n - 5 - 5)"
      "emit_digits (n - 5) v = ([base32_alphabet ! j], n - 5 - 5)"
      "take_bit (n - 5 - 5) (unat v) = p mod 2 ^ (n - 5) mod 2 ^ (n - 5 - 5)"
    using emit_one [OF e(2)] assms by auto
  have "p < 2 ^ n" unfolding assms(1) [symmetric] by simp
  then have i: "p div 2 ^ (n - 5) < 32"
    using assms(2) by (simp add: div_less_iff_less_mult power_split [of 5 n])
  have "emit_digits n v = ([base32_alphabet ! (p div 2 ^ (n - 5)), base32_alphabet ! j], n - 5 - 5)"
    using assms(2) e j by (simp add: emit_digits.simps [of n])
  moreover have "take_bit (n - 10) (unat v) = p mod 2 ^ (n - 10)"
    using emit_value(2) [of "n - 10" 10 v p] assms by simp
  moreover have "n - 5 - 5 = n - 10" by simp
  ultimately show ?thesis using i j by metis
qed

subsection \<open>The round trip\<close>

lemma div_mod_of:
  fixes a :: nat
  assumes "a = q * m + r" and "r < m"
  shows "a div m = q" and "a mod m = r"
  using assms by (auto simp: div_mult_self3)

lemma split_byte: "\<exists>q r. (b::nat) = q * m + r \<and> r < m" if "0 < m"
  using that by (intro exI [of _ "b div m"] exI [of _ "b mod m"]) simp

lemma regroup_1:
  fixes b :: nat
  assumes "pe < 2" "b < 256"
  shows "(pd * 32 + (pe * 256 + b) div 16) div 16 = pd * 2 + pe"
    and "(pd * 32 + (pe * 256 + b) div 16) mod 16 * 16 + (pe * 256 + b) mod 16 = b"
proof -
  obtain q r where b: "b = q * 16 + r" "r < 16" using split_byte [of 16 b] by auto
  then have q: "q < 16" using assms by simp
  have P: "(pe * 256 + b) div 16 = pe * 16 + q" "(pe * 256 + b) mod 16 = r"
    by (rule div_mod_of [where r = r and q = "pe * 16 + q"]; use b in simp)+
  have "(pd * 32 + (pe * 16 + q)) div 16 = pd * 2 + pe" "(pd * 32 + (pe * 16 + q)) mod 16 = q"
    by (rule div_mod_of [where r = q and q = "pd * 2 + pe"]; use q in simp)+
  then show "(pd * 32 + (pe * 256 + b) div 16) div 16 = pd * 2 + pe"
    and "(pd * 32 + (pe * 256 + b) div 16) mod 16 * 16 + (pe * 256 + b) mod 16 = b"
    unfolding P using b(1) by simp_all
qed

lemma encode_bound: "take_bit be (unat (ve :: 32 word)) = pe \<Longrightarrow> b < 256 \<Longrightarrow> be < 5 \<Longrightarrow>
    take_bit (be + 8) (unat (push_bit 8 ve OR of_nat b)) = pe * 256 + b"
  using pending_shift [of be 8 b ve] by simp

lemma regroup_2:
  fixes b :: nat
  assumes "b < 256"
  shows "(pd * 32 + (pe * 256 + b) div 32) div 8 = pd * 4 + pe"
    and "(pd * 32 + (pe * 256 + b) div 32) mod 8 * 32 + (pe * 256 + b) mod 32 = b"
proof -
  obtain q r where b: "b = q * 32 + r" "r < 32" using split_byte [of 32 b] by auto
  then have q: "q < 8" using assms by simp
  have P: "(pe * 256 + b) div 32 = pe * 8 + q" "(pe * 256 + b) mod 32 = r"
    by (rule div_mod_of [where r = r and q = "pe * 8 + q"]; use b in simp)+
  have "(pd * 32 + (pe * 8 + q)) div 8 = pd * 4 + pe" "(pd * 32 + (pe * 8 + q)) mod 8 = q"
    by (rule div_mod_of [where r = q and q = "pd * 4 + pe"]; use q in simp)+
  then show "(pd * 32 + (pe * 256 + b) div 32) div 8 = pd * 4 + pe"
    and "(pd * 32 + (pe * 256 + b) div 32) mod 8 * 32 + (pe * 256 + b) mod 32 = b"
    unfolding P using b(1) by simp_all
qed

lemma regroup_3:
  fixes b :: nat
  assumes "b < 256"
  shows "(pd * 32 + (pe * 256 + b) div 64) div 4 = pd * 8 + pe"
    and "((pd * 32 + (pe * 256 + b) div 64) mod 4 * 32 + (pe * 256 + b) mod 64 div 2) * 2 + (pe * 256 + b) mod 2 = b"
proof -
  obtain q r where b: "b = q * 64 + r" "r < 64" using split_byte [of 64 b] by auto
  obtain s t where r: "r = s * 2 + t" "t < 2" using split_byte [of 2 r] by auto
  have q: "q < 4" using assms b by simp
  have P: "(pe * 256 + b) div 64 = pe * 4 + q" "(pe * 256 + b) mod 64 = r"
    by (rule div_mod_of [where r = r and q = "pe * 4 + q"]; use b in simp)+
  have S: "r div 2 = s" by (rule div_mod_of [OF r])
  have T: "(pe * 256 + b) mod 2 = t"
    by (rule div_mod_of [where q = "pe * 128 + q * 32 + s"]; use b r in simp)
  have "(pd * 32 + (pe * 4 + q)) div 4 = pd * 8 + pe" "(pd * 32 + (pe * 4 + q)) mod 4 = q"
    by (rule div_mod_of [where r = q and q = "pd * 8 + pe"]; use q in simp)+
  then show "(pd * 32 + (pe * 256 + b) div 64) div 4 = pd * 8 + pe"
    and "((pd * 32 + (pe * 256 + b) div 64) mod 4 * 32 + (pe * 256 + b) mod 64 div 2) * 2 + (pe * 256 + b) mod 2 = b"
    unfolding P S T using b(1) r(1) by simp_all
qed

lemma regroup_4:
  fixes b :: nat
  assumes "b < 256"
  shows "(pd * 32 + (pe * 256 + b) div 128) div 2 = pd * 16 + pe"
    and "((pd * 32 + (pe * 256 + b) div 128) mod 2 * 32 + (pe * 256 + b) mod 128 div 4) * 4 + (pe * 256 + b) mod 4 = b"
proof -
  obtain q r where b: "b = q * 128 + r" "r < 128" using split_byte [of 128 b] by auto
  obtain s t where r: "r = s * 4 + t" "t < 4" using split_byte [of 4 r] by auto
  have q: "q < 2" using assms b by simp
  have P: "(pe * 256 + b) div 128 = pe * 2 + q" "(pe * 256 + b) mod 128 = r"
    by (rule div_mod_of [where r = r and q = "pe * 2 + q"]; use b in simp)+
  have S: "r div 4 = s" by (rule div_mod_of [OF r])
  have T: "(pe * 256 + b) mod 4 = t"
    by (rule div_mod_of [where q = "pe * 64 + q * 32 + s"]; use b r in simp)
  have "(pd * 32 + (pe * 2 + q)) div 2 = pd * 16 + pe" "(pd * 32 + (pe * 2 + q)) mod 2 = q"
    by (rule div_mod_of [where r = q and q = "pd * 16 + pe"]; use q in simp)+
  then show "(pd * 32 + (pe * 256 + b) div 128) div 2 = pd * 16 + pe"
    and "((pd * 32 + (pe * 256 + b) div 128) mod 2 * 32 + (pe * 256 + b) mod 128 div 4) * 4 + (pe * 256 + b) mod 4 = b"
    unfolding P S T using b(1) r(1) by simp_all
qed

lemma roundtrip_loop:
  assumes "\<forall>b \<in> set bs. b < 256"
  shows "take_bit be (unat ve) = pe \<Longrightarrow> take_bit bd (unat vd) = pd \<Longrightarrow>
    be < 5 \<Longrightarrow> be + bd = (if be = 0 then 0 else 8) \<Longrightarrow>
    decode_loop bd vd (encode_loop be ve bs) = Inr ((if be = 0 then [] else [pd * 2 ^ be + pe]) @ bs)"
  using assms
proof (induction bs arbitrary: be ve pe bd vd pd)
  case Nil
  show ?case
  proof (cases "be = 0")
    case True
    then show ?thesis using Nil by simp
  next
    case False
    with Nil have bd: "bd = 8 - be" "3 \<le> bd" "bd < 8" by auto
    let ?i = "pe * 2 ^ (5 - be)"
    have pe: "pe < 2 ^ be" unfolding Nil(1) [symmetric] by simp
    then have "?i < 2 ^ be * 2 ^ (5 - be)" by simp
    then have i: "?i < 32" using Nil(3) by (simp add: power_split [of be 5, symmetric])
    have enc: "encode_loop be ve [] = [base32_alphabet ! ?i]"
      using False last_digit [OF Nil(1) Nil(3)] by simp
    from decode_digit [OF i bd(3) Nil(2), of "[]"] bd obtain v' where
      dec: "decode_loop bd vd [base32_alphabet ! ?i] = bind_err (decode_loop (bd - 3) v' []) (\<lambda>out. Inr ((pd * 32 + ?i) div 2 ^ (bd - 3) # out))"
      by auto
    have "bd - 3 = 5 - be" using bd by simp
    moreover have "pd * 32 + ?i = (pd * 2 ^ be + pe) * 2 ^ (5 - be)"
      using Nil(3) power_split [of be 5] by (simp add: algebra_simps)
    ultimately show ?thesis using False unfolding enc dec by simp
  qed
next
  case (Cons b bs)
  have b: "b < 256" and bs: "\<forall>b \<in> set bs. b < 256" using Cons.prems(5) by auto
  let ?v = "push_bit 8 ve OR of_nat b :: 32 word"
  let ?P = "pe * 256 + b"
  have P: "take_bit (be + 8) (unat ?v) = ?P"
    by (rule encode_bound [OF Cons.prems(1) b Cons.prems(3)])
  have pe: "pe < 2 ^ be" unfolding Cons.prems(1) [symmetric] by simp
  have pd: "pd < 2 ^ bd" unfolding Cons.prems(2) [symmetric] by simp
  have cases5: "be = 0 \<or> be = 1 \<or> be = 2 \<or> be = 3 \<or> be = 4" using Cons.prems(3) by auto
  show ?case
  proof (cases "be < 2")
    case True
    then obtain i where i: "i < 32" "i = ?P div 2 ^ (be + 3)" "emit_digits (be + 8) ?v = ([base32_alphabet ! i], be + 3)"
        "take_bit (be + 3) (unat ?v) = ?P mod 2 ^ (be + 3)"
      using emit_one [OF P] by (auto simp: add.commute [of 3 be])
    have enc: "encode_loop be ve (b # bs) = base32_alphabet ! i # encode_loop (be + 3) ?v bs"
      using i(3) by simp
    have bd: "bd < 8" using Cons.prems(3,4) by (simp split: if_splits)
    note IH = Cons.IH [OF i(4) _ _ _ bs]
    from decode_digit [OF i(1) bd Cons.prems(2), of "encode_loop (be + 3) ?v bs"] obtain v' where
      v': "decode_loop bd vd (base32_alphabet ! i # encode_loop (be + 3) ?v bs) =
        (if 3 \<le> bd then bind_err (decode_loop (bd - 3) v' (encode_loop (be + 3) ?v bs)) (\<lambda>out. Inr ((pd * 32 + i) div 2 ^ (bd - 3) # out))
         else decode_loop (bd + 5) v' (encode_loop (be + 3) ?v bs))"
        "take_bit (bd + 5) (unat v') = pd * 32 + i"
        "3 \<le> bd \<Longrightarrow> take_bit (bd - 3) (unat v') = (pd * 32 + i) mod 2 ^ (bd - 3)"
      by blast
    show ?thesis
    proof (cases "be = 0")
      case be0: True
      then have "bd = 0" "pe = 0" "pd = 0" using Cons.prems pe pd by auto
      with be0 show ?thesis
        unfolding enc v'(1) using IH [OF v'(2)] i(2) by simp
    next
      case False
      with True have "be = 1" by simp
      then have "bd = 7" using Cons.prems(4) by simp
      with \<open>be = 1\<close> show ?thesis
        unfolding enc v'(1) using IH [OF v'(3)] i(2) pe b by (simp add: regroup_1)
    qed
  next
    case False
    then obtain i j where i: "i < 32" "j < 32" "i = ?P div 2 ^ (be + 3)" "j = ?P mod 2 ^ (be + 3) div 2 ^ (be - 2)"
        "emit_digits (be + 8) ?v = ([base32_alphabet ! i, base32_alphabet ! j], be - 2)"
        "take_bit (be - 2) (unat ?v) = ?P mod 2 ^ (be - 2)"
      using emit_two [OF P] Cons.prems(3) by (auto simp: add.commute [of 3 be])
    let ?r = "encode_loop (be - 2) ?v bs"
    have enc: "encode_loop be ve (b # bs) = base32_alphabet ! i # base32_alphabet ! j # ?r"
      using i(5) by simp
    have bd: "bd = 8 - be" "3 \<le> bd" "bd < 8" using Cons.prems(3,4) False by auto
    note IH = Cons.IH [OF i(6) _ _ _ bs]
    from decode_digit [OF i(1) bd(3) Cons.prems(2), of "base32_alphabet ! j # ?r"] bd(2) obtain v' where
      v': "decode_loop bd vd (base32_alphabet ! i # base32_alphabet ! j # ?r) =
        bind_err (decode_loop (bd - 3) v' (base32_alphabet ! j # ?r)) (\<lambda>out. Inr ((pd * 32 + i) div 2 ^ (bd - 3) # out))"
        "take_bit (bd - 3) (unat v') = (pd * 32 + i) mod 2 ^ (bd - 3)"
      by auto
    have "bd - 3 < 8" using bd by simp
    from decode_digit [OF i(2) this v'(2), of ?r] obtain w where
      w: "decode_loop (bd - 3) v' (base32_alphabet ! j # ?r) =
        (if 3 \<le> bd - 3 then bind_err (decode_loop (bd - 3 - 3) w ?r) (\<lambda>out. Inr (((pd * 32 + i) mod 2 ^ (bd - 3) * 32 + j) div 2 ^ (bd - 3 - 3) # out))
         else decode_loop (bd - 3 + 5) w ?r)"
        "take_bit (bd - 3 + 5) (unat w) = (pd * 32 + i) mod 2 ^ (bd - 3) * 32 + j"
        "3 \<le> bd - 3 \<Longrightarrow> take_bit (bd - 3 - 3) (unat w) = ((pd * 32 + i) mod 2 ^ (bd - 3) * 32 + j) mod 2 ^ (bd - 3 - 3)"
      by blast
    from cases5 False consider "be = 2" "bd = 6" | "be = 3" "bd = 5" | "be = 4" "bd = 4" using bd by auto
    then show ?thesis
    proof cases
      case 1
      then show ?thesis
        unfolding enc v'(1) w(1) using IH [OF w(3)] i(3,4) pe b by (simp add: regroup_2)
    next
      case 2
      then show ?thesis
        unfolding enc v'(1) w(1) using IH [OF w(2)] i(3,4) pe b by (simp add: regroup_3 [simplified])
    next
      case 3
      then show ?thesis
        unfolding enc v'(1) w(1) using IH [OF w(2)] i(3,4) pe b by (simp add: regroup_4 [simplified])
    qed
  qed
qed

lemma nth_alphabet: "i < 32 \<Longrightarrow> base32_alphabet ! i \<in> set base32_alphabet"
  by (rule nth_mem) (simp add: base32_alphabet_def)

lemma word_and_31: "unat (v AND (31 :: 32 word)) < 32"
proof -
  have "unat (v AND 31) = take_bit 5 (unat v)"
    by (simp add: mask_5 unsigned_take_bit_eq flip: take_bit_eq_mask)
  also have "\<dots> < 2 ^ 5" by (rule take_bit_nat_less_exp)
  finally show ?thesis by simp
qed

lemma emit_digits_chars: "set (fst (emit_digits n v)) \<subseteq> set base32_alphabet"
proof (induction n v rule: emit_digits.induct)
  case (1 bits v)
  then show ?case
    by (cases "5 \<le> bits")
      (auto simp: emit_digits.simps [of bits] nth_alphabet word_and_31 split: prod.splits)
qed

lemma encode_loop_chars: "set (encode_loop bits v bs) \<subseteq> set base32_alphabet"
proof (induction bits v bs rule: encode_loop.induct)
  case (1 bits v)
  then show ?case by (auto simp: nth_alphabet word_and_31)
next
  case (2 bits v b bs)
  let ?e = "emit_digits (bits + 8) (push_bit 8 v OR of_nat b)"
  have "set (fst ?e) \<subseteq> set base32_alphabet" by (rule emit_digits_chars)
  moreover obtain t n where t: "?e = (t, n)" by fastforce
  ultimately show ?case using 2 by (simp add: t)
qed

lemma alphabet_upper: "c \<in> set base32_alphabet \<Longrightarrow>
    to_upper_char c = c \<and> to_upper_char (to_lower_char c) = c \<and> c \<noteq> CHR ''='' \<and> \<not> is_ws c"
proof -
  have "list_all (\<lambda>c. to_upper_char c = c \<and> to_upper_char (to_lower_char c) = c \<and> c \<noteq> CHR ''='' \<and> \<not> is_ws c) base32_alphabet"
    by (simp add: base32_alphabet_def to_upper_char_def to_lower_char_def is_upper_def is_lower_def
        less_eq_char_def is_ws_def char_of_def bit_Suc bit_Suc_0_iff)
  then show "c \<in> set base32_alphabet \<Longrightarrow> ?thesis" by (simp add: list_all_iff)
qed

lemma strip_padding_id: "CHR ''='' \<notin> set s \<Longrightarrow> strip_padding (s @ replicate n (CHR ''='')) = s"
proof -
  assume "CHR ''='' \<notin> set s"
  then have "dropWhile (\<lambda>c. c = CHR ''='') (rev s) = rev s"
    by (simp add: dropWhile_eq_self_iff) (metis hd_in_set rev.simps(1) rev_rev_ident set_rev)
  then have "dropWhile (\<lambda>c. c = CHR ''='') (replicate n (CHR ''='') @ rev s) = rev s"
    by (induction n) simp_all
  then show ?thesis by (simp add: strip_padding_def)
qed

text \<open>Cleaning folds the case and drops the padding and the white space.\<close>

lemma clean_upper:
  assumes "set s \<subseteq> set base32_alphabet"
  shows "base32_clean (s @ replicate n (CHR ''='')) = s"
    and "base32_clean (to_lower s @ replicate n (CHR ''='')) = s"
proof -
  have up: "to_upper s = s" "to_upper (to_lower s) = s"
    using assms alphabet_upper by (auto simp: to_upper_def to_lower_def intro!: map_idI)
  have pad: "to_upper (replicate n (CHR ''='')) = replicate n (CHR ''='')"
    by (simp add: to_upper_def to_upper_char_def is_lower_def less_eq_char_def)
  have "CHR ''='' \<notin> set s" "\<forall>c\<in>set s. \<not> is_ws c" using assms alphabet_upper by auto
  then show "base32_clean (s @ replicate n (CHR ''='')) = s"
    and "base32_clean (to_lower s @ replicate n (CHR ''='')) = s"
    using up pad by (simp_all add: base32_clean_def strip_padding_id to_upper_append)
qed

lemma decode_encode_loop:
  "\<forall>b \<in> set bs. b < 256 \<Longrightarrow> decode_loop 0 0 (encode_loop 0 0 bs) = Inr bs"
  using roundtrip_loop [of bs 0 0 0 0 0 0] by simp

lemma index_of_None [simp]: "index_of c s = None \<longleftrightarrow> c \<notin> set s"
  by (induction s) (auto simp: index_of_def Let_def)

lemma decode_loop_error: "decode_loop bits v s = Inl e \<Longrightarrow>
    \<exists>c \<in> set s. c \<notin> set base32_alphabet \<and> e = ''invalid base32 character: '' @ [c]"
proof (induction bits v s rule: decode_loop.induct)
  case (2 bits v c cs)
  then show ?case
    by (auto simp: Let_def split: option.splits sum.splits if_splits)
qed simp

subsection \<open>Properties\<close>

text \<open>What the encoder writes for any bytes, the decoder reads back, also when the digits are
  typed in lower case or carry padding; and the decoder refuses nothing but a character outside
  the alphabet. The accumulator is the 32-bit word of the code.\<close>

theorem base32_roundtrip:
  assumes "\<forall>b \<in> set bs. b < 256"
  shows "decode_base32 (encode_base32 bs) = Inr bs
    \<and> decode_base32 (to_lower (encode_base32 bs) @ replicate n (CHR ''='')) = Inr bs
    \<and> (\<forall>s e. decode_base32 s = Inl e \<longrightarrow>
        (\<exists>c \<in> set (base32_clean s). c \<notin> set base32_alphabet \<and> e = ''invalid base32 character: '' @ [c]))"
proof (intro conjI allI impI)
  have c: "set (encode_loop 0 0 bs) \<subseteq> set base32_alphabet" by (rule encode_loop_chars)
  show "decode_base32 (encode_base32 bs) = Inr bs"
    using clean_upper(1) [OF c, of 0] decode_encode_loop [OF assms]
    by (simp add: decode_base32_def encode_base32_def)
  show "decode_base32 (to_lower (encode_base32 bs) @ replicate n (CHR ''='')) = Inr bs"
    using clean_upper(2) [OF c] decode_encode_loop [OF assms]
    by (simp add: decode_base32_def encode_base32_def)
qed (auto simp: decode_base32_def dest: decode_loop_error)

theorem base32_roundtrip_witness:
  "decode_base32 (encode_base32 [0, 255, 72, 101, 108]) = Inr [0, 255, 72, 101, 108]"
  using base32_roundtrip [of "[0, 255, 72, 101, 108]"] by simp

end
