(* ===== verification/BreakGlass.thy ===== *)
theory BreakGlass
  imports Encoding Documents Base32
begin

section \<open>One-time passwords and the break-glass login (src/auth/totp.ts, src/auth/break-glass.ts)\<close>

text \<open>
  The one-time password of RFC 6238, the password hash, and the login that works only while the
  identity provider does not. Parameters: \<open>hmac\<close>, the HMAC-SHA1 of a key and a message, and
  \<open>scrypt\<close>, the derivation of a key from a password, a salt, a length and the cost parameters,
  which throws on parameters it does not accept. The state of the login is the counter spent last
  and the alerts raised; the clock, the reachability of the identity provider and the posted
  credentials are the input of an attempt.
\<close>

subsection \<open>totp.ts\<close>

definition step_seconds :: int where
  "step_seconds = 30"

definition tolerance :: nat where
  "tolerance = 1"

definition totp_counter :: "int \<Rightarrow> int" where
  "totp_counter seconds = seconds div step_seconds"

definition be_bytes :: "nat \<Rightarrow> nat list" where
  "be_bytes n = map (\<lambda>i. n div 256 ^ (7 - i) mod 256) [0..<8]"

definition byte_at :: "nat list \<Rightarrow> nat \<Rightarrow> nat" where
  "byte_at bs i = (if i < length bs then bs ! i else 0)"

definition pad_start :: "nat \<Rightarrow> string \<Rightarrow> string" where
  "pad_start n s = replicate (n - length s) (CHR ''0'') @ s"

definition truncated :: "nat list \<Rightarrow> nat" where
  "truncated digest = (let offset = byte_at digest (length digest - 1) mod 16 in
     unat (push_bit 24 (word_of_nat (byte_at digest offset) AND 0x7f :: 32 word)
       OR push_bit 16 (word_of_nat (byte_at digest (offset + 1)) AND 0xff)
       OR push_bit 8 (word_of_nat (byte_at digest (offset + 2)) AND 0xff)
       OR (word_of_nat (byte_at digest (offset + 3)) AND 0xff)))"

text \<open>A counter below zero or above 64 bits has no big-endian form: writing it throws.\<close>

definition generate_totp :: "(nat list \<Rightarrow> nat list \<Rightarrow> nat list) \<Rightarrow> nat list \<Rightarrow> int \<Rightarrow> nat \<Rightarrow> string + string" where
  "generate_totp hmac secret counter digits =
     (if counter < 0 \<or> 2 ^ 64 \<le> counter then Inl ''ERR_OUT_OF_RANGE''
      else Inr (pad_start digits (nat_str (truncated (hmac secret (be_bytes (nat counter))) mod 10 ^ digits))))"

fun try_steps :: "(nat list \<Rightarrow> nat list \<Rightarrow> nat list) \<Rightarrow> nat list \<Rightarrow> nat \<Rightarrow> int option \<Rightarrow> string \<Rightarrow> int list \<Rightarrow> string + int option" where
  "try_steps hmac secret digits spent code [] = Inr None"
| "try_steps hmac secret digits spent code (counter # cs) =
     (if (case spent of Some l \<Rightarrow> counter \<le> l | None \<Rightarrow> False) then try_steps hmac secret digits spent code cs
      else bind_err (generate_totp hmac secret counter digits) (\<lambda>expected.
        if code = expected then Inr (Some counter) else try_steps hmac secret digits spent code cs))"

definition verify_totp :: "(nat list \<Rightarrow> nat list \<Rightarrow> nat list) \<Rightarrow> string \<Rightarrow> nat list \<Rightarrow> int \<Rightarrow> nat \<Rightarrow> int option \<Rightarrow> string + int option" where
  "verify_totp hmac code secret now digits spent =
     (if length code \<noteq> digits then Inr None
      else try_steps hmac secret digits spent code (map (\<lambda>back. totp_counter now - int back) [0..<Suc tolerance]))"

lemma try_steps_Some:
  "try_steps hmac secret digits spent code cs = Inr (Some c) \<Longrightarrow>
     c \<in> set cs \<and> generate_totp hmac secret c digits = Inr code \<and> (\<forall>l. spent = Some l \<longrightarrow> l < c)"
  by (induction cs) (auto simp: bind_err_Inr_iff split: if_splits option.splits)

lemma verify_totp_Some:
  assumes "verify_totp hmac code secret now digits spent = Inr (Some c)"
  shows "c \<in> {totp_counter now, totp_counter now - 1}" "generate_totp hmac secret c digits = Inr code"
    "spent = Some l \<Longrightarrow> l < c"
proof -
  have "try_steps hmac secret digits spent code [totp_counter now, totp_counter now - 1] = Inr (Some c)"
  proof -
    have "map (\<lambda>back. totp_counter now - int back) [0..<Suc tolerance] = [totp_counter now, totp_counter now - 1]"
      by (simp add: tolerance_def upt_rec)
    moreover have "length code = digits" using assms by (simp add: verify_totp_def split: if_splits)
    ultimately show ?thesis using assms by (simp only: verify_totp_def simp_thms if_False)
  qed
  from try_steps_Some [OF this]
  show "c \<in> {totp_counter now, totp_counter now - 1}" "generate_totp hmac secret c digits = Inr code" "spent = Some l \<Longrightarrow> l < c"
    by auto
qed

lemma length_pad_start: "length (pad_start n s) = max n (length s)"
  by (simp add: pad_start_def)

lemma length_nat_str_bound: "n < 10 ^ k \<Longrightarrow> 0 < k \<Longrightarrow> length (nat_str n) \<le> k"
proof (induction n arbitrary: k rule: nat_str.induct)
  case (1 n)
  show ?case
  proof (cases "n < 10")
    case True
    then show ?thesis using 1(3) by (subst nat_str.simps) simp
  next
    case False
    then have k: "1 < k" using 1(2) by (cases k; cases "k - 1") auto
    then have "10 ^ k = 10 * (10::nat) ^ (k - 1)" by (cases k) simp_all
    then have "n div 10 < 10 ^ (k - 1)" using 1(2) by (simp add: less_mult_imp_div_less mult.commute)
    then have "length (nat_str (n div 10)) \<le> k - 1" using 1(1) [OF False] k by simp
    then show ?thesis using False k by (subst nat_str.simps) simp
  qed
qed

text \<open>A code is a string of exactly the asked number of digits, leading zeros included.\<close>

lemma generate_totp_digits:
  assumes "generate_totp hmac secret c digits = Inr code" "0 < digits"
  shows "length code = digits \<and> list_all is_digit code"
proof -
  have "code = pad_start digits (nat_str (truncated (hmac secret (be_bytes (nat c))) mod 10 ^ digits))"
    using assms(1) by (simp add: generate_totp_def split: if_splits)
  moreover have "length (nat_str (n mod 10 ^ digits)) \<le> digits" for n
    by (rule length_nat_str_bound) (use assms(2) in simp_all)
  moreover have "is_digit (CHR ''0'')" by (simp add: is_digit_def)
  ultimately show ?thesis by (auto simp: pad_start_def list_all_iff dest: nat_str_digits)
qed

subsection \<open>break-glass.ts\<close>

type_synonym scrypt = "string \<Rightarrow> nat list \<Rightarrow> nat \<Rightarrow> jsnum \<times> jsnum \<times> jsnum \<Rightarrow> string + nat list"

definition scrypt_cost :: "nat \<times> nat \<times> nat" where
  "scrypt_cost = (32768, 8, 1)"

definition key_length :: nat where
  "key_length = 32"

record bg_record =
  bg_password_hash :: string
  bg_totp_secret :: string
  bg_actor_email :: string

datatype bg_outcome = Succeeded | Failed | RefusedIamUp

definition hash_password :: "scrypt \<Rightarrow> nat list \<Rightarrow> string \<Rightarrow> string + string" where
  "hash_password scrypt salt password = (case scrypt_cost of (n, r, p) \<Rightarrow>
     bind_err (scrypt password salt key_length (NInt (int n), NInt (int r), NInt (int p))) (\<lambda>derived.
       Inr (join ''$'' [''scrypt'', nat_str n, nat_str r, nat_str p, base64 salt, base64 derived])))"

definition verify_password :: "scrypt \<Rightarrow> string \<Rightarrow> string \<Rightarrow> string + bool" where
  "verify_password scrypt password stored = (case split_on (CHR ''$'') stored of
     scheme # n # r # p # salt # hash # _ \<Rightarrow>
       (if scheme \<noteq> ''scrypt'' \<or> n = [] \<or> r = [] \<or> p = [] \<or> salt = [] \<or> hash = [] then Inr False
        else let expected = base64_decode hash in
          bind_err (scrypt password (base64_decode salt) (length expected) (js_number n, js_number r, js_number p))
            (\<lambda>derived. Inr (derived = expected)))
   | _ \<Rightarrow> Inr False)"

record break_glass =
  bg_last :: "int option"
  bg_alerts :: "(bg_outcome \<times> int) list"

record bg_input =
  bi_now :: int
  bi_iam_up :: bool
  bi_salt :: "nat list"
  bi_password :: string
  bi_code :: string

definition bg_denied :: "string \<times> string" where
  "bg_denied = (''break_glass_denied'', ''Break-glass sign-in is not available.'')"

type_synonym bg_actor = "string \<times> string"

definition bg_alert :: "bg_outcome \<Rightarrow> int \<Rightarrow> break_glass \<Rightarrow> break_glass" where
  "bg_alert outcome now g = g\<lparr>bg_alerts := bg_alerts g @ [(outcome, now)]\<rparr>"

definition attempt :: "(nat list \<Rightarrow> nat list \<Rightarrow> nat list) \<Rightarrow> scrypt \<Rightarrow> bg_record option \<Rightarrow> bg_input \<Rightarrow> break_glass
    \<Rightarrow> (string + ((string \<times> string) + bg_actor)) \<times> break_glass" where
  "attempt hmac scrypt rec i g = (let now = bi_now i in
     if bi_iam_up i then (Inr (Inl bg_denied), bg_alert RefusedIamUp now g)
     else case rec of
       None \<Rightarrow> (case hash_password scrypt (bi_salt i) (bi_password i) of
           Inl e \<Rightarrow> (Inl e, g) | Inr _ \<Rightarrow> (Inr (Inl bg_denied), bg_alert Failed now g))
     | Some r \<Rightarrow> (case verify_password scrypt (bi_password i) (bg_password_hash r) of
           Inl e \<Rightarrow> (Inl e, g)
         | Inr password_ok \<Rightarrow>
             (case bind_err (decode_base32 (bg_totp_secret r)) (\<lambda>secret. verify_totp hmac (bi_code i) secret now 6 (bg_last g)) of
                Inl e \<Rightarrow> (Inl e, g)
              | Inr totp \<Rightarrow>
                  (case (password_ok, totp) of
                     (True, Some c) \<Rightarrow> (Inr (Inr (bg_actor_email r, ''break-glass:'' @ int_str (totp_counter now))),
                        bg_alert Succeeded now (g\<lparr>bg_last := Some c\<rparr>))
                   | _ \<Rightarrow> (Inr (Inl bg_denied), bg_alert Failed now g)))))"

definition new_break_glass :: break_glass where
  "new_break_glass = \<lparr>bg_last = None, bg_alerts = []\<rparr>"

lemma attempt_Inr:
  assumes "attempt hmac scrypt rec i g = (Inr (Inr actor), g')"
  obtains r c secret where "\<not> bi_iam_up i" "rec = Some r" "verify_password scrypt (bi_password i) (bg_password_hash r) = Inr True"
    "decode_base32 (bg_totp_secret r) = Inr secret" "generate_totp hmac secret c 6 = Inr (bi_code i)"
    "c \<in> {totp_counter (bi_now i), totp_counter (bi_now i) - 1}" "\<forall>l. bg_last g = Some l \<longrightarrow> l < c"
    "g' = bg_alert Succeeded (bi_now i) (g\<lparr>bg_last := Some c\<rparr>)" "actor = (bg_actor_email r, ''break-glass:'' @ int_str (totp_counter (bi_now i)))"
proof -
  from assms obtain r where r: "\<not> bi_iam_up i" "rec = Some r"
    by (cases rec) (auto simp: attempt_def Let_def split: if_splits sum.splits)
  with assms obtain ok where ok: "verify_password scrypt (bi_password i) (bg_password_hash r) = Inr ok"
    by (cases "verify_password scrypt (bi_password i) (bg_password_hash r)") (auto simp: attempt_def Let_def)
  let ?t = "bind_err (decode_base32 (bg_totp_secret r)) (\<lambda>secret. verify_totp hmac (bi_code i) secret (bi_now i) 6 (bg_last g))"
  from assms r ok obtain totp where t: "?t = Inr totp" by (cases ?t) (auto simp: attempt_def Let_def)
  with assms r ok obtain c where c: "ok" "totp = Some c"
    "g' = bg_alert Succeeded (bi_now i) (g\<lparr>bg_last := Some c\<rparr>)" "actor = (bg_actor_email r, ''break-glass:'' @ int_str (totp_counter (bi_now i)))"
    by (cases totp; cases ok) (auto simp: attempt_def Let_def)
  from t c(2) obtain secret where s: "decode_base32 (bg_totp_secret r) = Inr secret"
    "verify_totp hmac (bi_code i) secret (bi_now i) 6 (bg_last g) = Inr (Some c)" by (auto simp: bind_err_Inr_iff)
  show ?thesis using verify_totp_Some [OF s(2)] that [OF r _ s(1)] c ok by auto
qed

lemma attempt_fails:
  assumes "attempt hmac scrypt rec i g = (res, g')" "\<nexists>actor. res = Inr (Inr actor)"
  shows "bg_last g' = bg_last g" "res \<in> {Inr (Inl bg_denied)} \<union> range Inl"
  using assms by (auto simp: attempt_def Let_def bg_alert_def split: if_splits option.splits sum.splits bool.splits prod.splits)

lemma attempt_alerts:
  assumes "attempt hmac scrypt rec i g = (Inr res, g')"
  shows "bg_alerts g' = bg_alerts g @ [(if bi_iam_up i then RefusedIamUp else case res of Inl _ \<Rightarrow> Failed | Inr _ \<Rightarrow> Succeeded, bi_now i)]"
  using assms by (auto simp: attempt_def Let_def bg_alert_def split: if_splits option.splits sum.splits bool.splits prod.splits)

text \<open>The attempts a process sees, in order, and the counters of those that succeed.\<close>

fun accepted_counters :: "(nat list \<Rightarrow> nat list \<Rightarrow> nat list) \<Rightarrow> scrypt \<Rightarrow> bg_record option \<Rightarrow> bg_input list \<Rightarrow> break_glass \<Rightarrow> int list" where
  "accepted_counters hmac scrypt rec [] g = []"
| "accepted_counters hmac scrypt rec (i # is) g = (case attempt hmac scrypt rec i g of
     (Inr (Inr _), g') \<Rightarrow> (case bg_last g' of Some c \<Rightarrow> c # accepted_counters hmac scrypt rec is g' | None \<Rightarrow> accepted_counters hmac scrypt rec is g')
   | (_, g') \<Rightarrow> accepted_counters hmac scrypt rec is g')"

lemma accepted_increasing:
  "sorted_wrt (<) (accepted_counters hmac scrypt rec is g)
   \<and> (\<forall>l c. bg_last g = Some l \<longrightarrow> c \<in> set (accepted_counters hmac scrypt rec is g) \<longrightarrow> l < c)"
proof (induction "is" arbitrary: g)
  case (Cons i "is")
  obtain res g' where a: "attempt hmac scrypt rec i g = (res, g')" by fastforce
  show ?case
  proof (cases "\<exists>actor. res = Inr (Inr actor)")
    case True
    then obtain actor where r: "res = Inr (Inr actor)" by blast
    with a obtain c where c: "bg_last g' = Some c" "\<forall>l. bg_last g = Some l \<longrightarrow> l < c"
      by (auto elim!: attempt_Inr simp: bg_alert_def)
    with Cons.IH [of g'] have "sorted_wrt (<) (accepted_counters hmac scrypt rec is g')"
      "\<forall>d \<in> set (accepted_counters hmac scrypt rec is g'). c < d" by auto
    with a r c show ?thesis by fastforce
  next
    case False
    then have "accepted_counters hmac scrypt rec (i # is) g = accepted_counters hmac scrypt rec is g'"
      using a by (auto split: sum.split)
    then show ?thesis using Cons.IH [of g'] attempt_fails(1) [OF a False] by simp
  qed
qed simp

text \<open>C19: a one-time code opens the break-glass door at most once: over all the attempts a process sees,
  in any order and with any codes, the steps whose codes were accepted strictly increase, so a code
  seen by somebody else is worth nothing once it was used.\<close>

theorem break_glass_codes_once:
  "sorted_wrt (<) (accepted_counters hmac scrypt rec attempts g)"
  using accepted_increasing by blast


definition demo_hmac :: "nat list \<Rightarrow> nat list \<Rightarrow> nat list" where
  "demo_hmac key message = replicate 20 0"

definition demo_scrypt :: scrypt where
  "demo_scrypt password salt n cost = Inr (take n (bytes_of password @ salt @ replicate n 0))"

definition demo_record :: bg_record where
  "demo_record = \<lparr>bg_password_hash = ''scrypt$1$1$1$AAAA$cHcA'', bg_totp_secret = ''JBSWY3DP'', bg_actor_email = ''op@x''\<rparr>"

definition demo_attempt :: bg_input where
  "demo_attempt = \<lparr>bi_now = 60, bi_iam_up = False, bi_salt = [0, 0, 0], bi_password = ''pw'', bi_code = ''000000''\<rparr>"

lemma demo_generate: "generate_totp demo_hmac secret 2 6 = Inr ''000000''"
proof -
  have "pad_start 6 (nat_str 0) = ''000000''" by code_simp
  then show ?thesis by (simp add: generate_totp_def demo_hmac_def truncated_def byte_at_def Let_def)
qed

lemma demo_verify: "verify_password demo_scrypt ''pw'' ''scrypt$1$1$1$AAAA$cHcA'' = Inr True"
  by code_simp

lemma demo_secret: "decode_base32 ''JBSWY3DP'' = Inr [72, 101, 108, 108, 111]"
  by code_simp

lemma demo_attempt_succeeds: "attempt demo_hmac demo_scrypt (Some demo_record) demo_attempt new_break_glass
    = (Inr (Inr (''op@x'', ''break-glass:'' @ int_str 2)), bg_alert Succeeded 60 (new_break_glass\<lparr>bg_last := Some 2\<rparr>))"
proof -
  have "verify_totp demo_hmac ''000000'' secret 60 6 None = Inr (Some 2)" for secret
    using demo_generate [of secret] by (simp add: verify_totp_def totp_counter_def step_seconds_def tolerance_def upt_rec)
  then show ?thesis
    by (simp add: attempt_def demo_attempt_def demo_record_def demo_verify demo_secret new_break_glass_def totp_counter_def step_seconds_def)
qed


text \<open>A password that was hashed is verified, and any other password is judged by its own derived key:
  the hash carries the salt and the cost it was made with, and verifying derives the key again
  with exactly those.\<close>

theorem password_hash_roundtrip:
  assumes "scrypt password salt key_length (NInt 32768, NInt 8, NInt 1) = Inr derived"
    and "length derived = key_length" and "byte_list derived" and "byte_list salt" and "salt \<noteq> []"
  shows "\<exists>stored. hash_password scrypt salt password = Inr stored \<and> verify_password scrypt password stored = Inr True
    \<and> (\<forall>other derived'. scrypt other salt key_length (NInt 32768, NInt 8, NInt 1) = Inr derived'
         \<longrightarrow> verify_password scrypt other stored = Inr (derived' = derived))"
proof -
  have digits: "CHR ''$'' \<notin> set (nat_str n)" for n by (auto dest!: nat_str_digits simp: is_digit_def less_eq_char_def)
  define stored where "stored = join ''$'' [''scrypt'', nat_str 32768, nat_str 8, nat_str 1, base64 salt, base64 derived]"
  have s: "split_on (CHR ''$'') stored = [''scrypt'', nat_str 32768, nat_str 8, nat_str 1, base64 salt, base64 derived]"
    using digits base64_no_dollar [OF assms(3)] base64_no_dollar [OF assms(4)]
    by (simp add: stored_def split_on_append split_on_no_sep)
  have "derived \<noteq> []" using assms(2) by (auto simp: key_length_def)
  then have v: "verify_password scrypt pw stored = bind_err (scrypt pw salt key_length (NInt 32768, NInt 8, NInt 1)) (\<lambda>d. Inr (d = derived))" for pw
    using assms by (simp add: verify_password_def s js_number_nat_str base64_roundtrip del: One_nat_def)
  have "hash_password scrypt salt password = Inr stored"
    using assms(1) by (simp add: hash_password_def scrypt_cost_def stored_def)
  then show ?thesis using v assms(1) by (intro exI [of _ stored]) simp
qed

theorem password_hash_roundtrip_witness:
  "\<exists>stored. hash_password demo_scrypt [1, 2] ''pw'' = Inr stored \<and> verify_password demo_scrypt ''pw'' stored = Inr True"
proof -
  have "byte_list (take 32 (bytes_of ''pw'' @ [1, 2] @ replicate 32 0))" "length (take 32 (bytes_of ''pw'' @ [1, 2] @ replicate 32 (0::nat))) = 32"
    by code_simp+
  then show ?thesis
    using password_hash_roundtrip [of demo_scrypt "''pw''" "[1, 2]" "take 32 (bytes_of ''pw'' @ [1, 2] @ replicate 32 0)"]
    by (simp add: demo_scrypt_def key_length_def byte_list_def) blast
qed

end
