(* ===== verification/Session.thy ===== *)
theory Session
  imports Encoding Documents
begin

section \<open>Sessions and sign-in through iam (src/auth/session.ts, src/auth/oidc.ts, src/routes/auth.ts)\<close>

text \<open>
  The signed cookie, the OpenID Connect client with its claim checks, and the routes of the sign-in.
  Parameters: \<open>hmac\<close>, the HMAC-SHA256 of a key and a message; \<open>sha\<close>, SHA-256; \<open>fetch\<close>, the HTTP
  client; \<open>url_set\<close>, which sets the query parameters of a URL; and the random bytes a handler draws.
  Times are milliseconds. Of an HTTP reply the model keeps the status, the location, the cookies and
  the arguments the sign-in page is rendered with.
\<close>

subsection \<open>session.ts\<close>

type_synonym hmac = "string \<Rightarrow> string \<Rightarrow> nat list"

definition min_secret_length :: nat where
  "min_secret_length = 32"

definition via_values :: "string list" where
  "via_values = [''iam'', ''break-glass'']"

record session =
  se_email :: string
  se_id :: string
  se_via :: string
  se_expires :: jsnum

record cookie_options =
  co_http_only :: bool
  co_same_site :: string
  co_secure :: bool
  co_path :: string

definition make_codec :: "string \<Rightarrow> string + string" where
  "make_codec secret = (if length secret < min_secret_length
     then Inl (''the session secret must be at least '' @ nat_str min_secret_length @ '' characters'') else Inr secret)"

definition mac :: "hmac \<Rightarrow> string \<Rightarrow> string \<Rightarrow> string" where
  "mac hmac secret payload = base64url (hmac secret payload)"

definition sign_value :: "hmac \<Rightarrow> string \<Rightarrow> jsval \<Rightarrow> string" where
  "sign_value hmac secret v = (let payload = base64url (bytes_of (json v)) in payload @ ''.'' @ mac hmac secret payload)"

definition session_json :: "session \<Rightarrow> jsval" where
  "session_json s = JObj [(''email'', JStr (se_email s)), (''id'', JStr (se_id s)), (''via'', JStr (se_via s)), (''expiresAt'', JNum (se_expires s))]"

definition sign_session :: "hmac \<Rightarrow> string \<Rightarrow> session \<Rightarrow> string" where
  "sign_session hmac secret s = sign_value hmac secret (session_json s)"

text \<open>The payload of a cookie whose signature is right.\<close>

definition signed_payload :: "hmac \<Rightarrow> string \<Rightarrow> string \<Rightarrow> string option" where
  "signed_payload hmac secret cookie = (case split_on (CHR ''.'') cookie of
     [payload, signature] \<Rightarrow>
       if payload = [] \<or> signature = [] \<or> signature \<noteq> mac hmac secret payload then None else Some payload
   | _ \<Rightarrow> None)"

definition payload_json :: "string \<Rightarrow> jsval option" where
  "payload_json payload = json_parse (string_of (base64_decode payload))"

definition verify_value :: "hmac \<Rightarrow> string \<Rightarrow> string \<Rightarrow> jsval" where
  "verify_value hmac secret cookie = (case signed_payload hmac secret cookie of
     None \<Rightarrow> JNull | Some payload \<Rightarrow> (case payload_json payload of None \<Rightarrow> JNull | Some v \<Rightarrow> v))"

text \<open>Reading a property of \<open>null\<close> throws.\<close>

definition verify_session :: "hmac \<Rightarrow> string \<Rightarrow> int \<Rightarrow> string \<Rightarrow> string + session option" where
  "verify_session hmac secret now cookie = (case signed_payload hmac secret cookie of
     None \<Rightarrow> Inr None
   | Some payload \<Rightarrow> (case payload_json payload of
       None \<Rightarrow> Inr None
     | Some JNull \<Rightarrow> Inl ''TypeError''
     | Some v \<Rightarrow> Inr (case (prop_of v ''email'', prop_of v ''id'', prop_of v ''expiresAt'', prop_of v ''via'') of
         (JStr email, JStr uid, JNum expires, JStr via) \<Rightarrow>
           if via \<notin> set via_values \<or> \<not> num_less (NInt now) expires then None
           else Some \<lparr>se_email = email, se_id = uid, se_via = via, se_expires = expires\<rparr>
       | _ \<Rightarrow> None)))"

definition session_cookie_options :: "bool \<Rightarrow> cookie_options" where
  "session_cookie_options insecure = \<lparr>co_http_only = True, co_same_site = ''lax'', co_secure = (\<not> insecure), co_path = ''/''\<rparr>"

subsubsection \<open>What a signature promises\<close>

definition hmac_law :: "hmac \<Rightarrow> bool" where
  "hmac_law hmac \<longleftrightarrow> (\<forall>k m. byte_list (hmac k m) \<and> hmac k m \<noteq> [])"

lemma signed_payload_Some:
  "signed_payload hmac secret cookie = Some payload \<Longrightarrow> payload \<noteq> [] \<and> cookie = payload @ ''.'' @ mac hmac secret payload"
proof -
  assume a: "signed_payload hmac secret cookie = Some payload"
  then obtain s where s: "split_on (CHR ''.'') cookie = [payload, s]" "payload \<noteq> []" "s = mac hmac secret payload"
    by (auto simp: signed_payload_def split: list.splits if_splits)
  then show ?thesis using join_split_on [of "CHR ''.''" cookie] by simp
qed

lemma signed_payload_sign:
  assumes "hmac_law hmac" "payload \<noteq> []" "CHR ''.'' \<notin> set payload"
  shows "signed_payload hmac secret (payload @ ''.'' @ mac hmac secret payload) = Some payload"
proof -
  have m: "byte_list (hmac secret payload)" "hmac secret payload \<noteq> []" using assms(1) by (simp_all add: hmac_law_def)
  have "split_on (CHR ''.'') (payload @ ''.'' @ mac hmac secret payload) = [payload, mac hmac secret payload]"
    using assms(3) base64url_no_dot [OF m(1)] by (simp add: split_on_append split_on_no_sep mac_def)
  then show ?thesis using assms(2) m(2) by (simp add: signed_payload_def mac_def)
qed

lemma json_not_Nil [simp]: "json v \<noteq> []"
  using nat_str_not_Nil
  by (cases v) (auto simp: json_string_def int_str_def dec_str_def Let_def split: if_splits jsnum.splits elim!: num_str.elims dest: sym)

lemma payload_of_value:
  "hmac_law hmac \<Longrightarrow> signed_payload hmac secret (sign_value hmac secret v) = Some (base64url (bytes_of (json v)))"
  unfolding sign_value_def Let_def
  by (rule signed_payload_sign) (auto simp: bytes_of_def base64url_no_dot [OF byte_list_bytes_of, unfolded bytes_of_def])

lemma payload_json_value: "json_ok v \<Longrightarrow> payload_json (base64url (bytes_of (json v))) = Some v"
  by (simp add: payload_json_def base64url_roundtrip)

lemma verify_value_sign: "hmac_law hmac \<Longrightarrow> json_ok v \<Longrightarrow> verify_value hmac secret (sign_value hmac secret v) = v"
  by (simp add: verify_value_def payload_of_value payload_json_value)

lemma verify_session_sign:
  assumes "hmac_law hmac" "se_expires s = NInt e" "now < e" "se_via s \<in> set via_values"
  shows "verify_session hmac secret now (sign_session hmac secret s) = Inr (Some s)"
proof -
  have "json_ok (session_json s)" using assms(2) by (simp add: session_json_def)
  then have "payload_json (base64url (bytes_of (json (session_json s)))) = Some (session_json s)" by (rule payload_json_value)
  then show ?thesis
    using assms by (simp add: verify_session_def sign_session_def payload_of_value)
      (simp add: session_json_def prop_of_def get_prop_def obj_of_def)
qed

lemma verify_session_Some:
  assumes "verify_session hmac secret now cookie = Inr (Some s)"
  obtains payload v where "cookie = payload @ ''.'' @ mac hmac secret payload" "payload_json payload = Some v"
    "prop_of v ''email'' = JStr (se_email s)" "prop_of v ''id'' = JStr (se_id s)" "prop_of v ''via'' = JStr (se_via s)"
    "prop_of v ''expiresAt'' = JNum (se_expires s)" "se_via s \<in> set via_values" "num_less (NInt now) (se_expires s)"
proof -
  from assms obtain payload v where p: "signed_payload hmac secret cookie = Some payload" "payload_json payload = Some v"
    by (auto simp: verify_session_def split: option.splits)
  with assms have "(case (prop_of v ''email'', prop_of v ''id'', prop_of v ''expiresAt'', prop_of v ''via'') of
         (JStr email, JStr uid, JNum expires, JStr via) \<Rightarrow>
           if via \<notin> set via_values \<or> \<not> num_less (NInt now) expires then None
           else Some \<lparr>se_email = email, se_id = uid, se_via = via, se_expires = expires\<rparr>
       | _ \<Rightarrow> None) = Some s"
    by (cases v) (simp_all add: verify_session_def)
  moreover from this obtain email where e: "prop_of v ''email'' = JStr email" by (cases "prop_of v ''email''") simp_all
  moreover from calculation obtain uid where i: "prop_of v ''id'' = JStr uid" by (cases "prop_of v ''id''") simp_all
  moreover from calculation obtain x where x: "prop_of v ''expiresAt'' = JNum x" by (cases "prop_of v ''expiresAt''") simp_all
  moreover from calculation obtain via where "prop_of v ''via'' = JStr via" by (cases "prop_of v ''via''") simp_all
  ultimately show ?thesis using that [OF _ p(2)] signed_payload_Some [OF p(1)] by (auto split: if_splits)
qed

text \<open>C16: a session that was signed is exactly the session that is verified, for as long as it has not
  expired, and no longer.\<close>

theorem session_cookie_roundtrip:
  assumes "hmac_law hmac" and "se_expires s = NInt e" and "se_via s \<in> set via_values"
  shows "verify_session hmac secret now (sign_session hmac secret s) = Inr (if now < e then Some s else None)"
proof (cases "now < e")
  case True
  then show ?thesis using assms by (simp add: verify_session_sign)
next
  case False
  have "json_ok (session_json s)" using assms(2) by (simp add: session_json_def)
  then have "payload_json (base64url (bytes_of (json (session_json s)))) = Some (session_json s)" by (rule payload_json_value)
  then show ?thesis
    using assms False by (simp add: verify_session_def sign_session_def payload_of_value)
      (simp add: session_json_def prop_of_def get_prop_def obj_of_def)
qed

definition demo_hmac256 :: hmac where
  "demo_hmac256 key message = [0, 0, 0]"

lemma demo_hmac256_law: "hmac_law demo_hmac256"
  by (simp add: hmac_law_def demo_hmac256_def byte_list_def)

theorem session_cookie_roundtrip_witness:
  "verify_session demo_hmac256 ''k'' 5 (sign_session demo_hmac256 ''k'' \<lparr>se_email = ''a'', se_id = ''1'', se_via = ''iam'', se_expires = NInt 6\<rparr>)
     = Inr (Some \<lparr>se_email = ''a'', se_id = ''1'', se_via = ''iam'', se_expires = NInt 6\<rparr>)"
  using session_cookie_roundtrip [OF demo_hmac256_law, of "\<lparr>se_email = ''a'', se_id = ''1'', se_via = ''iam'', se_expires = NInt 6\<rparr>" 6 "''k''" 5]
  by (simp add: via_values_def)

subsection \<open>oidc.ts\<close>

record oidc_options =
  oo_issuer :: string
  oo_client_id :: string
  oo_client_secret :: string
  oo_redirect_uri :: string

record pkce =
  pk_verifier :: string
  pk_challenge :: string

definition pkce_for :: "(string \<Rightarrow> nat list) \<Rightarrow> string \<Rightarrow> pkce" where
  "pkce_for sha verifier = \<lparr>pk_verifier = verifier, pk_challenge = base64url (sha verifier)\<rparr>"

definition create_pkce :: "(string \<Rightarrow> nat list) \<Rightarrow> nat list \<Rightarrow> pkce" where
  "create_pkce sha random = pkce_for sha (base64url random)"

record http_request =
  hq_url :: string
  hq_method :: string
  hq_headers :: "(string \<times> string) list"
  hq_body :: string

record http_response =
  hr_ok :: bool
  hr_status :: nat
  hr_json :: "string + jsval"

type_synonym fetch = "http_request \<Rightarrow> string + http_response"

definition strip_slash :: "string \<Rightarrow> string" where
  "strip_slash s = (if ends_with ''/'' s then butlast s else s)"

text \<open>The discovery document is fetched once; a failed fetch leaves nothing behind.\<close>

type_synonym discovery = "jsval \<times> jsval"

definition discover :: "fetch \<Rightarrow> oidc_options \<Rightarrow> discovery option \<Rightarrow> (string + discovery) \<times> discovery option" where
  "discover fetch oo d = (case d of Some found \<Rightarrow> (Inr found, d)
   | None \<Rightarrow>
     (case fetch \<lparr>hq_url = strip_slash (oo_issuer oo) @ ''/.well-known/openid-configuration'', hq_method = ''GET'', hq_headers = [], hq_body = ''''\<rparr> of
        Inl e \<Rightarrow> (Inl e, None)
      | Inr r \<Rightarrow>
          if \<not> hr_ok r then (Inl (''could not reach iam'' @ sq @ ''s discovery document ('' @ nat_str (hr_status r) @ '')''), None)
          else (case hr_json r of
            Inl e \<Rightarrow> (Inl e, None)
          | Inr body \<Rightarrow>
              (let a = prop_of body ''authorization_endpoint''; t = prop_of body ''token_endpoint'' in
               if \<not> truthy a \<or> \<not> truthy t then (Inl (''iam'' @ sq @ ''s discovery document is missing endpoints''), None)
               else (Inr (a, t), Some (a, t))))))"

definition oidc_scope :: string where
  "oidc_scope = ''openid email''"

definition authorization_params :: "oidc_options \<Rightarrow> string \<Rightarrow> string \<Rightarrow> pkce \<Rightarrow> (string \<times> string) list" where
  "authorization_params oo state nonce pk =
     [(''response_type'', ''code''), (''client_id'', oo_client_id oo), (''redirect_uri'', oo_redirect_uri oo), (''scope'', oidc_scope),
      (''state'', state), (''nonce'', nonce), (''code_challenge'', pk_challenge pk), (''code_challenge_method'', ''S256'')]"

definition authorization_url :: "fetch \<Rightarrow> (jsval \<Rightarrow> (string \<times> string) list \<Rightarrow> string + string) \<Rightarrow> oidc_options \<Rightarrow> string \<Rightarrow> string \<Rightarrow> pkce
    \<Rightarrow> discovery option \<Rightarrow> (string + string) \<times> discovery option" where
  "authorization_url fetch url_set oo state nonce pk d = (case discover fetch oo d of
     (Inl e, d') \<Rightarrow> (Inl e, d')
   | (Inr (a, _), d') \<Rightarrow> (url_set a (authorization_params oo state nonce pk), d'))"

definition token_request :: "oidc_options \<Rightarrow> jsval \<Rightarrow> string \<Rightarrow> string \<Rightarrow> http_request" where
  "token_request oo endpoint code verifier = \<lparr>hq_url = to_str endpoint, hq_method = ''POST'',
     hq_headers = [(''content-type'', ''application/x-www-form-urlencoded''),
       (''authorization'', ''Basic '' @ base64 (bytes_of (encode_uri_component (oo_client_id oo) @ '':'' @ encode_uri_component (oo_client_secret oo))))],
     hq_body = form_body [(''grant_type'', ''authorization_code''), (''code'', code), (''redirect_uri'', oo_redirect_uri oo),
       (''client_id'', oo_client_id oo), (''code_verifier'', verifier)]\<rparr>"

record id_claims =
  ic_sub :: string
  ic_email :: string

definition times_1000 :: "jsnum \<Rightarrow> jsnum" where
  "times_1000 n = (case n of NInt i \<Rightarrow> NInt (i * 1000) | NDec m e \<Rightarrow> NDec (m * 1000) e | _ \<Rightarrow> n)"

definition nonempty_string :: "jsval \<Rightarrow> bool" where
  "nonempty_string v = (case v of JStr s \<Rightarrow> s \<noteq> [] | _ \<Rightarrow> False)"

definition str_val :: "jsval \<Rightarrow> string" where
  "str_val v = (case v of JStr s \<Rightarrow> s | _ \<Rightarrow> '''')"

definition check_claims :: "oidc_options \<Rightarrow> int \<Rightarrow> jsval \<Rightarrow> jsval \<Rightarrow> string + id_claims" where
  "check_claims oo now nonce claims =
     bind_err (when_err (claims = JNull) ''TypeError'') (\<lambda>_.
     bind_err (when_err (prop_of claims ''iss'' \<noteq> JStr (oo_issuer oo)) ''the id_token came from another issuer'') (\<lambda>_.
     bind_err (when_err (JStr (oo_client_id oo) \<notin> set (case prop_of claims ''aud'' of JArr vs \<Rightarrow> vs | v \<Rightarrow> [v]))
       ''the id_token was issued for a different client'') (\<lambda>_.
     bind_err (when_err (case prop_of claims ''exp'' of JNum n \<Rightarrow> \<not> num_less (NInt now) (times_1000 n) | _ \<Rightarrow> True) ''the id_token has expired'') (\<lambda>_.
     bind_err (when_err (\<not> is_string (prop_of claims ''nonce'') \<or> prop_of claims ''nonce'' \<noteq> nonce) ''the id_token does not match this sign-in attempt'') (\<lambda>_.
     bind_err (when_err (\<not> nonempty_string (prop_of claims ''sub'')) ''the id_token has no subject'') (\<lambda>_.
     bind_err (when_err (\<not> nonempty_string (prop_of claims ''email'')) ''the id_token has no email'') (\<lambda>_.
       Inr \<lparr>ic_sub = str_val (prop_of claims ''sub''), ic_email = str_val (prop_of claims ''email'')\<rparr>)))))))"

definition validate_token :: "oidc_options \<Rightarrow> int \<Rightarrow> jsval \<Rightarrow> string \<Rightarrow> string + id_claims" where
  "validate_token oo now nonce token = (case split_on (CHR ''.'') token of
     _ # payload # _ \<Rightarrow>
       if payload = [] then Inl ''the id_token is not a JWT''
       else (case payload_json payload of None \<Rightarrow> Inl ''the id_token payload is not JSON'' | Some claims \<Rightarrow> check_claims oo now nonce claims)
   | _ \<Rightarrow> Inl ''the id_token is not a JWT'')"

definition exchange :: "fetch \<Rightarrow> oidc_options \<Rightarrow> int \<Rightarrow> string \<Rightarrow> string \<Rightarrow> jsval \<Rightarrow> discovery option \<Rightarrow> (string + id_claims) \<times> discovery option" where
  "exchange fetch oo now code verifier nonce d = (case discover fetch oo d of
     (Inl e, d') \<Rightarrow> (Inl e, d')
   | (Inr (_, endpoint), d') \<Rightarrow>
       (bind_err (fetch (token_request oo endpoint code verifier)) (\<lambda>r.
        bind_err (when_err (\<not> hr_ok r) (''iam refused the authorization code ('' @ nat_str (hr_status r) @ '')'')) (\<lambda>_.
        bind_err (hr_json r) (\<lambda>body.
        bind_err (when_err (\<not> is_string (prop_of body ''id_token'')) ''iam returned no id_token'') (\<lambda>_.
          validate_token oo now nonce (str_val (prop_of body ''id_token'')))))), d'))"

lemma check_claims_Inr:
  "check_claims oo now nonce claims = Inr c \<longleftrightarrow> claims \<noteq> JNull \<and> prop_of claims ''iss'' = JStr (oo_issuer oo)
     \<and> (prop_of claims ''aud'' = JStr (oo_client_id oo) \<or> (\<exists>vs. prop_of claims ''aud'' = JArr vs \<and> JStr (oo_client_id oo) \<in> set vs))
     \<and> (\<exists>n. prop_of claims ''exp'' = JNum n \<and> num_less (NInt now) (times_1000 n))
     \<and> is_string nonce \<and> prop_of claims ''nonce'' = nonce
     \<and> (\<exists>sub email. sub \<noteq> [] \<and> email \<noteq> [] \<and> prop_of claims ''sub'' = JStr sub \<and> prop_of claims ''email'' = JStr email
          \<and> c = \<lparr>ic_sub = sub, ic_email = email\<rparr>)"
proof -
  have aud: "JStr s \<in> set (case v of JArr vs \<Rightarrow> vs | v \<Rightarrow> [v]) \<longleftrightarrow> v = JStr s \<or> (\<exists>vs. v = JArr vs \<and> JStr s \<in> set vs)" for s v
    by (cases v) auto
  have e: "(case v of JNum n \<Rightarrow> \<not> num_less (NInt now) (times_1000 n) | _ \<Rightarrow> True) \<longleftrightarrow> \<not> (\<exists>n. v = JNum n \<and> num_less (NInt now) (times_1000 n))" for v
    by (cases v) auto
  have ne: "nonempty_string v \<longleftrightarrow> (\<exists>s. v = JStr s \<and> s \<noteq> [])" for v by (cases v) (auto simp: nonempty_string_def)
  show ?thesis unfolding check_claims_def bind_when_err_Inr aud e ne not_not
    by (auto simp: str_val_def)
qed

text \<open>C17: an id_token signs somebody in exactly when it is a token whose claims name this issuer, this
  client among the audience, a time that has not come yet, the nonce of this sign-in, and a subject
  and an email that are not empty; the session is for that subject and email.\<close>

theorem id_token_accepted:
  "validate_token oo now nonce token = Inr c \<longleftrightarrow>
     (\<exists>head payload rest claims n. split_on (CHR ''.'') token = head # payload # rest \<and> payload \<noteq> [] \<and> payload_json payload = Some claims
       \<and> claims \<noteq> JNull \<and> prop_of claims ''iss'' = JStr (oo_issuer oo)
       \<and> (prop_of claims ''aud'' = JStr (oo_client_id oo) \<or> (\<exists>vs. prop_of claims ''aud'' = JArr vs \<and> JStr (oo_client_id oo) \<in> set vs))
       \<and> prop_of claims ''exp'' = JNum n \<and> num_less (NInt now) (times_1000 n)
       \<and> is_string nonce \<and> prop_of claims ''nonce'' = nonce
       \<and> prop_of claims ''sub'' = JStr (ic_sub c) \<and> ic_sub c \<noteq> [] \<and> prop_of claims ''email'' = JStr (ic_email c) \<and> ic_email c \<noteq> [])"
proof -
  have "validate_token oo now nonce token = Inr c \<longleftrightarrow>
     (\<exists>head payload rest claims. split_on (CHR ''.'') token = head # payload # rest \<and> payload \<noteq> [] \<and> payload_json payload = Some claims
        \<and> check_claims oo now nonce claims = Inr c)"
    by (auto simp: validate_token_def split: list.splits option.splits)
  moreover have "(\<exists>sub email. sub \<noteq> [] \<and> email \<noteq> [] \<and> prop_of claims ''sub'' = JStr sub \<and> prop_of claims ''email'' = JStr email
          \<and> c = \<lparr>ic_sub = sub, ic_email = email\<rparr>) \<longleftrightarrow>
      prop_of claims ''sub'' = JStr (ic_sub c) \<and> ic_sub c \<noteq> [] \<and> prop_of claims ''email'' = JStr (ic_email c) \<and> ic_email c \<noteq> []" for claims
    by (cases c) auto
  ultimately show ?thesis unfolding check_claims_Inr by auto
qed

subsection \<open>safe-next-path.ts\<close>

definition next_char :: "char \<Rightarrow> bool" where
  "next_char c = (alphanumeric c \<or> c \<in> set ''/_?=&.%-'')"

definition safe_next_path :: "string option \<Rightarrow> string" where
  "safe_next_path v = (case v of None \<Rightarrow> ''/''
   | Some s \<Rightarrow> if s = [] \<or> starts_with ''//'' s \<or> \<not> (hd s = CHR ''/'' \<and> list_all next_char (tl s)) then ''/'' else s)"

definition next_path_from_request :: "(string \<Rightarrow> (string \<times> string) option) \<Rightarrow> string option \<Rightarrow> string option \<Rightarrow> string option \<Rightarrow> string" where
  "next_path_from_request parse_url body_next hx_url fallback =
     (case body_next of Some (c # s) \<Rightarrow> safe_next_path (Some (c # s))
      | _ \<Rightarrow> (case hx_url of Some (c # s) \<Rightarrow>
            (case parse_url (c # s) of Some (pathname, search) \<Rightarrow> safe_next_path (Some (pathname @ search)) | None \<Rightarrow> ''/'')
        | _ \<Rightarrow> safe_next_path fallback))"

definition local_path :: "string \<Rightarrow> bool" where
  "local_path s \<longleftrightarrow> (\<exists>t. s = CHR ''/'' # t \<and> (t = [] \<or> hd t \<noteq> CHR ''/'') \<and> list_all next_char t)"

lemma safe_next_path_local: "local_path (safe_next_path v)"
proof (cases v)
  case (Some s)
  show ?thesis
  proof (cases "s = [] \<or> starts_with ''//'' s \<or> \<not> (hd s = CHR ''/'' \<and> list_all next_char (tl s))")
    case True
    then show ?thesis using Some by (simp add: safe_next_path_def local_path_def)
  next
    case False
    then obtain t where s: "s = CHR ''/'' # t" "list_all next_char t" by (cases s) auto
    then have "t = [] \<or> hd t \<noteq> CHR ''/''" using False by (cases t) (auto simp: starts_with_def)
    then show ?thesis using False Some s by (simp add: safe_next_path_def local_path_def)
  qed
qed (simp add: safe_next_path_def local_path_def)

lemma local_path_kept: "local_path s \<Longrightarrow> safe_next_path (Some s) = s"
proof -
  assume "local_path s"
  then obtain t where t: "s = CHR ''/'' # t" "t = [] \<or> hd t \<noteq> CHR ''/''" "list_all next_char t" unfolding local_path_def by blast
  then show ?thesis by (cases t) (simp_all add: safe_next_path_def starts_with_def)
qed

text \<open>C20: wherever a sign-in sends the browser next, it is a path of this site: one slash, then only
  the characters of a plain path and query; in particular never another host.\<close>

theorem next_path_stays_local:
  "local_path (safe_next_path v) \<and> local_path (next_path_from_request parse_url body_next hx_url fallback)
   \<and> (local_path s \<longrightarrow> safe_next_path (Some s) = s)"
proof (intro conjI impI)
  show "local_path (next_path_from_request parse_url body_next hx_url fallback)"
    using safe_next_path_local by (auto simp: next_path_from_request_def local_path_def [of "''/''"] split: option.split list.split prod.split)
qed (rule safe_next_path_local, rule local_path_kept)

theorem next_path_stays_local_witness: "safe_next_path (Some ''/p?a=b'') = ''/p?a=b''"
  using next_path_stays_local [of None "\<lambda>_. None" None None None "''/p?a=b''"]
  by (simp add: local_path_def next_char_def alphanumeric_def is_lower_def less_eq_char_def)

subsection \<open>routes/auth.ts\<close>

definition session_cookie :: string where
  "session_cookie = ''config_session''"

definition flow_cookie :: string where
  "flow_cookie = ''config_login''"

definition session_ttl_ms :: int where
  "session_ttl_ms = 8 * 60 * 60 * 1000"

definition flow_ttl_ms :: int where
  "flow_ttl_ms = 10 * 60 * 1000"

record flow_state =
  fl_state :: string
  fl_nonce :: string
  fl_verifier :: string
  fl_expires :: int
  fl_next :: string

definition flow_json :: "flow_state \<Rightarrow> jsval" where
  "flow_json f = JObj [(''state'', JStr (fl_state f)), (''nonce'', JStr (fl_nonce f)), (''verifier'', JStr (fl_verifier f)),
     (''expiresAt'', JNum (NInt (fl_expires f))), (''next'', JStr (fl_next f))]"

datatype cookie_op = SetCookie string string cookie_options "int option" | ClearCookie string cookie_options

record login_page =
  lp_iam_reachable :: bool
  lp_iam_configured :: bool
  lp_login_url :: string
  lp_error :: "string option"

record reply =
  rp_status :: nat
  rp_location :: "string option"
  rp_cookies :: "cookie_op list"
  rp_page :: "login_page option"

definition redirect :: "nat \<Rightarrow> string \<Rightarrow> reply" where
  "redirect status location = \<lparr>rp_status = status, rp_location = Some location, rp_cookies = [], rp_page = None\<rparr>"

definition iam_start_location :: "string option \<Rightarrow> string" where
  "iam_start_location next = ''/login/iam?next='' @ encode_uri_component (safe_next_path next)"

definition login_page_location :: "string option \<Rightarrow> string" where
  "login_page_location next = ''/login?next='' @ encode_uri_component (safe_next_path next)"

definition open_paths :: "string list" where
  "open_paths = [''/login'', ''/login/iam'', ''/login/callback'', ''/login/break-glass'', ''/logout'', ''/healthz'', ''/assets/htmx.js'', ''/assets/ticks.js'']"

text \<open>The hook in front of every handler: \<open>Inl\<close> a reply that ends the request, \<open>Inr\<close> the session the
  handler sees. The outer sum is an exception.\<close>

definition on_request :: "hmac \<Rightarrow> string \<Rightarrow> int \<Rightarrow> bool \<Rightarrow> bool \<Rightarrow> string option \<Rightarrow> string \<Rightarrow> string + (reply + session option)" where
  "on_request hmac secret now iam_up configured cookie url =
     bind_err (verify_session hmac secret now (case cookie of Some c \<Rightarrow> c | None \<Rightarrow> '''')) (\<lambda>session.
       if session \<noteq> None \<or> hd (split_on (CHR ''?'') url) \<in> set open_paths then Inr (Inr session)
       else let next = (if starts_with ''/'' url then url else ''/'') in
         Inr (Inl (redirect 302 (if iam_up \<and> configured then iam_start_location (Some next) else login_page_location (Some next)))))"

definition get_login :: "session option \<Rightarrow> bool \<Rightarrow> bool \<Rightarrow> (string \<times> string) list \<Rightarrow> reply" where
  "get_login session iam_up configured query =
     (if session \<noteq> None then redirect 302 ''/''
      else if iam_up \<and> configured \<and> (case map_of query ''error'' of Some (c # s) \<Rightarrow> False | _ \<Rightarrow> True)
        then redirect 302 (iam_start_location (map_of query ''next''))
      else \<lparr>rp_status = 200, rp_location = None, rp_cookies = [], rp_page = Some \<lparr>lp_iam_reachable = iam_up, lp_iam_configured = configured,
             lp_login_url = iam_start_location (map_of query ''next''), lp_error = None\<rparr>\<rparr>)"

record login_draw =
  ld_state :: "nat list"
  ld_nonce :: "nat list"
  ld_verifier :: "nat list"

definition new_flow :: "(string \<Rightarrow> nat list) \<Rightarrow> login_draw \<Rightarrow> int \<Rightarrow> string option \<Rightarrow> flow_state" where
  "new_flow sha draw now next = \<lparr>fl_state = base64url (ld_state draw), fl_nonce = base64url (ld_nonce draw),
     fl_verifier = pk_verifier (create_pkce sha (ld_verifier draw)), fl_expires = now + flow_ttl_ms, fl_next = safe_next_path next\<rparr>"

definition get_login_iam :: "hmac \<Rightarrow> string \<Rightarrow> bool \<Rightarrow> (string \<Rightarrow> nat list) \<Rightarrow> fetch \<Rightarrow> (jsval \<Rightarrow> (string \<times> string) list \<Rightarrow> string + string)
    \<Rightarrow> oidc_options option \<Rightarrow> login_draw \<Rightarrow> int \<Rightarrow> string option \<Rightarrow> discovery option \<Rightarrow> (string + reply) \<times> discovery option" where
  "get_login_iam hmac secret insecure sha fetch url_set oidc draw now next d = (case oidc of
     None \<Rightarrow> (Inr \<lparr>rp_status = 404, rp_location = None, rp_cookies = [], rp_page = None\<rparr>, d)
   | Some oo \<Rightarrow>
       (let flow = new_flow sha draw now next in
        case authorization_url fetch url_set oo (fl_state flow) (fl_nonce flow) (pkce_for sha (fl_verifier flow)) d of
          (Inl e, d') \<Rightarrow> (Inl e, d')
        | (Inr url, d') \<Rightarrow> (Inr \<lparr>rp_status = 302, rp_location = Some url,
             rp_cookies = [SetCookie flow_cookie (sign_value hmac secret (flow_json flow)) (session_cookie_options insecure) (Some (flow_ttl_ms div 1000))],
             rp_page = None\<rparr>, d')))"

definition sign_in_failed :: "bool \<Rightarrow> bool \<Rightarrow> string \<Rightarrow> reply" where
  "sign_in_failed iam_up configured detail = \<lparr>rp_status = 400, rp_location = None, rp_cookies = [],
     rp_page = Some \<lparr>lp_iam_reachable = iam_up, lp_iam_configured = configured, lp_login_url = iam_start_location (Some ''/''), lp_error = Some detail\<rparr>\<rparr>"

definition session_reply :: "hmac \<Rightarrow> string \<Rightarrow> bool \<Rightarrow> session \<Rightarrow> cookie_op list \<Rightarrow> string \<Rightarrow> reply" where
  "session_reply hmac secret insecure s cleared location = \<lparr>rp_status = 303, rp_location = Some location,
     rp_cookies = cleared @ [SetCookie session_cookie (sign_session hmac secret s) (session_cookie_options insecure) None], rp_page = None\<rparr>"

text \<open>\<open>n <= now\<close> for a value that should be a number: what is no number is never smaller.\<close>

definition js_expired :: "jsval \<Rightarrow> int \<Rightarrow> bool" where
  "js_expired v now = (case v of JNum n \<Rightarrow> num_is_finite n \<and> \<not> num_less (NInt now) n
     | JStr s \<Rightarrow> num_is_finite (js_number s) \<and> \<not> num_less (NInt now) (js_number s)
     | JNull \<Rightarrow> 0 \<le> now | JBool b \<Rightarrow> (if b then 1 else 0) \<le> now | _ \<Rightarrow> False)"

definition given :: "string option \<Rightarrow> string option" where
  "given q = (case q of Some (c # s) \<Rightarrow> Some (c # s) | _ \<Rightarrow> None)"

definition next_of :: "jsval \<Rightarrow> string + string" where
  "next_of v = (case v of JStr s \<Rightarrow> Inr (safe_next_path (Some s)) | _ \<Rightarrow> if truthy v then Inl ''TypeError'' else Inr ''/'')"

definition iam_session :: "id_claims \<Rightarrow> int \<Rightarrow> session" where
  "iam_session claims now = \<lparr>se_email = ic_email claims, se_id = ic_sub claims, se_via = ''iam'', se_expires = NInt (now + session_ttl_ms)\<rparr>"

definition get_callback :: "hmac \<Rightarrow> string \<Rightarrow> bool \<Rightarrow> fetch \<Rightarrow> oidc_options option \<Rightarrow> int \<Rightarrow> bool \<Rightarrow> string option \<Rightarrow> (string \<times> string) list
    \<Rightarrow> discovery option \<Rightarrow> (string + reply) \<times> discovery option" where
  "get_callback hmac secret insecure fetch oidc now iam_up cookie query d = (case oidc of
     None \<Rightarrow> (Inr \<lparr>rp_status = 404, rp_location = None, rp_cookies = [], rp_page = None\<rparr>, d)
   | Some oo \<Rightarrow>
       (let flow = verify_value hmac secret (case cookie of Some c \<Rightarrow> c | None \<Rightarrow> '''') in
        case given (map_of query ''state'') of
          None \<Rightarrow> (Inr (sign_in_failed iam_up True ''This sign-in link has expired. Start again.''), d)
        | Some state \<Rightarrow>
          if \<not> truthy flow \<or> js_expired (prop_of flow ''expiresAt'') now \<or> prop_of flow ''state'' \<noteq> JStr state
          then (Inr (sign_in_failed iam_up True ''This sign-in link has expired. Start again.''), d)
          else case given (map_of query ''code'') of
            None \<Rightarrow> (Inr (sign_in_failed iam_up True ''iam did not return an authorization code.''), d)
          | Some code \<Rightarrow> (case exchange fetch oo now code (to_str (prop_of flow ''verifier'')) (prop_of flow ''nonce'') d of
              (Inl _, d') \<Rightarrow> (Inr (sign_in_failed iam_up True ''iam could not complete this sign-in.''), d')
            | (Inr claims, d') \<Rightarrow>
                (bind_err (next_of (prop_of flow ''next'')) (\<lambda>location. Inr (session_reply hmac secret insecure (iam_session claims now)
                   [ClearCookie flow_cookie (session_cookie_options insecure)] location)), d'))))"

text \<open>\<open>POST /login/break-glass\<close> with the outcome of the attempt: the denial's detail, or who signed in.\<close>

definition post_break_glass :: "hmac \<Rightarrow> string \<Rightarrow> bool \<Rightarrow> int \<Rightarrow> bool \<Rightarrow> bool \<Rightarrow> (string \<times> string) + (string \<times> string) \<Rightarrow> reply" where
  "post_break_glass hmac secret insecure now iam_up configured result = (case result of
     Inl (_, detail) \<Rightarrow> \<lparr>rp_status = 401, rp_location = None, rp_cookies = [], rp_page = Some \<lparr>lp_iam_reachable = iam_up,
        lp_iam_configured = configured, lp_login_url = iam_start_location (Some ''/''), lp_error = Some detail\<rparr>\<rparr>
   | Inr (email, uid) \<Rightarrow> session_reply hmac secret insecure
        \<lparr>se_email = email, se_id = uid, se_via = ''break-glass'', se_expires = NInt (now + session_ttl_ms)\<rparr> [] ''/'')"

definition post_logout :: "bool \<Rightarrow> reply" where
  "post_logout insecure = \<lparr>rp_status = 303, rp_location = Some ''/login'',
     rp_cookies = [ClearCookie session_cookie (session_cookie_options insecure)], rp_page = None\<rparr>"

lemma flow_json_ok: "json_ok (flow_json f)"
  by (simp add: flow_json_def)

lemma flow_props:
  "prop_of (flow_json f) ''state'' = JStr (fl_state f)" "prop_of (flow_json f) ''nonce'' = JStr (fl_nonce f)"
  "prop_of (flow_json f) ''verifier'' = JStr (fl_verifier f)" "prop_of (flow_json f) ''expiresAt'' = JNum (NInt (fl_expires f))"
  "prop_of (flow_json f) ''next'' = JStr (fl_next f)" "truthy (flow_json f)"
  by (simp_all add: flow_json_def prop_of_def get_prop_def obj_of_def)

lemma flow_is_no_session: "hmac_law hmac \<Longrightarrow> verify_session hmac secret now (sign_value hmac secret (flow_json f)) = Inr None"
  by (simp add: verify_session_def payload_of_value payload_json_value flow_json_ok)
     (simp add: flow_json_def prop_of_def get_prop_def obj_of_def)

text \<open>C14: a sign-in that was begun can be completed: with the cookie that beginning it set, the state it
  sent to iam and a code that iam exchanges (for the verifier and the nonce of that beginning),
  the callback inside the ten minutes sets a session that every request of the next eight hours is
  served under, and sends the browser to the local page it came from. The cookie of a sign-in in
  progress is itself never a session.\<close>

theorem sign_in_completes:
  assumes law: "hmac_law hmac"
    and start: "get_login_iam hmac secret insecure sha fetch url_set (Some oo) draw t next d0 = (Inr begun, d1)"
    and claims: "exchange fetch oo now code (base64url (ld_verifier draw)) (JStr (base64url (ld_nonce draw))) d = (Inr claims, d2)"
    and now: "now < t + flow_ttl_ms" and code: "code \<noteq> []" and state: "ld_state draw \<noteq> []"
  shows "\<exists>cookie. rp_cookies begun = [SetCookie flow_cookie cookie (session_cookie_options insecure) (Some 600)]
    \<and> get_callback hmac secret insecure fetch (Some oo) now iam_up (Some cookie) [(''state'', base64url (ld_state draw)), (''code'', code)] d
        = (Inr (session_reply hmac secret insecure (iam_session claims now) [ClearCookie flow_cookie (session_cookie_options insecure)]
             (safe_next_path next)), d2)
    \<and> on_request hmac secret t' up configured (Some cookie) url = on_request hmac secret t' up configured None url
    \<and> (t' < now + session_ttl_ms \<longrightarrow>
        on_request hmac secret t' up configured (Some (sign_session hmac secret (iam_session claims now))) url = Inr (Inr (Some (iam_session claims now))))"
proof -
  let ?flow = "new_flow sha draw t next"
  let ?cookie = "sign_value hmac secret (flow_json ?flow)"
  have c: "rp_cookies begun = [SetCookie flow_cookie ?cookie (session_cookie_options insecure) (Some 600)]"
    using start by (auto simp: get_login_iam_def Let_def flow_ttl_ms_def split: prod.splits sum.splits)
  have v: "verify_value hmac secret ?cookie = flow_json ?flow" by (rule verify_value_sign [OF law flow_json_ok])
  have f: "fl_state ?flow = base64url (ld_state draw)" "fl_nonce ?flow = base64url (ld_nonce draw)" "fl_verifier ?flow = base64url (ld_verifier draw)"
    "fl_expires ?flow = t + flow_ttl_ms" "fl_next ?flow = safe_next_path next"
    by (simp_all add: new_flow_def create_pkce_def pkce_for_def)
  have g: "given (Some s) = Some s" if "s \<noteq> []" for s using that by (cases s) (simp_all add: given_def)
  have idem: "safe_next_path (Some (safe_next_path next)) = safe_next_path next"
    by (rule local_path_kept [OF safe_next_path_local])
  have "get_callback hmac secret insecure fetch (Some oo) now iam_up (Some ?cookie) [(''state'', base64url (ld_state draw)), (''code'', code)] d
        = (Inr (session_reply hmac secret insecure (iam_session claims now) [ClearCookie flow_cookie (session_cookie_options insecure)]
             (safe_next_path next)), d2)"
    using now code state claims
    by (simp add: get_callback_def v f flow_props g js_expired_def next_of_def idem)
  moreover have "on_request hmac secret t' up configured (Some ?cookie) url = on_request hmac secret t' up configured None url"
    by (simp add: on_request_def flow_is_no_session [OF law]) (simp add: verify_session_def signed_payload_def)
  moreover have "on_request hmac secret t' up configured (Some (sign_session hmac secret (iam_session claims now))) url = Inr (Inr (Some (iam_session claims now)))"
    if "t' < now + session_ttl_ms"
    using that verify_session_sign [OF law, of "iam_session claims now" "now + session_ttl_ms" t']
    by (simp add: on_request_def iam_session_def via_values_def)
  ultimately show ?thesis using c by blast
qed


definition demo_oidc :: oidc_options where
  "demo_oidc = \<lparr>oo_issuer = ''i'', oo_client_id = ''c'', oo_client_secret = ''s'', oo_redirect_uri = ''r''\<rparr>"

definition demo_claims :: jsval where
  "demo_claims = JObj [(''iss'', JStr ''i''), (''aud'', JStr ''c''), (''exp'', JNum (NInt 100)), (''nonce'', JStr (base64url [2])),
     (''sub'', JStr ''7''), (''email'', JStr ''a@b'')]"

definition demo_fetch :: fetch where
  "demo_fetch rq = Inr \<lparr>hr_ok = True, hr_status = 200,
     hr_json = Inr (JObj [(''id_token'', JStr (''h.'' @ base64url (bytes_of (json demo_claims)) @ ''.s''))])\<rparr>"

lemma demo_token: "validate_token demo_oidc 5 (JStr (base64url [2])) (''h.'' @ base64url (bytes_of (json demo_claims)) @ ''.s'') = Inr \<lparr>ic_sub = ''7'', ic_email = ''a@b''\<rparr>"
proof -
  have "split_on (CHR ''.'') (''h.'' @ base64url (bytes_of (json demo_claims)) @ ''.s'') = [''h'', base64url (bytes_of (json demo_claims)), ''s'']"
    using split_on_append [of "CHR ''.''" "base64url (bytes_of (json demo_claims))" "''s''"]
    by (simp add: base64url_no_dot)
  moreover have "payload_json (base64url (bytes_of (json demo_claims))) = Some demo_claims"
    by (rule payload_json_value) (simp add: demo_claims_def)
  moreover have "check_claims demo_oidc 5 (JStr (base64url [2])) demo_claims = Inr \<lparr>ic_sub = ''7'', ic_email = ''a@b''\<rparr>"
    unfolding check_claims_Inr by (simp add: demo_claims_def demo_oidc_def prop_of_def get_prop_def obj_of_def times_1000_def is_string_def)
  ultimately show ?thesis by (simp add: validate_token_def bytes_of_def)
qed

lemma demo_exchange: "exchange demo_fetch demo_oidc 5 ''code'' v (JStr (base64url [2])) (Some (JStr ''a'', JStr ''t''))
    = (Inr \<lparr>ic_sub = ''7'', ic_email = ''a@b''\<rparr>, Some (JStr ''a'', JStr ''t''))"
  using demo_token by (simp add: exchange_def discover_def demo_fetch_def prop_of_def get_prop_def obj_of_def is_string_def str_val_def)

definition demo_draw :: login_draw where
  "demo_draw = \<lparr>ld_state = [1], ld_nonce = [2], ld_verifier = [3]\<rparr>"

lemma demo_begin:
  "get_login_iam demo_hmac256 ''k'' False (\<lambda>_. [0]) demo_fetch (\<lambda>_ _. Inr ''u'') (Some demo_oidc) demo_draw 0 (Some ''/p'') (Some (JStr ''a'', JStr ''t''))
     = (Inr \<lparr>rp_status = 302, rp_location = Some ''u'', rp_cookies = [SetCookie flow_cookie
          (sign_value demo_hmac256 ''k'' (flow_json (new_flow (\<lambda>_. [0]) demo_draw 0 (Some ''/p'')))) (session_cookie_options False) (Some (flow_ttl_ms div 1000))],
          rp_page = None\<rparr>, Some (JStr ''a'', JStr ''t''))"
  by (simp add: get_login_iam_def authorization_url_def discover_def Let_def)

theorem sign_in_completes_witness:
  "\<exists>cookie d. fst (get_callback demo_hmac256 ''k'' False demo_fetch (Some demo_oidc) 5 True (Some cookie)
      [(''state'', base64url [1]), (''code'', ''code'')] d)
    = Inr (session_reply demo_hmac256 ''k'' False (iam_session \<lparr>ic_sub = ''7'', ic_email = ''a@b''\<rparr> 5) [ClearCookie flow_cookie (session_cookie_options False)]
        (safe_next_path (Some ''/p'')))"
proof -
  have x: "exchange demo_fetch demo_oidc 5 ''code'' (base64url (ld_verifier demo_draw)) (JStr (base64url (ld_nonce demo_draw))) (Some (JStr ''a'', JStr ''t''))
    = (Inr \<lparr>ic_sub = ''7'', ic_email = ''a@b''\<rparr>, Some (JStr ''a'', JStr ''t''))"
    using demo_exchange by (simp add: demo_draw_def)
  show ?thesis
    using sign_in_completes [OF demo_hmac256_law demo_begin x, of True 0 True True "''/''"]
    by (simp add: flow_ttl_ms_def demo_draw_def) (metis fst_conv)
qed


end
