(* ===== verification/Fsys.thy ===== *)
theory Fsys
  imports Disk
begin

section \<open>Plain files beside the database\<close>

text \<open>
  The files the service keeps with \<open>node:fs/promises\<close> directly: the snapshot, the write journal, the
  preference file and the temporary documents handed to sops. A file is a path and its contents;
  directories are not part of the state, so \<open>mkdir\<close> is one step without effect. Every call is one or
  more durable steps, each of which may fail; \<open>writeFile\<close> truncates first and writes then, so that a
  crash can leave an empty file. Missing files throw \<open>ENOENT\<close>, other failures \<open>EIO\<close>.
\<close>

record fsys =
  fs_files :: "(path \<times> string) list"
  fs_clock :: nat
  fs_fails :: "nat \<Rightarrow> bool"

type_synonym 'a fio = "(fsys, 'a) prog"

definition enoent :: string where
  "enoent = ''ENOENT''"

definition fs_step :: "(fsys \<Rightarrow> fsys) \<Rightarrow> unit fio" where
  "fs_step f s = (let s' = s\<lparr>fs_clock := Suc (fs_clock s)\<rparr>
     in if fs_fails s (fs_clock s) then (Inl ''EIO'', s') else (Inr (), f s'))"

definition content :: "fsys \<Rightarrow> path \<Rightarrow> string option" where
  "content s p = map_of (fs_files s) p"

definition set_file :: "path \<Rightarrow> string \<Rightarrow> fsys \<Rightarrow> fsys" where
  "set_file p c s = s\<lparr>fs_files := AList.update p c (fs_files s)\<rparr>"

definition unset_file :: "path \<Rightarrow> fsys \<Rightarrow> fsys" where
  "unset_file p s = s\<lparr>fs_files := AList.delete p (fs_files s)\<rparr>"

definition read_file :: "path \<Rightarrow> string fio" where
  "read_file p = io_then (fs_step id) (io_bind (io_read (\<lambda>s. content s p)) (\<lambda>c.
     case c of None \<Rightarrow> io_throw enoent | Some t \<Rightarrow> io_return t))"

definition write_file :: "path \<Rightarrow> string \<Rightarrow> unit fio" where
  "write_file p c = io_then (fs_step (set_file p '''')) (fs_step (set_file p c))"

definition append_file :: "path \<Rightarrow> string \<Rightarrow> unit fio" where
  "append_file p c = fs_step (\<lambda>s. set_file p ((case content s p of None \<Rightarrow> '''' | Some t \<Rightarrow> t) @ c) s)"

definition rename_file :: "path \<Rightarrow> path \<Rightarrow> unit fio" where
  "rename_file p q = io_bind (io_read (\<lambda>s. content s p)) (\<lambda>c.
     case c of None \<Rightarrow> io_throw enoent | Some t \<Rightarrow> fs_step (\<lambda>s. set_file q t (unset_file p s)))"

definition remove_file :: "path \<Rightarrow> unit fio" where
  "remove_file p = fs_step (unset_file p)"

definition make_directory :: "unit fio" where
  "make_directory = fs_step id"

text \<open>
  The way a file is replaced as a whole: written under a temporary name and moved over the old one;
  when the move fails the temporary file is removed if it can be and the error is passed on.
\<close>

definition write_through :: "path \<Rightarrow> path \<Rightarrow> string \<Rightarrow> unit fio" where
  "write_through temp p c = io_then (write_file temp c)
     (io_catch (rename_file temp p)
       (\<lambda>cause. io_then (io_catch (remove_file temp) (\<lambda>_. io_return ())) (io_throw cause)))"

text \<open>\<open>catch\<close> that answers a missing file and passes every other error on.\<close>

definition missing_as :: "'a \<Rightarrow> 'a fio \<Rightarrow> 'a fio" where
  "missing_as d m = io_catch m (\<lambda>e. if e = enoent then io_return d else io_throw e)"

text \<open>\<open>try m finally n\<close>: \<open>n\<close> runs either way, and its own error wins.\<close>

definition io_finally :: "('s, 'a) prog \<Rightarrow> ('s, unit) prog \<Rightarrow> ('s, 'a) prog" where
  "io_finally m n s = (case m s of (r, s') \<Rightarrow> (case n s' of (Inl e, s'') \<Rightarrow> (Inl e, s'') | (Inr _, s'') \<Rightarrow> (r, s'')))"

subsection \<open>Contents under the operations\<close>

lemma content_simps [simp]:
  "content (set_file p c s) q = (if q = p then Some c else content s q)"
  "content (unset_file p s) q = (if q = p then None else content s q)"
  "content (s\<lparr>fs_clock := n\<rparr>) q = content s q"
  by (simp_all add: content_def set_file_def unset_file_def)

lemma content_clock [simp]: "content (s\<lparr>fs_clock := n\<rparr>) = content s"
  by (rule ext) simp

lemma fs_fails_simps [simp]:
  "fs_fails (set_file p c s) = fs_fails s" "fs_fails (unset_file p s) = fs_fails s"
  by (simp_all add: set_file_def unset_file_def)

text \<open>Without failures every call succeeds; only the clock and the files change.\<close>

definition calm :: "fsys \<Rightarrow> bool" where
  "calm s = (\<forall>n. \<not> fs_fails s n)"

lemma calm_simps [simp]:
  "calm (set_file p c s) = calm s" "calm (unset_file p s) = calm s" "calm (s\<lparr>fs_clock := n\<rparr>) = calm s"
  by (simp_all add: calm_def)

lemma fs_step_calm: "calm s \<Longrightarrow> fs_step f s = (Inr (), f (s\<lparr>fs_clock := Suc (fs_clock s)\<rparr>))"
  by (simp add: fs_step_def calm_def)

lemma triple_fs_step:
  assumes "\<And>s n. P s \<Longrightarrow> E (s\<lparr>fs_clock := n\<rparr>)" and "\<And>s n. P s \<Longrightarrow> Q () (f (s\<lparr>fs_clock := n\<rparr>))"
  shows "triple P (fs_step f) Q E"
  using assms by (auto simp: triple_def fs_step_def Let_def)

text \<open>Observations of the files: assertions that only look at contents.\<close>

definition on_files :: "((path \<Rightarrow> string option) \<Rightarrow> bool) \<Rightarrow> fsys \<Rightarrow> bool" where
  "on_files P s = P (content s)"

lemma on_files_clock [simp]: "on_files P (s\<lparr>fs_clock := n\<rparr>) = on_files P s"
proof -
  have "content (s\<lparr>fs_clock := n\<rparr>) = content s" by (rule ext) simp
  then show ?thesis by (simp add: on_files_def)
qed

lemma content_set: "content (set_file p c s) = (content s)(p \<mapsto> c)"
  by (auto simp: fun_eq_iff)

lemma content_unset: "content (unset_file p s) = (content s)(p := None)"
  by (auto simp: fun_eq_iff)

lemma on_files_step:
  assumes "\<And>F. P F \<Longrightarrow> E F" and "\<And>F. P F \<Longrightarrow> Q () (g F)" and "\<And>s. content (f s) = g (content s)"
  shows "triple (on_files P) (fs_step f) (\<lambda>x. on_files (Q x)) (on_files E)"
  by (rule triple_fs_step) (use assms in \<open>auto simp: on_files_def content_def [abs_def]\<close>)

lemma write_file_triple:
  assumes "\<And>F. P F \<Longrightarrow> E F" and "\<And>F. P F \<Longrightarrow> E (F(p \<mapsto> ''''))" and "\<And>F. P F \<Longrightarrow> Q () (F(p \<mapsto> c))"
  shows "triple (on_files P) (write_file p c) (\<lambda>x. on_files (Q x)) (on_files E)"
  unfolding write_file_def
proof (rule triple_then)
  show "triple (on_files P) (fs_step (set_file p '''')) (\<lambda>_. on_files (\<lambda>G. \<exists>F. P F \<and> G = F(p \<mapsto> ''''))) (on_files E)"
    by (rule on_files_step [where g = "\<lambda>F. F(p \<mapsto> '''')"]) (use assms in \<open>auto simp: content_set\<close>)
  show "triple (on_files (\<lambda>G. \<exists>F. P F \<and> G = F(p \<mapsto> ''''))) (fs_step (set_file p c)) (\<lambda>x. on_files (Q x)) (on_files E)"
    by (rule on_files_step [where g = "\<lambda>F. F(p \<mapsto> c)"]) (use assms in \<open>auto simp: content_set\<close>)
qed

lemma remove_file_triple:
  assumes "\<And>F. P F \<Longrightarrow> E F" and "\<And>F. P F \<Longrightarrow> Q () (F(p := None))"
  shows "triple (on_files P) (remove_file p) (\<lambda>x. on_files (Q x)) (on_files E)"
  unfolding remove_file_def by (rule on_files_step [where g = "\<lambda>F. F(p := None)"]) (use assms in \<open>auto simp: content_unset\<close>)

lemma append_file_triple:
  assumes "\<And>F. P F \<Longrightarrow> E F"
    and "\<And>F. P F \<Longrightarrow> Q () (F(p \<mapsto> (case F p of None \<Rightarrow> '''' | Some t \<Rightarrow> t) @ c))"
  shows "triple (on_files P) (append_file p c) (\<lambda>x. on_files (Q x)) (on_files E)"
  unfolding append_file_def
  by (rule on_files_step [where g = "\<lambda>F. F(p \<mapsto> (case F p of None \<Rightarrow> '''' | Some t \<Rightarrow> t) @ c)"]) (use assms in \<open>auto simp: content_set\<close>)

lemma idle_step_triple:
  assumes "\<And>F. P F \<Longrightarrow> E F"
  shows "triple (on_files P) (fs_step id) (\<lambda>_. on_files P) (on_files E)"
  by (rule on_files_step [where g = id]) (use assms in auto)

lemma read_file_triple:
  assumes "\<And>F. P F \<Longrightarrow> E F" and "\<And>F t. P F \<Longrightarrow> F p = Some t \<Longrightarrow> Q t F"
  shows "triple (on_files P) (read_file p) (\<lambda>x. on_files (Q x)) (on_files E)"
  unfolding read_file_def
proof (rule triple_then [OF idle_step_triple], use assms in blast)
  show "triple (on_files P) (io_bind (io_read (\<lambda>s. content s p)) (\<lambda>c. case c of None \<Rightarrow> io_throw enoent | Some t \<Rightarrow> io_return t))
      (\<lambda>x. on_files (Q x)) (on_files E)"
    using assms by (auto simp: triple_def io_bind_def io_read_def io_throw_def io_return_def on_files_def split: option.split)
qed

lemma rename_file_triple:
  assumes "\<And>F. P F \<Longrightarrow> E F" and "\<And>F t. P F \<Longrightarrow> F p = Some t \<Longrightarrow> Q () (F(p := None, q \<mapsto> t))"
  shows "triple (on_files P) (rename_file p q) (\<lambda>x. on_files (Q x)) (on_files E)"
proof -
  have "triple (on_files (\<lambda>F. P F \<and> F p = Some t)) (fs_step (\<lambda>s. set_file q t (unset_file p s))) (\<lambda>x. on_files (Q x)) (on_files E)" for t
    by (rule on_files_step [where g = "\<lambda>F. F(p := None, q \<mapsto> t)"]) (use assms in \<open>auto simp: content_set content_unset\<close>)
  then show ?thesis
    using assms by (fastforce simp: rename_file_def triple_def io_bind_def io_read_def io_throw_def on_files_def split: option.split)
qed

lemma missing_read_triple:
  assumes "\<And>F. P F \<Longrightarrow> E F" and "\<And>F. P F \<Longrightarrow> Q (case F p of None \<Rightarrow> d | Some t \<Rightarrow> t) F"
  shows "triple (on_files P) (missing_as d (read_file p)) (\<lambda>x. on_files (Q x)) (on_files E)"
  unfolding triple_def
proof (intro allI impI)
  fix s assume "on_files P s"
  then have P: "P (content s)" by (simp add: on_files_def)
  have c: "content (s\<lparr>fs_clock := n\<rparr>) = content s" for n by (rule ext) simp
  show "case missing_as d (read_file p) s of (Inl e, s') \<Rightarrow> on_files E s' | (Inr x, s') \<Rightarrow> on_files (Q x) s'"
    using assms(1) [OF P] assms(2) [OF P]
    by (auto simp: missing_as_def read_file_def io_catch_def io_then_def io_bind_def io_read_def io_throw_def io_return_def
        fs_step_def Let_def on_files_def c enoent_def split: option.split)
qed

lemma io_finally_triple:
  assumes "triple P m Q E" and "\<And>x. triple (Q x) n (\<lambda>_. R x) F" and "triple E n (\<lambda>_. F) F"
  shows "triple P (io_finally m n) R F"
  unfolding triple_def
proof (intro allI impI)
  fix s assume s: "P s"
  obtain r s' where m: "m s = (r, s')" by (cases "m s")
  obtain r' s'' where n: "n s' = (r', s'')" by (cases "n s'")
  show "case io_finally m n s of (Inl e, s') \<Rightarrow> F s' | (Inr x, s') \<Rightarrow> R x s'"
    using tripleD [OF assms(1) s m] tripleD [OF assms(2) _ n] tripleD [OF assms(3) _ n]
    by (auto simp: io_finally_def m n split: sum.splits)
qed

text \<open>Whatever step of a replacement fails, the file is the old one or the new one.\<close>

lemma write_through_triple:
  assumes "p \<noteq> temp"
  shows "triple (on_files (\<lambda>F. F p = old)) (write_through temp p c)
    (\<lambda>_. on_files (\<lambda>F. F p = Some c)) (on_files (\<lambda>F. F p = old))"
proof -
  let ?mid = "\<lambda>F. F p = old \<and> F temp = Some c"
  have w: "triple (on_files (\<lambda>F. F p = old)) (write_file temp c) (\<lambda>_. on_files ?mid) (on_files (\<lambda>F. F p = old))"
    by (rule write_file_triple) (use assms in auto)
  have r: "triple (on_files ?mid) (rename_file temp p) (\<lambda>_. on_files (\<lambda>F. F p = Some c)) (on_files ?mid)"
    by (rule rename_file_triple) auto
  have d: "triple (on_files ?mid) (io_catch (remove_file temp) (\<lambda>_. io_return ())) (\<lambda>_. on_files (\<lambda>F. F p = old)) (on_files (\<lambda>F. F p = old))"
  proof (rule triple_catch [where R = "on_files (\<lambda>F. F p = old)"])
    show "triple (on_files ?mid) (remove_file temp) (\<lambda>_. on_files (\<lambda>F. F p = old)) (on_files (\<lambda>F. F p = old))"
      by (rule remove_file_triple) (use assms in auto)
  qed (rule triple_return)
  show ?thesis unfolding write_through_def
    by (rule triple_then [OF w triple_catch [OF r]], rule triple_then [OF d]) (rule triple_throw)
qed

lemma write_through_result:
  assumes "p \<noteq> temp" and "write_through temp p c w = (r, w')"
  shows "content w' p = (case r of Inl _ \<Rightarrow> content w p | Inr _ \<Rightarrow> Some c)"
proof -
  have "on_files (\<lambda>F. F p = content w p) w" by (simp add: on_files_def)
  from tripleD [OF write_through_triple [OF assms(1)] this assms(2)] show ?thesis
    by (simp add: on_files_def split: sum.splits)
qed

lemma calm_read_file:
  "calm s \<Longrightarrow> fst (read_file p s) = (case content s p of None \<Rightarrow> Inl enoent | Some t \<Rightarrow> Inr t)"
  by (simp add: read_file_def io_then_def io_bind_def io_read_def io_throw_def io_return_def fs_step_calm split: option.split)

lemma content_fails [simp]: "content (w\<lparr>fs_fails := g\<rparr>) q = content w q"
  by (simp add: content_def)

end
