(* ===== verification/Sops.thy ===== *)
theory Sops
  imports Fsys Documents
begin

section \<open>Decrypting and encrypting documents (src/store/sops.ts, src/store/sops-encryptor.ts)\<close>

text \<open>
  Both classes run the \<open>sops\<close> program over a document in a private directory. The program is the
  parameter \<open>spawn\<close>: given a command, its arguments, its environment and the files it can read, it
  fails to start (\<open>Inl\<close>) or gives its output, its error text and its exit code, if it has one. The
  name \<open>mkdtemp\<close> gives the directory is the parameter \<open>dir\<close>.
\<close>

record proc =
  pr_stdout :: string
  pr_stderr :: string
  pr_code :: int

type_synonym env = "(string \<times> string) list"
type_synonym spawn = "string \<Rightarrow> string list \<Rightarrow> env \<Rightarrow> (path \<Rightarrow> string option) \<Rightarrow> string + string \<times> string \<times> int option"

definition default_path :: string where
  "default_path = ''/usr/local/bin:/usr/bin:/bin''"

definition search_path :: "string option \<Rightarrow> string" where
  "search_path p = (case p of Some s \<Rightarrow> s | None \<Rightarrow> default_path)"

definition build_decrypt_command :: "string option \<Rightarrow> string \<Rightarrow> path \<Rightarrow> string list \<times> env" where
  "build_decrypt_command path_var age_key document =
     ([''--decrypt'', ''--input-type'', ''yaml'', ''--output-type'', ''yaml'', document],
      [(''PATH'', search_path path_var), (''SOPS_AGE_KEY'', age_key)])"

definition is_encrypted :: "yaml \<Rightarrow> string \<Rightarrow> bool" where
  "is_encrypted yaml source = (case yaml source of Inr (JObj kvs) \<Rightarrow> has_key kvs ''sops'' | _ \<Rightarrow> False)"

text \<open>\<open>text.split(sep).join(by)\<close> for a separator that is not empty.\<close>

function (sequential) split_text :: "string \<Rightarrow> string \<Rightarrow> string list" where
  "split_text sep [] = [[]]"
| "split_text sep (c # s) =
     (if sep \<noteq> [] \<and> starts_with sep (c # s) then [] # split_text sep (drop (length sep) (c # s))
      else (case split_text sep s of x # xs \<Rightarrow> (c # x) # xs | [] \<Rightarrow> [[c]]))"
  by pat_completeness auto
termination
  by (relation "measure (\<lambda>(sep, s). length s)") auto

definition redacted :: string where
  "redacted = ''[redacted age key]''"

definition redact_age_key :: "string \<Rightarrow> string \<Rightarrow> string" where
  "redact_age_key text age_key = (if age_key \<noteq> [] then join redacted (split_text age_key text) else text)"

definition run_process :: "spawn \<Rightarrow> string \<Rightarrow> string list \<Rightarrow> env \<Rightarrow> proc fio" where
  "run_process spawn command args env = io_bind (io_read content) (\<lambda>F.
     case spawn command args env F of
       Inl e \<Rightarrow> io_throw e
     | Inr (out, errs, code) \<Rightarrow> io_return \<lparr>pr_stdout = out, pr_stderr = errs, pr_code = (case code of Some n \<Rightarrow> n | None \<Rightarrow> -1)\<rparr>)"

definition prune :: "path \<Rightarrow> fsys \<Rightarrow> fsys" where
  "prune dir s = s\<lparr>fs_files := filter (\<lambda>(p, _). \<not> starts_with (dir @ ''/'') p) (fs_files s)\<rparr>"

definition remove_tree :: "path \<Rightarrow> unit fio" where
  "remove_tree dir = fs_step (prune dir)"

definition document_in :: "path \<Rightarrow> path" where
  "document_in dir = dir @ ''/document.yaml''"

definition with_ciphertext_file :: "path \<Rightarrow> string \<Rightarrow> (path \<Rightarrow> 'a fio) \<Rightarrow> 'a fio" where
  "with_ciphertext_file dir source f = io_then make_directory
     (io_finally (io_then (write_file (document_in dir) source) (f (document_in dir))) (remove_tree dir))"

definition failure_text :: "string \<Rightarrow> int \<Rightarrow> string" where
  "failure_text t code = (if t \<noteq> [] then t else ''sops exited '' @ int_str code)"

definition sops_decrypt :: "yaml \<Rightarrow> spawn \<Rightarrow> string option \<Rightarrow> string \<Rightarrow> path \<Rightarrow> path \<Rightarrow> string \<Rightarrow> string fio" where
  "sops_decrypt yaml spawn path_var age_key dir p source =
     (if \<not> is_encrypted yaml source then io_return source
      else if age_key = [] then io_throw (''cannot decrypt '' @ p @ '': no age key is configured'')
      else io_bind (with_ciphertext_file dir source (\<lambda>file.
          (case build_decrypt_command path_var age_key file of (args, env) \<Rightarrow> run_process spawn ''sops'' args env))) (\<lambda>r.
        if pr_code r \<noteq> 0
        then io_throw (''could not decrypt '' @ p @ '': '' @ failure_text (redact_age_key (trim (pr_stderr r)) age_key) (pr_code r))
        else io_return (pr_stdout r)))"

definition access_file :: "path \<Rightarrow> unit fio" where
  "access_file p = io_bind (read_file p) (\<lambda>_. io_return ())"

definition encrypt_args :: "path \<Rightarrow> string \<Rightarrow> path \<Rightarrow> string list" where
  "encrypt_args config ns file = [''--encrypt'', ''--config'', config, ''--filename-override'', ''config/'' @ ns @ ''.yaml'',
     ''--input-type'', ''yaml'', ''--output-type'', ''yaml'', file]"

definition sops_encrypt :: "spawn \<Rightarrow> string option \<Rightarrow> path \<Rightarrow> path \<Rightarrow> string \<Rightarrow> string \<Rightarrow> string fio" where
  "sops_encrypt spawn path_var repo_dir dir ns plaintext = (let config = repo_dir @ ''/.sops.yaml'' in
     io_bind (io_catch (io_then (access_file config) (io_return True)) (\<lambda>_. io_return False)) (\<lambda>present.
     if \<not> present then io_return plaintext
     else io_bind (with_ciphertext_file dir plaintext (\<lambda>file.
          run_process spawn ''sops'' (encrypt_args config ns file) [(''PATH'', search_path path_var)])) (\<lambda>r.
        if pr_code r \<noteq> 0
        then io_throw (''could not encrypt config/'' @ ns @ ''.yaml: '' @ failure_text (trim (pr_stderr r)) (pr_code r))
        else io_return (pr_stdout r))))"

subsection \<open>The key stays out of every message\<close>

definition age_char :: "char \<Rightarrow> bool" where
  "age_char c = (is_upper c \<or> is_digit c \<or> c = CHR ''-'')"

definition age_identity :: "string \<Rightarrow> bool" where
  "age_identity k = (starts_with ''AGE-SECRET-KEY-1'' k \<and> list_all age_char k)"

text \<open>A word cannot reach over a character it does not have.\<close>

lemma contains_apart: "c \<notin> set k \<Longrightarrow> contains k (u @ c # v) \<longleftrightarrow> contains k u \<or> contains k v"
proof
  assume c: "c \<notin> set k" and "contains k (u @ c # v)"
  then obtain x y where xy: "u @ c # v = x @ k @ y" by (auto simp: contains_iff)
  then consider a where "u = x @ k @ a" | b where "v = b @ k @ y" | a b where "k = a @ c # b"
    by (auto simp: append_eq_append_conv2 append_eq_Cons_conv Cons_eq_append_conv) blast+
  then show "contains k u \<or> contains k v" using c by cases (auto simp: contains_iff)
next
  assume "contains k u \<or> contains k v"
  then show "contains k (u @ c # v)"
  proof
    assume "contains k u"
    then obtain a b where "u = a @ k @ b" by (auto simp: contains_iff)
    then have "u @ c # v = a @ k @ (b @ c # v)" by simp
    then show ?thesis unfolding contains_iff by blast
  next
    assume "contains k v"
    then obtain a b where "v = a @ k @ b" by (auto simp: contains_iff)
    then have "u @ c # v = (u @ c # a) @ k @ b" by simp
    then show ?thesis unfolding contains_iff by blast
  qed
qed

lemma contains_foreign:
  "k \<noteq> [] \<Longrightarrow> \<forall>c \<in> set w. c \<notin> set k \<Longrightarrow> w \<noteq> [] \<Longrightarrow> contains k (u @ w @ v) \<longleftrightarrow> contains k u \<or> contains k v"
proof (induction w arbitrary: u)
  case (Cons c w)
  show ?case
  proof (cases "w = []")
    case True
    then show ?thesis using Cons.prems by (simp add: contains_apart)
  next
    case False
    have "contains k (u @ (c # w) @ v) \<longleftrightarrow> contains k u \<or> contains k ([] @ w @ v)"
      using Cons.prems contains_apart [of c k u "w @ v"] by simp
    also have "contains k ([] @ w @ v) \<longleftrightarrow> contains k v"
      using Cons.IH [of "[]"] Cons.prems False by simp
    finally show ?thesis .
  qed
qed simp

lemma split_text_nonempty [simp]: "split_text sep s \<noteq> []"
  by (induction sep s rule: split_text.induct) (auto split: list.split)

lemma split_text_pieces: "sep \<noteq> [] \<Longrightarrow> x \<in> set (split_text sep s) \<Longrightarrow> \<not> contains sep x"
proof (induction sep s arbitrary: x rule: split_text.induct)
  case (2 sep c s)
  show ?case
  proof (cases "starts_with sep (c # s)")
    case True
    then show ?thesis using 2 by auto
  next
    case False
    obtain y ys where y: "split_text sep s = y # ys" by (cases "split_text sep s") auto
    have sub: "\<not> contains sep z" if "z \<in> set (y # ys)" for z using 2(2) False 2(3) that y by simp
    have ystart: "\<exists>t. s = y @ t" using y
    proof (induction sep s arbitrary: y ys rule: split_text.induct)
      case (2 sep c s)
      show ?case
      proof (cases "sep \<noteq> [] \<and> starts_with sep (c # s)")
        case False
        obtain z zs where z: "split_text sep s = z # zs" by (cases "split_text sep s") auto
        from 2(2) [OF False z] obtain t where "s = z @ t" by blast
        then show ?thesis using 2(3) False z by auto
      qed (use 2 in auto)
    qed simp
    then obtain t where t: "s = y @ t" by blast
    have "\<not> starts_with sep (c # y)"
    proof
      assume "starts_with sep (c # y)"
      then obtain u where "c # y = sep @ u" by (auto simp: starts_with_iff)
      then have "c # s = sep @ (u @ t)" using t by simp
      then show False using False by (metis starts_with_append)
    qed
    then have "\<not> contains sep (c # y)" using sub [of y] by simp
    then show ?thesis using 2(4) False y sub by auto
  qed
qed simp

lemma contains_join:
  assumes "k \<noteq> []" and "\<forall>c \<in> set w. c \<notin> set k" and "w \<noteq> []"
  shows "contains k (join w xs) \<longleftrightarrow> (\<exists>x \<in> set xs. contains k x)"
proof (induction xs)
  case (Cons x xs)
  then show ?case using contains_foreign [OF assms, of x "join w xs"] assms by (cases xs) simp_all
qed (use assms in auto)

lemma age_identity_foreign:
  assumes "age_identity k"
  shows "k \<noteq> []" and "\<forall>c \<in> set redacted. c \<notin> set k" and "c \<in> set k \<Longrightarrow> age_char c"
    and "CHR ''A'' \<in> set k"
proof -
  obtain t where k: "k = ''AGE-SECRET-KEY-1'' @ t" using assms by (auto simp: age_identity_def starts_with_iff)
  show "k \<noteq> []" "CHR ''A'' \<in> set k" by (simp_all add: k)
  show a: "age_char c" if "c \<in> set k" for c using assms that by (auto simp: age_identity_def list_all_iff)
  have "\<forall>c \<in> set redacted. \<not> age_char c" by code_simp
  then show "\<forall>c \<in> set redacted. c \<notin> set k" using a by blast
qed

lemma redact_clean:
  assumes "age_identity k"
  shows "\<not> contains k (redact_age_key t k)"
  using contains_join [OF age_identity_foreign(1,2) [OF assms]] split_text_pieces [OF age_identity_foreign(1) [OF assms]] age_identity_foreign(1) [OF assms]
  by (auto simp: redact_age_key_def redacted_def)

lemma contains_set: "contains k t \<Longrightarrow> set k \<subseteq> set t"
  by (auto simp: contains_iff)

lemma int_str_no_A: "CHR ''A'' \<notin> set (int_str n)"
  by (auto simp: int_str_def is_digit_def less_eq_char_def dest: nat_str_digits)

lemma failure_clean: "age_identity k \<Longrightarrow> \<not> contains k (failure_text (redact_age_key t k) code)"
  using redact_clean [of k t] contains_set [of k "''sops exited '' @ int_str code"] age_identity_foreign(4) [of k] int_str_no_A [of code]
  by (auto simp: failure_text_def)

lemma message_clean:
  assumes "age_identity k" and "CHR ''A'' \<notin> set a" and "\<not> contains k p" and "\<not> contains k t"
  shows "\<not> contains k (a @ '' '' @ p @ '': '' @ t)"
proof -
  have "\<not> age_char (CHR '' '')" "\<not> age_char (CHR '':'')" by code_simp+
  then have s: "CHR '' '' \<notin> set k" "CHR '':'' \<notin> set k" "k \<noteq> []" "CHR ''A'' \<in> set k"
    using age_identity_foreign [OF assms(1)] by blast+
  have "\<not> contains k a" using contains_set [of k a] s assms(2) by auto
  then show ?thesis
    using assms(3,4) s contains_apart [of "CHR '' ''" k a "p @ '': '' @ t"] contains_apart [of "CHR '':''" k p "'' '' @ t"]
      contains_apart [of "CHR '' ''" k "[]" t]
    by auto
qed

text \<open>The directory of a document is gone when the program is done with it, whatever the outcome.\<close>

definition outside :: "path \<Rightarrow> (path \<Rightarrow> string option) \<Rightarrow> path \<Rightarrow> string option" where
  "outside dir F p = (if starts_with (dir @ ''/'') p then None else F p)"

lemma calm_prune [simp]: "calm (prune dir s) = calm s"
  by (simp add: calm_def prune_def)

lemma content_prune [simp]: "content (prune dir s) = outside dir (content s)"
proof (rule ext)
  fix p
  have "map_of (filter (\<lambda>(q, _). \<not> starts_with (dir @ ''/'') q) xs) p = (if starts_with (dir @ ''/'') p then None else map_of xs p)" for xs :: "(path \<times> string) list"
    by (induction xs) auto
  then show "content (prune dir s) p = outside dir (content s) p"
    by (simp add: content_def outside_def prune_def)
qed

lemma calm_write:
  "calm s \<Longrightarrow> \<exists>s'. write_file p c s = (Inr (), s') \<and> calm s' \<and> content s' = (content s)(p \<mapsto> c)"
  by (simp add: write_file_def io_then_def io_bind_def fs_step_calm content_set)

lemma calm_with_file:
  assumes "calm s" and f: "\<And>s'. calm s' \<Longrightarrow> \<exists>s''. f (document_in dir) s' = (r (content s'), s'') \<and> calm s'' \<and> content s'' = content s'"
  shows "\<exists>s'. with_ciphertext_file dir source f s = (r ((content s)(document_in dir \<mapsto> source)), s') \<and> calm s'
    \<and> content s' = outside dir (content s)"
proof -
  let ?s = "s\<lparr>fs_clock := Suc (fs_clock s)\<rparr>"
  obtain s1 where s1: "write_file (document_in dir) source ?s = (Inr (), s1)" "calm s1" "content s1 = (content s)(document_in dir \<mapsto> source)"
    using calm_write [of ?s] assms(1) by auto
  obtain s2 where s2: "f (document_in dir) s1 = (r (content s1), s2)" "calm s2" "content s2 = content s1"
    using f [OF s1(2)] by blast
  have "outside dir ((content s)(document_in dir \<mapsto> source)) = outside dir (content s)"
    using starts_with_append [of "dir @ ''/''" "''document.yaml''"] by (auto simp: outside_def fun_eq_iff document_in_def)
  then show ?thesis
    using s1 s2 assms(1)
    by (cases "r (content s1)")
      (simp_all add: with_ciphertext_file_def io_then_def io_bind_def io_finally_def make_directory_def remove_tree_def fs_step_calm)
qed

definition unused :: "path \<Rightarrow> fsys \<Rightarrow> bool" where
  "unused dir s = list_all (\<lambda>(p, _). \<not> starts_with (dir @ ''/'') p) (fs_files s)"

lemma unused_outside: "unused dir s \<Longrightarrow> outside dir (content s) = content s"
proof (rule ext)
  fix p
  assume "unused dir s"
  then have "starts_with (dir @ ''/'') p \<longrightarrow> map_of (fs_files s) p = None"
    by (auto simp: unused_def list_all_iff map_of_eq_None_iff)
  then show "outside dir (content s) p = content s p" by (simp add: outside_def content_def)
qed

lemma calm_run:
  "calm s \<Longrightarrow> \<exists>s'. run_process spawn c args env s = ((case spawn c args env (content s) of Inl e \<Rightarrow> Inl e
      | Inr (out, errs, code) \<Rightarrow> Inr \<lparr>pr_stdout = out, pr_stderr = errs, pr_code = (case code of Some n \<Rightarrow> n | None \<Rightarrow> -1)\<rparr>), s')
    \<and> calm s' \<and> content s' = content s"
  by (auto simp: run_process_def io_bind_def io_read_def io_throw_def io_return_def split: sum.split)

lemma calm_process:
  assumes "calm s" and "unused dir s"
  shows "\<exists>r s'. with_ciphertext_file dir source (\<lambda>file. run_process spawn c (args file) env) s = (r, s') \<and> content s' = content s"
  using calm_with_file [OF assms(1), of "\<lambda>file. run_process spawn c (args file) env", OF calm_run] unused_outside [OF assms(2)]
  by metis

lemma fs_error: "fs_step f s = (Inl e, s') \<Longrightarrow> e = ''EIO''"
  by (auto simp: fs_step_def Let_def split: if_splits)

lemma process_error:
  assumes "with_ciphertext_file dir source (\<lambda>file. run_process spawn c (args file) env) s = (Inl e, s')"
  shows "e = ''EIO'' \<or> (\<exists>file F. spawn c (args file) env F = Inl e)"
  using assms
  by (auto simp: with_ciphertext_file_def io_then_def io_bind_def io_finally_def make_directory_def remove_tree_def write_file_def
      run_process_def io_read_def io_throw_def io_return_def dest!: fs_error split: prod.splits sum.splits)

text \<open>C21: decrypting keeps its key and its working copy to itself: whatever the program prints or
  fails with, no error message carries the age key, and (when the file system works) the directory
  the ciphertext passed through is gone again, on every outcome; a document without a sops block comes
  back untouched and needs no key.\<close>

theorem decrypt_hygiene:
  assumes key: "age_identity k" and p: "\<not> contains k p"
    and spawn: "\<And>args env F e. spawn ''sops'' args env F = Inl e \<Longrightarrow> \<not> contains k e"
    and run: "sops_decrypt yaml spawn path_var k dir p source s = (r, s')"
  shows "(\<forall>e. r = Inl e \<longrightarrow> \<not> contains k e)
    \<and> (calm s \<and> unused dir s \<longrightarrow> content s' = content s)
    \<and> (\<not> is_encrypted yaml source \<longrightarrow> r = Inr source \<and> sops_decrypt yaml spawn path_var [] dir p source s = (r, s'))"
proof (cases "is_encrypted yaml source")
  case True
  let ?m = "with_ciphertext_file dir source (\<lambda>file. run_process spawn ''sops'' (fst (build_decrypt_command path_var k file))
      [(''PATH'', search_path path_var), (''SOPS_AGE_KEY'', k)])"
  obtain q s1 where m: "?m s = (q, s1)" by (cases "?m s")
  have r: "(r, s') = (case q of Inl e \<Rightarrow> (Inl e, s1) | Inr x \<Rightarrow>
      if pr_code x \<noteq> 0 then (Inl (''could not decrypt '' @ p @ '': '' @ failure_text (redact_age_key (trim (pr_stderr x)) k) (pr_code x)), s1)
      else (Inr (pr_stdout x), s1))"
    using run m True age_identity_foreign(1) [OF key]
    by (auto simp: sops_decrypt_def build_decrypt_command_def io_bind_def io_throw_def io_return_def split: sum.split)
  have "\<not> contains k e" if "r = Inl e" for e
  proof (cases q)
    case (Inl e')
    then have "e' = e" using r that by simp
    moreover have "\<not> contains k ''EIO''" using contains_set [of k "''EIO''"] age_identity_foreign(4) [OF key] by auto
    moreover have "e' = ''EIO'' \<or> (\<exists>file F. spawn ''sops'' (fst (build_decrypt_command path_var k file))
        [(''PATH'', search_path path_var), (''SOPS_AGE_KEY'', k)] F = Inl e')"
      using m Inl by (intro process_error [where s' = s1]) simp
    ultimately show ?thesis using spawn by blast
  next
    case (Inr x)
    then have "e = ''could not decrypt'' @ '' '' @ p @ '': '' @ failure_text (redact_age_key (trim (pr_stderr x)) k) (pr_code x)"
      using r that by (auto split: if_splits)
    moreover have "CHR ''A'' \<notin> set ''could not decrypt''" by simp
    ultimately show ?thesis using message_clean [OF key _ p failure_clean [OF key]] by blast
  qed
  moreover have "content s' = content s" if "calm s" "unused dir s"
  proof -
    have "s' = s1" using r by (auto split: sum.splits if_splits)
    then show ?thesis
      using calm_process [OF that, of source spawn "''sops''" "\<lambda>file. fst (build_decrypt_command path_var k file)"
        "[(''PATH'', search_path path_var), (''SOPS_AGE_KEY'', k)]"] m by auto
  qed
  ultimately show ?thesis using True by blast
next
  case False
  with run show ?thesis by (auto simp: sops_decrypt_def io_return_def)
qed

definition demo_age_key :: string where
  "demo_age_key = ''AGE-SECRET-KEY-1XY''"

definition demo_spawn :: spawn where
  "demo_spawn c args env F = Inr ('''', ''no identity matched '' @ (case map_of env ''SOPS_AGE_KEY'' of Some k \<Rightarrow> k | None \<Rightarrow> ''-''), Some 128)"

text \<open>A program that echoes the key it was given.\<close>

theorem decrypt_hygiene_witness:
  "let s = \<lparr>fs_files = [(''/tmp/x'', ''y'')], fs_clock = 0, fs_fails = (\<lambda>_. False)\<rparr>;
       source = json (JObj [(''a'', JStr ''ENC[AES256_GCM,x]''), (''sops'', JObj [])]);
       (r, s') = sops_decrypt json_yaml demo_spawn None demo_age_key ''/tmp/d'' ''config/iam/dev.yaml'' source s
   in (\<exists>e. r = Inl e \<and> \<not> contains demo_age_key e) \<and> content s' = content s"
proof -
  let ?s = "\<lparr>fs_files = [(''/tmp/x'', ''y'')], fs_clock = 0, fs_fails = (\<lambda>_. False)\<rparr>"
  let ?source = "json (JObj [(''a'', JStr ''ENC[AES256_GCM,x]''), (''sops'', JObj [])])"
  let ?c = "sops_decrypt json_yaml demo_spawn None demo_age_key ''/tmp/d'' ''config/iam/dev.yaml'' ?source ?s"
  have key: "age_identity demo_age_key" "\<not> contains demo_age_key ''config/iam/dev.yaml''" "unused ''/tmp/d'' ?s" by code_simp+
  have "\<exists>e. fst ?c = Inl e"
  proof -
    have "isl (fst ?c)" by code_simp
    then show ?thesis by (cases "fst ?c") auto
  qed
  moreover have "?c = (fst ?c, snd ?c)" by simp
  moreover have "calm ?s" by (simp add: calm_def)
  ultimately show ?thesis
    using decrypt_hygiene [OF key(1,2), of demo_spawn json_yaml None "''/tmp/d''" ?source ?s "fst ?c" "snd ?c"] key(3)
    by (auto simp: demo_spawn_def Let_def split: prod.split)
qed

end
