(* ===== verification/Loader.thy ===== *)
theory Loader
  imports Fsys Documents
begin

section \<open>The served tree (src/store/loader.ts, cache.ts, snapshot.ts)\<close>

text \<open>
  From committed text to what a service is served. \<open>decrypt\<close> is the decryptor the loader is built
  with. The cache holds the tree, the flags of each environment and the listeners a held-open read
  registers; a listener is a number, and what calling it does is the parameter \<open>act\<close>.
\<close>

subsection \<open>Loading\<close>

type_synonym decryptor = "path \<Rightarrow> string \<Rightarrow> string + string"

record sources =
  src_commit :: string
  src_files :: "(string \<times> string) list"

record tree =
  tr_commit :: string
  tr_spaces :: "(string \<times> obj) list"

definition parse_config :: "yaml \<Rightarrow> path \<Rightarrow> string \<Rightarrow> string + obj" where
  "parse_config yaml p source = (case yaml source of
     Inl _ \<Rightarrow> Inl (p @ '' is not valid YAML'')
   | Inr JNull \<Rightarrow> Inr [] | Inr JUndef \<Rightarrow> Inr []
   | Inr (JObj kvs) \<Rightarrow> Inr kvs
   | Inr _ \<Rightarrow> Inl (p @ '' must be a mapping of config keys to values''))"

definition config_path :: "string \<Rightarrow> path" where
  "config_path ns = ''config/'' @ ns @ ''.yaml''"

definition resolve_one :: "yaml \<Rightarrow> decryptor \<Rightarrow> string \<Rightarrow> string \<Rightarrow> string + obj" where
  "resolve_one yaml decrypt ns source = bind_err (decrypt (config_path ns) source) (parse_config yaml (config_path ns))"

definition resolve_step :: "yaml \<Rightarrow> decryptor \<Rightarrow> string \<times> string \<Rightarrow> (string \<times> obj) list \<Rightarrow> string + (string \<times> obj) list" where
  "resolve_step yaml decrypt = (\<lambda>(ns, source) m. bind_err (resolve_one yaml decrypt ns source) (\<lambda>d. Inr (AList.update ns d m)))"

definition resolve_all :: "yaml \<Rightarrow> decryptor \<Rightarrow> sources \<Rightarrow> string + tree" where
  "resolve_all yaml decrypt s = bind_err (fold_err (resolve_step yaml decrypt) (src_files s) [])
     (\<lambda>m. Inr \<lparr>tr_commit = src_commit s, tr_spaces = m\<rparr>)"

lemma resolve_fold:
  assumes "fold_err (resolve_step yaml decrypt) fl m0 = Inr m" and "distinct (map fst fl)"
  shows "map_of m ns = (case map_of fl ns of
     Some source \<Rightarrow> (case resolve_one yaml decrypt ns source of Inr d \<Rightarrow> Some d | Inl _ \<Rightarrow> None)
   | None \<Rightarrow> map_of m0 ns)"
    and "(n, source) \<in> set fl \<Longrightarrow> \<exists>d. resolve_one yaml decrypt n source = Inr d"
proof -
  have "map_of m ns = (case map_of fl ns of
     Some source \<Rightarrow> (case resolve_one yaml decrypt ns source of Inr d \<Rightarrow> Some d | Inl _ \<Rightarrow> None)
   | None \<Rightarrow> map_of m0 ns) \<and> ((n, source) \<in> set fl \<longrightarrow> (\<exists>d. resolve_one yaml decrypt n source = Inr d))"
    using assms
  proof (induction fl arbitrary: m0)
    case (Cons f fl)
    obtain k v where f: "f = (k, v)" by (cases f)
    with Cons.prems obtain d where d: "resolve_one yaml decrypt k v = Inr d"
      by (cases "resolve_one yaml decrypt k v") (auto simp: resolve_step_def)
    with Cons.prems f have "fold_err (resolve_step yaml decrypt) fl (AList.update k d m0) = Inr m"
      by (simp add: resolve_step_def)
    from Cons.IH [OF this] Cons.prems(2) f d show ?case
      by (auto split: option.split dest: map_of_SomeD intro: rev_image_eqI)
  qed simp
  then show "map_of m ns = (case map_of fl ns of
     Some source \<Rightarrow> (case resolve_one yaml decrypt ns source of Inr d \<Rightarrow> Some d | Inl _ \<Rightarrow> None)
   | None \<Rightarrow> map_of m0 ns)" and "(n, source) \<in> set fl \<Longrightarrow> \<exists>d. resolve_one yaml decrypt n source = Inr d"
    by blast+
qed

subsection \<open>The cache\<close>

type_synonym flag_values = "(string \<times> bool) list"

record cache =
  ca_tree :: "tree option"
  ca_flags :: "(string \<times> flag_values) list"
  ca_synced :: "string option"
  ca_listeners :: "nat list"

definition new_cache :: cache where
  "new_cache = \<lparr>ca_tree = None, ca_flags = [], ca_synced = None, ca_listeners = []\<rparr>"

definition cache_get :: "cache \<Rightarrow> string \<Rightarrow> string \<Rightarrow> obj option" where
  "cache_get c service environment = (case ca_tree c of None \<Rightarrow> None
     | Some t \<Rightarrow> map_of (tr_spaces t) (service @ ''/'' @ environment))"

definition cache_commit :: "cache \<Rightarrow> string option" where
  "cache_commit c = map_option tr_commit (ca_tree c)"

definition mark_synced :: "string \<Rightarrow> cache \<Rightarrow> cache" where
  "mark_synced commit c = c\<lparr>ca_synced := Some commit\<rparr>"

definition flags_for :: "cache \<Rightarrow> string \<Rightarrow> flag_values" where
  "flags_for c environment = (case map_of (ca_flags c) environment of Some fs \<Rightarrow> fs | None \<Rightarrow> [])"

record reload_options =
  ro_flags :: "flag_values option"
  ro_by_environment :: "(string \<times> flag_values) list option"
  ro_synced :: "string option"

definition copy_spaces :: "tree \<Rightarrow> (string \<times> obj) list" where
  "copy_spaces t = foldl (\<lambda>m (ns, d). AList.update ns d m) [] (tr_spaces t)"

definition replace_tree :: "tree \<Rightarrow> reload_options \<Rightarrow> cache \<Rightarrow> cache" where
  "replace_tree t opts c = c\<lparr>
     ca_tree := Some \<lparr>tr_commit = tr_commit t, tr_spaces = copy_spaces t\<rparr>,
     ca_flags := (case ro_by_environment opts of Some m \<Rightarrow> m
       | None \<Rightarrow> [('''', case ro_flags opts of Some fs \<Rightarrow> fs | None \<Rightarrow> [])]),
     ca_synced := (case ro_synced opts of Some s \<Rightarrow> Some s | None \<Rightarrow> ca_synced c)\<rparr>"

text \<open>Waking the listeners: each call may throw, which is caught, and may change the cache.\<close>

fun wake :: "(nat \<Rightarrow> cache \<Rightarrow> (string + unit) \<times> cache) \<Rightarrow> nat list \<Rightarrow> cache \<Rightarrow> cache \<times> nat list" where
  "wake act [] c = (c, [])"
| "wake act (l # ls) c = (case act l c of (_, c') \<Rightarrow> (case wake act ls c' of (c'', called) \<Rightarrow> (c'', l # called)))"

definition cache_reload :: "(nat \<Rightarrow> cache \<Rightarrow> (string + unit) \<times> cache) \<Rightarrow> tree \<Rightarrow> reload_options \<Rightarrow> cache \<Rightarrow> cache \<times> nat list" where
  "cache_reload act t opts c = (let c' = replace_tree t opts c in wake act (ca_listeners c') c')"

definition on_change :: "nat \<Rightarrow> cache \<Rightarrow> cache" where
  "on_change l c = c\<lparr>ca_listeners := uniq (ca_listeners c @ [l])\<rparr>"

definition unsubscribe :: "nat \<Rightarrow> cache \<Rightarrow> cache" where
  "unsubscribe l c = c\<lparr>ca_listeners := removeAll l (ca_listeners c)\<rparr>"

subsection \<open>What a reload does\<close>

lemma fold_update_map:
  "distinct (map fst xs) \<Longrightarrow> map_of (foldl (\<lambda>m (ns, d). AList.update ns d m) m0 xs) k = (map_of m0 ++ map_of xs) k"
proof (induction xs arbitrary: m0)
  case (Cons x xs)
  obtain a b where x: "x = (a, b)" by (cases x)
  have "map_of xs a = None" using Cons.prems x by (auto simp: map_of_eq_None_iff image_iff)
  then show ?case using Cons x by (auto simp: map_add_def split: option.split)
qed simp

lemma copy_spaces_map: "distinct (map fst (tr_spaces t)) \<Longrightarrow> map_of (copy_spaces t) = map_of (tr_spaces t)"
  by (rule ext) (simp add: copy_spaces_def fold_update_map)

lemma wake_called: "snd (wake act ls c) = ls"
  by (induction ls arbitrary: c) (simp_all add: case_prod_beta)

subsection \<open>The files that define a namespace\<close>

definition namespace_file :: "path \<Rightarrow> string option" where
  "namespace_file p = (if ends_with ''.yaml'' p \<and> length (split_on (CHR ''/'') (slice 7 5 p)) = 2
     then Some (slice 7 5 p) else None)"

definition namespace_sources :: "(path \<times> string) list \<Rightarrow> (string \<times> string) list" where
  "namespace_sources fs = foldl (\<lambda>m (p, source). case namespace_file p of Some ns \<Rightarrow> AList.update ns source m | None \<Rightarrow> m) [] fs"

lemma namespace_file_config [simp]:
  "CHR ''/'' \<notin> set a \<Longrightarrow> CHR ''/'' \<notin> set b \<Longrightarrow> namespace_file (config_path (a @ ''/'' @ b)) = Some (a @ ''/'' @ b)"
proof -
  assume ab: "CHR ''/'' \<notin> set a" "CHR ''/'' \<notin> set b"
  have s: "slice 7 5 (config_path (a @ ''/'' @ b)) = a @ ''/'' @ b"
    by (simp add: config_path_def slice_def)
  have e: "ends_with ''.yaml'' (config_path (a @ ''/'' @ b))"
    using ends_with_append [of "''.yaml''" "''config/'' @ a @ ''/'' @ b"] by (simp add: config_path_def)
  have "split_on (CHR ''/'') (a @ CHR ''/'' # b) = [a, b]" using ab by (simp add: split_on_append split_on_no_sep)
  then show ?thesis using s e by (simp add: namespace_file_def)
qed

lemma distinct_namespace_sources: "distinct (map fst (namespace_sources fs))"
proof -
  have "distinct (map fst m) \<Longrightarrow> distinct (map fst (foldl (\<lambda>m (p, source). case namespace_file p of
      Some ns \<Rightarrow> AList.update ns source m | None \<Rightarrow> m) m fs))" for m
    by (induction fs arbitrary: m) (auto simp: distinct_update split: option.split)
  then show ?thesis by (simp add: namespace_sources_def)
qed

subsection \<open>The snapshot on disk\<close>

definition snapshot_json :: "sources \<Rightarrow> jsval" where
  "snapshot_json s = JObj [(''commit'', JStr (src_commit s)),
     (''sources'', JObj (map (\<lambda>(ns, t). (ns, JStr t)) (src_files s)))]"

definition is_snapshot :: "jsval \<Rightarrow> bool" where
  "is_snapshot v = (is_record v \<and> is_string (prop_of v ''commit'') \<and> is_record (prop_of v ''sources'')
     \<and> list_all (\<lambda>(_, x). is_string x) (obj_of (prop_of v ''sources'')))"

definition text_of :: "jsval \<Rightarrow> string" where
  "text_of v = (case v of JStr t \<Rightarrow> t | _ \<Rightarrow> '''')"

definition read_snapshot :: "string \<Rightarrow> sources option" where
  "read_snapshot t = (case json_parse t of None \<Rightarrow> None
     | Some v \<Rightarrow> if is_snapshot v
         then Some \<lparr>src_commit = text_of (prop_of v ''commit''),
           src_files = map (\<lambda>(ns, x). (ns, text_of x)) (obj_of (prop_of v ''sources''))\<rparr>
         else None)"

definition snapshot_temp :: "path \<Rightarrow> nat \<Rightarrow> path" where
  "snapshot_temp dir pid = dir @ ''/.'' @ nat_str pid @ ''.snapshot.tmp''"

definition snapshot_save :: "path \<Rightarrow> path \<Rightarrow> nat \<Rightarrow> sources \<Rightarrow> unit fio" where
  "snapshot_save p dir pid s = write_through (snapshot_temp dir pid) p (json (snapshot_json s))"

definition snapshot_load :: "path \<Rightarrow> sources option fio" where
  "snapshot_load p = io_catch (io_bind (read_file p) (\<lambda>t. io_return (read_snapshot t))) (\<lambda>_. io_return None)"

definition sources_ok :: "sources \<Rightarrow> bool" where
  "sources_ok s = (json_ok (snapshot_json s))"

lemma read_snapshot_json: "sources_ok s \<Longrightarrow> read_snapshot (json (snapshot_json s)) = Some s"
proof (cases s)
  case (fields c fs)
  assume "sources_ok s"
  then have "json_parse (json (snapshot_json s)) = Some (snapshot_json s)" by (simp add: sources_ok_def)
  moreover have "list_all (\<lambda>(_, x). is_string x) (map (\<lambda>(ns, t). (ns, JStr t)) fs)"
    by (auto simp: list_all_iff is_string_def)
  moreover have "map (\<lambda>(ns, x). (ns, text_of x)) (map (\<lambda>(ns, t). (ns, JStr t)) fs) = fs"
    by (induction fs) (auto simp: text_of_def)
  ultimately show ?thesis using fields
    by (simp add: read_snapshot_def is_snapshot_def snapshot_json_def is_record_def prop_of_def obj_of_def get_prop_def is_string_def text_of_def)
qed

text \<open>C22: the last-known-good snapshot survives a crash: whatever step of a save fails, loading gives
  what was stored before, and when the save returns, loading gives exactly the sources that were saved.\<close>

theorem snapshot_survives:
  assumes p: "p \<noteq> snapshot_temp dir pid" and "sources_ok s" and run: "snapshot_save p dir pid s w = (r, w')"
  shows "(r = Inr () \<longrightarrow> Option.bind (content w' p) read_snapshot = Some s)
    \<and> (\<forall>e. r = Inl e \<longrightarrow> Option.bind (content w' p) read_snapshot = Option.bind (content w p) read_snapshot)
    \<and> (\<forall>g. calm (w'\<lparr>fs_fails := g\<rparr>) \<longrightarrow> fst (snapshot_load p (w'\<lparr>fs_fails := g\<rparr>)) = Inr (Option.bind (content w' p) read_snapshot))"
proof -
  have "content w' p = (case r of Inl _ \<Rightarrow> content w p | Inr _ \<Rightarrow> Some (json (snapshot_json s)))"
    using write_through_result [OF p] run by (simp add: snapshot_save_def)
  then show ?thesis
    using read_snapshot_json [OF assms(2)]
    by (cases r) (auto simp: snapshot_load_def io_catch_def read_file_def io_then_def io_bind_def io_read_def io_throw_def io_return_def
      fs_step_calm split: option.split)
qed

definition demo_sources :: sources where
  "demo_sources = \<lparr>src_commit = ''7'', src_files = [(''iam/dev'', ''a: 1'')]\<rparr>"

text \<open>A save that dies at its last step over an earlier snapshot.\<close>

theorem snapshot_survives_witness:
  "let w = \<lparr>fs_files = [(''/d/s'', json (snapshot_json demo_sources))], fs_clock = 0, fs_fails = (\<lambda>n. 2 \<le> n)\<rparr>;
       (r, w') = snapshot_save ''/d/s'' ''/d'' 7 \<lparr>src_commit = ''8'', src_files = []\<rparr> w
   in r = Inl ''EIO'' \<and> fst (snapshot_load ''/d/s'' (w'\<lparr>fs_fails := (\<lambda>_. False)\<rparr>)) = Inr (Some demo_sources)"
proof -
  let ?w = "\<lparr>fs_files = [(''/d/s'', json (snapshot_json demo_sources))], fs_clock = 0, fs_fails = (\<lambda>n. 2 \<le> n)\<rparr>"
  let ?s = "\<lparr>src_commit = ''8'', src_files = []\<rparr>"
  let ?c = "snapshot_save ''/d/s'' ''/d'' 7 ?s ?w"
  have p: "''/d/s'' \<noteq> snapshot_temp ''/d'' 7" "sources_ok ?s" "sources_ok demo_sources" by code_simp+
  have e: "fst ?c = Inl ''EIO''" by code_simp
  have "Option.bind (content ?w ''/d/s'') read_snapshot = Some demo_sources"
    by (simp add: content_def read_snapshot_json [OF p(3)])
  then show ?thesis
    using snapshot_survives [OF p(1,2), of ?w "fst ?c" "snd ?c"] e
    by (auto simp: Let_def calm_def split: prod.split)
qed

end
