(* ===== verification/Serve.thy ===== *)
theory Serve
  imports Identity Loader BreakGlass Schema
begin

section \<open>The read API and the state it serves (src/routes/internal.ts, src/boot/repository-state.ts)\<close>

text \<open>
  One route answers every service, from the cache, after the guard; a caller that is current is held
  until the cache moves or a timer ends the wait. \<open>repository-state\<close> keeps the grant table, the
  schemas and the break-glass record current. What the reads of a reload give is the record \<open>reload_reads\<close>.
\<close>

subsection \<open>Waiting for a change\<close>

record waiter =
  wt_done :: bool
  wt_listening :: bool
  wt_timer :: bool

datatype wait_event = Reloaded "string option" | TimedOut

definition wait_finish :: "waiter \<Rightarrow> waiter" where
  "wait_finish w = (if wt_done w then w else w\<lparr>wt_done := True, wt_timer := False, wt_listening := False\<rparr>)"

definition wait_start :: "string \<Rightarrow> string option \<Rightarrow> waiter" where
  "wait_start since commit = (let w = \<lparr>wt_done = False, wt_listening = True, wt_timer = True\<rparr>
     in if commit \<noteq> Some since then wait_finish w else w)"

definition wait_step :: "string \<Rightarrow> wait_event \<Rightarrow> waiter \<Rightarrow> waiter" where
  "wait_step since e w = (case e of
     Reloaded commit \<Rightarrow> if wt_listening w \<and> commit \<noteq> Some since then wait_finish w else w
   | TimedOut \<Rightarrow> if wt_timer w then wait_finish w else w)"

definition wait_run :: "string \<Rightarrow> string option \<Rightarrow> wait_event list \<Rightarrow> waiter" where
  "wait_run since commit es = foldl (\<lambda>w e. wait_step since e w) (wait_start since commit) es"

definition ends_wait :: "string \<Rightarrow> wait_event \<Rightarrow> bool" where
  "ends_wait since e = (case e of Reloaded commit \<Rightarrow> commit \<noteq> Some since | TimedOut \<Rightarrow> True)"

lemma wait_run_snoc: "wait_run since commit (es @ [e]) = wait_step since e (wait_run since commit es)"
  by (simp add: wait_run_def)

lemma wait_run_state:
  "wait_run since commit es = (let d = (commit \<noteq> Some since \<or> list_ex (ends_wait since) es)
     in \<lparr>wt_done = d, wt_listening = \<not> d, wt_timer = \<not> d\<rparr>)"
proof (induction es rule: rev_induct)
  case Nil
  then show ?case by (simp add: wait_run_def wait_start_def wait_finish_def Let_def)
next
  case (snoc e es)
  then show ?case
    by (cases e) (auto simp: wait_run_snoc Let_def wait_step_def wait_finish_def ends_wait_def)
qed

definition default_wait_ms :: nat where
  "default_wait_ms = 25000"

subsection \<open>The route\<close>

datatype read_outcome = ReadServed | ReadAbsent

record read_entry =
  re_outcome :: read_outcome
  re_uid :: nat
  re_service :: string
  re_namespace :: string
  re_commit :: "string option"
  re_keys :: "string list"

record served =
  sd_service :: string
  sd_environment :: string
  sd_commit :: "string option"
  sd_retiring :: bool
  sd_config :: obj
  sd_flags :: flag_values
  sd_synced :: "string option"

datatype read_reply = Forbidden denied | NotModified | NotFound | Served served

definition answer :: "(string \<Rightarrow> bool) \<Rightarrow> cache \<Rightarrow> service \<Rightarrow> string \<Rightarrow> string \<Rightarrow> read_reply \<times> read_entry option" where
  "answer retiring c identity service environment = (let
     entry = \<lparr>re_outcome = ReadAbsent, re_uid = sv_uid identity, re_service = sv_name identity,
       re_namespace = service @ ''/'' @ environment, re_commit = cache_commit c, re_keys = []\<rparr>
     in case map_option config_only (cache_get c service environment) of
       None \<Rightarrow> (NotFound, Some entry)
     | Some config \<Rightarrow> (Served \<lparr>sd_service = service, sd_environment = environment, sd_commit = cache_commit c,
         sd_retiring = retiring service, sd_config = config, sd_flags = flags_for c environment, sd_synced = ca_synced c\<rparr>,
         Some (entry\<lparr>re_outcome := ReadServed, re_keys := keys config\<rparr>)))"

text \<open>What one moment of the service is: the credentials of the socket, the grant table, the cache.\<close>

record moment =
  mo_peer :: "string + peer"
  mo_registry :: registry
  mo_cache :: cache

definition get_config :: "(string \<Rightarrow> bool) \<Rightarrow> string \<Rightarrow> string \<Rightarrow> string option \<Rightarrow> moment \<Rightarrow> moment \<Rightarrow> guard
    \<Rightarrow> (read_reply \<times> read_entry option) \<times> guard" where
  "get_config retiring service environment since before after g = (let namespace = service @ ''/'' @ environment in
     case authorize (mo_peer before) (mo_registry before) namespace g of
       (Inl d, g1) \<Rightarrow> ((Forbidden d, None), g1)
     | (Inr identity, g1) \<Rightarrow>
         (case since of
            Some s \<Rightarrow> if s \<noteq> [] \<and> Some s = cache_commit (mo_cache before)
              then (case authorize (mo_peer after) (mo_registry after) namespace g1 of
                  (Inl d, g2) \<Rightarrow> ((Forbidden d, None), g2)
                | (Inr _, g2) \<Rightarrow> if cache_commit (mo_cache after) = Some s then ((NotModified, None), g2)
                    else (answer retiring (mo_cache after) identity service environment, g2))
              else (answer retiring (mo_cache before) identity service environment, g1)
          | None \<Rightarrow> (answer retiring (mo_cache before) identity service environment, g1)))"

definition long_poll :: "string option \<Rightarrow> moment \<Rightarrow> bool" where
  "long_poll since before = (case since of Some s \<Rightarrow> s \<noteq> [] \<and> Some s = cache_commit (mo_cache before) | None \<Rightarrow> False)"

definition allowed :: "moment \<Rightarrow> string \<Rightarrow> bool" where
  "allowed m namespace = (\<exists>c s. mo_peer m = Inr c \<and> identify (mo_registry m) (uid_of (pc_uid c)) = Some s
     \<and> may_read (mo_registry m) s namespace)"

lemma authorize_allowed: "(\<exists>s g'. authorize (mo_peer m) (mo_registry m) namespace g = (Inr s, g')) \<longleftrightarrow> allowed m namespace"
  by (auto simp: authorize_def allowed_def deny_def Let_def split: sum.split option.split)

lemma authorize_refused: "authorize p R namespace g = (Inl d, g') \<Longrightarrow> d = the_denial"
  by (auto simp: authorize_def deny_def Let_def split: sum.splits option.splits if_splits)

lemma get_config_exact:
  assumes "get_config retiring service environment since before after g = ((r, l), g')"
  defines "ns \<equiv> service @ ''/'' @ environment" and "now \<equiv> (if long_poll since before then after else before)"
  shows "((\<exists>d. r = Forbidden d) \<longleftrightarrow> \<not> (allowed before ns \<and> allowed now ns))
    \<and> (\<forall>d. r = Forbidden d \<longrightarrow> d = the_denial \<and> l = None)
    \<and> (r = NotModified \<longrightarrow> long_poll since before \<and> cache_commit (mo_cache now) = since)
    \<and> (r = NotFound \<longrightarrow> cache_get (mo_cache now) service environment = None)
    \<and> (\<forall>s. r = Served s \<longrightarrow> (\<exists>d. cache_get (mo_cache now) service environment = Some d \<and> sd_config s = config_only d
        \<and> sd_commit s = cache_commit (mo_cache now) \<and> sd_flags s = flags_for (mo_cache now) environment
        \<and> \<not> has_key (sd_config s) version_key \<and> \<not> has_key (sd_config s) ''sops''
        \<and> (\<exists>e. l = Some e \<and> re_keys e = keys (sd_config s) \<and> re_namespace e = ns)
        \<and> (long_poll since before \<longrightarrow> sd_commit s \<noteq> since)))"
proof -
  have meta: "\<not> has_key (config_only d) version_key" "\<not> has_key (config_only d) ''sops''" for d
    by (simp_all add: has_key_def map_of_config_only)
  have ans: "answer retiring c i service environment = (r, l) \<Longrightarrow> (r = NotFound \<and> cache_get c service environment = None
      \<or> (\<exists>s d e. r = Served s \<and> cache_get c service environment = Some d \<and> sd_config s = config_only d \<and> sd_commit s = cache_commit c
          \<and> sd_flags s = flags_for c environment \<and> l = Some e \<and> re_keys e = keys (config_only d) \<and> re_namespace e = ns))" for c i
    by (auto simp: answer_def ns_def Let_def split: option.splits)
  obtain a g1 where a: "authorize (mo_peer before) (mo_registry before) ns g = (a, g1)" by (cases "authorize (mo_peer before) (mo_registry before) ns g")
  obtain b g2 where b: "authorize (mo_peer after) (mo_registry after) ns g1 = (b, g2)" by (cases "authorize (mo_peer after) (mo_registry after) ns g1")
  have al: "allowed before ns \<longleftrightarrow> (\<exists>i. a = Inr i)" "allowed after ns \<longleftrightarrow> (\<exists>i. b = Inr i)"
    using authorize_allowed [of before ns g] authorize_allowed [of after ns g1] a b by auto
  show ?thesis
  proof (cases a)
    case (Inl d)
    then have "r = Forbidden d" "l = None" using assms(1) a by (simp_all add: get_config_def Let_def ns_def)
    moreover have "d = the_denial" using authorize_refused a Inl by metis
    ultimately show ?thesis using al Inl by simp
  next
    case A: (Inr i)
    show ?thesis
    proof (cases "long_poll since before")
      case False
      then have "answer retiring (mo_cache before) i service environment = (r, l)"
        using assms(1) a A by (auto simp: get_config_def Let_def ns_def long_poll_def split: option.splits if_splits)
      from ans [OF this] show ?thesis using False al A meta by (auto simp: now_def)
    next
      case True
      then obtain s where s: "since = Some s" "s \<noteq> []" "cache_commit (mo_cache before) = Some s"
        by (auto simp: long_poll_def split: option.splits)
      show ?thesis
      proof (cases b)
        case (Inl d)
        then have "r = Forbidden d" "l = None" using assms(1) a A b s by (simp_all add: get_config_def Let_def ns_def)
        moreover have "d = the_denial" using authorize_refused b Inl by metis
        ultimately show ?thesis using al Inl True by (simp add: now_def)
      next
        case B: (Inr j)
        show ?thesis
        proof (cases "cache_commit (mo_cache after) = Some s")
          case True
          then show ?thesis using assms(1) a A b B s al \<open>long_poll since before\<close> by (auto simp: get_config_def Let_def ns_def now_def)
        next
          case moved: False
          then have "answer retiring (mo_cache after) i service environment = (r, l)"
            using assms(1) a A b B s by (auto simp: get_config_def Let_def ns_def)
          from ans [OF this] show ?thesis using moved True al A B s meta by (auto simp: now_def)
        qed
      qed
    qed
  qed
qed

text \<open>C23: a service reads only what it is granted, now: a reply that says anything about the cache
  (served, absent, or unchanged) goes to a caller granted that namespace both when it asked and, if it
  was held, by the table in force when the wait ended; a served document is the cached one of that
  moment without its metadata, with the log naming its keys only; and every refusal is the same.\<close>

theorem reads_served_when_granted:
  assumes "get_config retiring service environment since before after g = ((r, l), g')"
  defines "ns \<equiv> service @ ''/'' @ environment" and "now \<equiv> (if long_poll since before then after else before)"
  shows "((\<exists>d. r = Forbidden d) \<longleftrightarrow> \<not> (allowed before ns \<and> allowed now ns))
    \<and> (\<forall>d. r = Forbidden d \<longrightarrow> d = the_denial \<and> l = None)
    \<and> (r = NotModified \<longrightarrow> long_poll since before \<and> cache_commit (mo_cache now) = since)
    \<and> (r = NotFound \<longrightarrow> cache_get (mo_cache now) service environment = None)
    \<and> (\<forall>s. r = Served s \<longrightarrow> (\<exists>d. cache_get (mo_cache now) service environment = Some d \<and> sd_config s = config_only d
        \<and> sd_commit s = cache_commit (mo_cache now) \<and> sd_flags s = flags_for (mo_cache now) environment
        \<and> \<not> has_key (sd_config s) version_key \<and> \<not> has_key (sd_config s) ''sops''
        \<and> (\<exists>e. l = Some e \<and> re_keys e = keys (sd_config s) \<and> re_namespace e = ns)
        \<and> (long_poll since before \<longrightarrow> sd_commit s \<noteq> since)))"
  unfolding ns_def now_def by (rule get_config_exact [OF assms(1)])

definition demo_moment :: "registry \<Rightarrow> string \<Rightarrow> moment" where
  "demo_moment R commit = \<lparr>mo_peer = Inr \<lparr>pc_uid = NInt 1000, pc_gid = NInt 1, pc_pid = NInt 1\<rparr>, mo_registry = R,
     mo_cache = \<lparr>ca_tree = Some \<lparr>tr_commit = commit, tr_spaces = [(''iam/prod'', [(''port'', JNum (NInt 1)), (''version'', JNum (NInt 2))])]\<rparr>,
       ca_flags = [], ca_synced = None, ca_listeners = []\<rparr>\<rparr>"

text \<open>A held caller whose grant the change takes away, and one that keeps it.\<close>

theorem reads_served_when_granted_witness:
  "fst (fst (get_config (\<lambda>_. False) ''iam'' ''prod'' (Some ''7'') (demo_moment demo_registry ''7'')
      (demo_moment (demo_registry\<lparr>rg_by_uid := []\<rparr>) ''8'') new_guard)) = Forbidden the_denial
   \<and> (\<exists>s. fst (fst (get_config (\<lambda>_. False) ''iam'' ''prod'' (Some ''7'') (demo_moment demo_registry ''7'')
      (demo_moment demo_registry ''8'') new_guard)) = Served s \<and> sd_config s = [(''port'', JNum (NInt 1))])"
proof -
  let ?b = "demo_moment demo_registry ''7''" and ?a = "demo_moment (demo_registry\<lparr>rg_by_uid := []\<rparr>) ''8''" and ?k = "demo_moment demo_registry ''8''"
  have run: "get_config (\<lambda>_. False) ''iam'' ''prod'' (Some ''7'') ?b m new_guard
      = ((fst (fst (get_config (\<lambda>_. False) ''iam'' ''prod'' (Some ''7'') ?b m new_guard)),
          snd (fst (get_config (\<lambda>_. False) ''iam'' ''prod'' (Some ''7'') ?b m new_guard))),
         snd (get_config (\<lambda>_. False) ''iam'' ''prod'' (Some ''7'') ?b m new_guard))" for m
    by simp
  have held: "long_poll (Some ''7'') ?b" by code_simp
  have not: "\<not> allowed ?a ''iam/prod''"
    by (simp add: allowed_def demo_moment_def identify_def)
  have yes: "\<exists>s. fst (fst (get_config (\<lambda>_. False) ''iam'' ''prod'' (Some ''7'') ?b ?k new_guard)) = Served s"
    by (simp add: get_config_def Let_def demo_moment_def authorize_def uid_of_def demo_registry_def identify_def may_read_def
        cache_commit_def answer_def cache_get_def)
  have d: "cache_get (mo_cache ?k) ''iam'' ''prod'' = Some [(''port'', JNum (NInt 1)), (''version'', JNum (NInt 2))]" by code_simp
  have c: "config_only [(''port'', JNum (NInt 1)), (''version'', JNum (NInt 2))] = [(''port'', JNum (NInt 1))]" by code_simp
  show ?thesis
    using reads_served_when_granted [OF run [of ?a]] reads_served_when_granted [OF run [of ?k]] held not yes d c by auto
qed

subsection \<open>What the repository declares, kept current\<close>

record raw_record =
  rw_password_hash :: jsval
  rw_totp_secret :: jsval
  rw_actor_email :: jsval

record repo_state =
  rs_registry :: registry
  rs_schemas :: schema_set
  rs_record :: "raw_record option"

record reload_reads =
  rd_services :: "string + string"
  rd_schemas :: "string + (string \<times> string) list"
  rd_break_glass :: "string + string"

definition boot_registry :: registry where
  "boot_registry = \<lparr>rg_by_uid = [(65534, \<lparr>sv_name = ''none'', sv_uid = 65534, sv_namespaces = [''none/none'']\<rparr>)], rg_version = 1\<rparr>"

definition boot_state :: repo_state where
  "boot_state = \<lparr>rs_registry = boot_registry, rs_schemas = \<lparr>ss_services = [], ss_versions = [], ss_retiring = []\<rparr>, rs_record = None\<rparr>"

definition reload_registry :: "yaml \<Rightarrow> (jsval \<Rightarrow> string) \<Rightarrow> string + string \<Rightarrow> repo_state \<Rightarrow> repo_state" where
  "reload_registry yaml issues source st = (case bind_err (map_sum YamlError id source) (registry_from_yaml yaml issues) of
     Inl _ \<Rightarrow> st | Inr R \<Rightarrow> st\<lparr>rs_registry := R\<rparr>)"

definition reload_schemas :: "yaml \<Rightarrow> urls \<Rightarrow> string + (string \<times> string) list \<Rightarrow> repo_state \<Rightarrow> repo_state" where
  "reload_schemas yaml urls sources st = (case bind_err (map_sum OtherError id sources) (from_files yaml urls) of
     Inl _ \<Rightarrow> st | Inr S \<Rightarrow> st\<lparr>rs_schemas := S\<rparr>)"

definition parse_record :: "yaml \<Rightarrow> decryptor option \<Rightarrow> path \<Rightarrow> string \<Rightarrow> string + raw_record" where
  "parse_record yaml decrypt p source =
     bind_err (case decrypt of None \<Rightarrow> Inr source | Some d \<Rightarrow> d p source) (\<lambda>t.
     bind_err (yaml t) (\<lambda>parsed.
     if truthy (prop_of parsed ''passwordHash'') \<and> truthy (prop_of parsed ''totpSecret'') \<and> truthy (prop_of parsed ''actorEmail'')
     then Inr \<lparr>rw_password_hash = prop_of parsed ''passwordHash'', rw_totp_secret = prop_of parsed ''totpSecret'',
       rw_actor_email = prop_of parsed ''actorEmail''\<rparr>
     else Inl ''the break-glass record is missing fields''))"

definition reload_break_glass :: "yaml \<Rightarrow> decryptor option \<Rightarrow> path option \<Rightarrow> string + string \<Rightarrow> repo_state \<Rightarrow> repo_state" where
  "reload_break_glass yaml decrypt path source st = (case path of None \<Rightarrow> st | Some [] \<Rightarrow> st
   | Some p \<Rightarrow> (case source of
       Inl _ \<Rightarrow> st\<lparr>rs_record := None\<rparr>
     | Inr t \<Rightarrow> (case parse_record yaml decrypt p t of Inl _ \<Rightarrow> st | Inr r \<Rightarrow> st\<lparr>rs_record := Some r\<rparr>)))"

text \<open>The states a reload goes through, one after each part that is awaited, with the served tree.\<close>

definition reload_states :: "yaml \<Rightarrow> (jsval \<Rightarrow> string) \<Rightarrow> urls \<Rightarrow> decryptor option \<Rightarrow> path option \<Rightarrow> reload_reads
    \<Rightarrow> (repo_state \<Rightarrow> cache \<Rightarrow> cache) \<Rightarrow> repo_state \<Rightarrow> cache \<Rightarrow> (repo_state \<times> cache) list" where
  "reload_states yaml issues urls decrypt path rd on_cache st c = (
     let s1 = reload_registry yaml issues (rd_services rd) st;
         s2 = reload_schemas yaml urls (rd_schemas rd) s1;
         s3 = reload_break_glass yaml decrypt path (rd_break_glass rd) s2
     in [(st, c), (s1, c), (s2, c), (s3, c), (s3, on_cache s3 c)])"



end
