(* ===== verification/Products.thy ===== *)
theory Products
  imports Builder Loader Engine
begin

section \<open>Product operations (src/store/product-write-operations.ts)\<close>

text \<open>
  Every operation of the console on a product plans from one snapshot of the database and commits in
  one transaction. A plan is a computation on the session of the operation, which holds the snapshot
  and collects the writes and the files read; a refusal or any other exception ends it. What is not
  in the repository are the fields of \<open>tools\<close>: the YAML package, URL parsing, the decryptor of the
  loader, the encryptor, the content hash and the collation of \<open>localeCompare\<close>. An encryptor is a
  function here, so two encryptions of one text within an operation agree; nothing relies on it.
\<close>

subsection \<open>Sessions and failures\<close>

datatype fail_code = FConflict | FInvalid | FNotEncrypted | FFailed | FWouldOrphan

record failure =
  fl_code :: fail_code
  fl_detail :: string
  fl_errors :: "problem list option"
  fl_current :: "nat option"

datatype product_exn = Refusal failure | Thrown string

definition failure_of :: "fail_code \<Rightarrow> string \<Rightarrow> failure" where
  "failure_of code detail = \<lparr>fl_code = code, fl_detail = detail, fl_errors = None, fl_current = None\<rparr>"

definition refuse :: "string \<Rightarrow> product_exn" where
  "refuse detail = Refusal (failure_of FInvalid detail)"

definition refuse_errors :: "string \<Rightarrow> problem list \<Rightarrow> product_exn" where
  "refuse_errors detail errors = Refusal ((failure_of FInvalid detail)\<lparr>fl_errors := Some errors\<rparr>)"

record tools =
  tl_yaml :: yaml
  tl_dump :: dump
  tl_urls :: urls
  tl_decrypt :: decryptor
  tl_encrypt :: "string \<Rightarrow> string \<Rightarrow> string + string"
  tl_sha :: "string \<Rightarrow> string"
  tl_collate :: "string \<Rightarrow> string \<Rightarrow> bool"

record actor =
  ac_email :: string
  ac_via :: "string option"

record edit_session =
  se_service :: string
  se_actor :: actor
  se_files :: "(path \<times> string) list"
  se_schemas :: schema_set
  se_registry :: jsval
  se_order :: "string list"
  se_writes :: "request list"
  se_reads :: "path list"

definition thrown :: "string + 'a \<Rightarrow> product_exn + 'a" where
  "thrown r = map_sum Thrown id r"

definition thrown_schema :: "schema_exn + 'a \<Rightarrow> product_exn + 'a" where
  "thrown_schema r = map_sum (\<lambda>e. case e of SchemaError m \<Rightarrow> Thrown m | OtherError m \<Rightarrow> Thrown m) id r"

definition schema_path :: "string \<Rightarrow> path" where
  "schema_path service = ''schema/'' @ service @ ''.yaml''"

definition archive_path :: "string \<Rightarrow> path" where
  "archive_path service = ''archived/'' @ service @ ''.yaml''"

definition env_path :: "string \<Rightarrow> string \<Rightarrow> path" where
  "env_path service environment = ''config/'' @ service @ ''/'' @ environment @ ''.yaml''"

definition is_identifier :: "string \<Rightarrow> bool" where
  "is_identifier s = (s \<noteq> [] \<and> is_lower (hd s) \<and> list_all (\<lambda>c. is_lower c \<or> is_digit c \<or> c = CHR ''-'') s)"

definition empty_registry :: string where
  "empty_registry = ''version: 1'' @ [CHR 0x0A] @ ''services: []'' @ [CHR 0x0A]"

definition new_session :: "tools \<Rightarrow> string \<Rightarrow> actor \<Rightarrow> (path \<times> string) list \<Rightarrow> product_exn + edit_session" where
  "new_session T service a fs =
     bind_err (thrown_schema (from_tree (tl_yaml T) (tl_urls T) fs)) (\<lambda>S.
     bind_err (thrown (tl_yaml T (case map_of fs ''services.yaml'' of Some s \<Rightarrow> s | None \<Rightarrow> empty_registry))) (\<lambda>R.
       Inr \<lparr>se_service = service, se_actor = a, se_files = fs, se_schemas = S, se_registry = R,
         se_order = order_from_yaml (tl_yaml T) (case map_of fs ''environments.yaml'' of Some s \<Rightarrow> s | None \<Rightarrow> ''''),
         se_writes = [], se_reads = uniq [schema_path service, ''services.yaml'', ''environments.yaml'']\<rparr>))"

subsection \<open>Values\<close>

text \<open>\<open>isDeepStrictEqual\<close>: the order of the members of an object does not matter.\<close>

fun deep_equal :: "jsval \<Rightarrow> jsval \<Rightarrow> bool" where
  "deep_equal (JObj xs) v = (case v of
     JObj ys \<Rightarrow> length xs = length ys \<and> list_all (\<lambda>(k, x). case map_of ys k of Some y \<Rightarrow> deep_equal x y | None \<Rightarrow> False) xs
   | _ \<Rightarrow> False)"
| "deep_equal (JArr xs) v = (case v of JArr ys \<Rightarrow> list_all2 deep_equal xs ys | _ \<Rightarrow> False)"
| "deep_equal u v = (u = v)"

definition member :: "jsval \<Rightarrow> string \<Rightarrow> product_exn + jsval" where
  "member v k = (case v of JNull \<Rightarrow> Inl (Thrown (''Cannot read properties of null'')) | JUndef \<Rightarrow> Inl (Thrown (''Cannot read properties of undefined''))
     | _ \<Rightarrow> Inr (prop_of v k))"

definition array_of :: "jsval \<Rightarrow> product_exn + jsval list" where
  "array_of v = (case v of JArr vs \<Rightarrow> Inr vs | _ \<Rightarrow> Inl (Thrown ''not an array''))"

fun find_entry :: "string \<Rightarrow> jsval \<Rightarrow> jsval list \<Rightarrow> product_exn + jsval option" where
  "find_entry k v [] = Inr None"
| "find_entry k v (e # es) = bind_err (member e k) (\<lambda>x. if x = v then Inr (Some e) else find_entry k v es)"

definition with_prop :: "jsval \<Rightarrow> string \<Rightarrow> jsval \<Rightarrow> product_exn + jsval" where
  "with_prop v k x = (case v of JObj kvs \<Rightarrow> Inr (JObj (AList.update k x kvs)) | _ \<Rightarrow> Inl (Thrown ''not an object''))"

definition without_prop :: "jsval \<Rightarrow> string \<Rightarrow> product_exn + jsval" where
  "without_prop v k = (case v of JObj kvs \<Rightarrow> Inr (JObj (AList.delete k kvs)) | _ \<Rightarrow> Inl (Thrown ''not an object''))"

definition registry_services_of :: "edit_session \<Rightarrow> product_exn + jsval list" where
  "registry_services_of se = bind_err (member (se_registry se) ''services'') array_of"

subsection \<open>ProductMutation\<close>

definition product_schema :: "tools \<Rightarrow> edit_session \<Rightarrow> product_exn + jsval" where
  "product_schema T se = (case map_of (se_files se) (schema_path (se_service se)) of
     None \<Rightarrow> Inl (refuse ''unknown product'')
   | Some source \<Rightarrow> thrown (tl_yaml T source))"

definition require_product :: "edit_session \<Rightarrow> product_exn + jsval" where
  "require_product se = bind_err (registry_services_of se) (\<lambda>es.
     bind_err (find_entry ''name'' (JStr (se_service se)) es) (\<lambda>found. case found of
       Some e \<Rightarrow> if has_schema (se_schemas se) (se_service se) then Inr e else Inl (refuse ''unknown product'')
     | None \<Rightarrow> Inl (refuse ''unknown product'')))"

definition select_keys :: "edit_session \<Rightarrow> string list \<Rightarrow> product_exn + string list" where
  "select_keys se ks = (let selected = uniq ks in
     if selected = [] then Inl (refuse ''select at least one key'')
     else case find (\<lambda>k. \<not> has_key (definitions_for (se_schemas se) (se_service se)) k) selected of
       Some k \<Rightarrow> Inl (refuse (''unknown key: '' @ k))
     | None \<Rightarrow> Inr selected)"

definition environment_files :: "edit_session \<Rightarrow> (path \<times> string) list" where
  "environment_files se = filter (\<lambda>(p, _). starts_with (''config/'' @ se_service se @ ''/'') p \<and> ends_with ''.yaml'' p) (se_files se)"

text \<open>\<open>path.slice(`config/${service}/`.length, -5)\<close>\<close>

definition environment_of :: "edit_session \<Rightarrow> path \<Rightarrow> string" where
  "environment_of se p = slice (length (''config/'' @ se_service se @ ''/'')) 5 p"

definition session_etag :: "tools \<Rightarrow> edit_session \<Rightarrow> path \<Rightarrow> string option" where
  "session_etag T se p = map_option (tl_sha T) (map_of (se_files se) p)"

definition mark_read :: "path \<Rightarrow> edit_session \<Rightarrow> edit_session" where
  "mark_read p se = se\<lparr>se_reads := uniq (se_reads se @ [p])\<rparr>"

definition document :: "tools \<Rightarrow> string \<Rightarrow> edit_session \<Rightarrow> product_exn + obj \<times> edit_session" where
  "document T environment se =
     (if \<not> is_identifier environment then Inl (refuse ''invalid environment'')
      else let p = env_path (se_service se) environment; se' = mark_read p se in
        case map_of (se_files se) p of
          None \<Rightarrow> Inr ([], se')
        | Some source \<Rightarrow> bind_err (thrown (resolve_one (tl_yaml T) (tl_decrypt T) (se_service se @ ''/'' @ environment) source)) (\<lambda>d. Inr (d, se')))"

definition actor_line :: "actor \<Rightarrow> string" where
  "actor_line a = (case ac_via a of Some v \<Rightarrow> if v \<noteq> [] then ac_email a @ '' ('' @ v @ '')'' else ac_email a | None \<Rightarrow> ac_email a)"

definition put :: "tools \<Rightarrow> path \<Rightarrow> string option \<Rightarrow> string list \<Rightarrow> edit_session \<Rightarrow> edit_session" where
  "put T p c ks se = se\<lparr>se_writes := se_writes se @ [\<lparr>rq_path = p, rq_content = c, rq_expected = Some (session_etag T se p),
     rq_validate = (\<lambda>_. []), rq_actor = Some (actor_line (se_actor se)), rq_keys = ks\<rparr>]\<rparr>"

definition is_empty_secret :: "jsval \<Rightarrow> bool" where
  "is_empty_secret v = (v = JStr '''' \<or> v = JUndef \<or> v = JNull)"

definition ciphertext :: "jsval \<Rightarrow> bool" where
  "ciphertext v = (case v of JStr s \<Rightarrow> starts_with ''ENC[AES256_GCM,'' s | _ \<Rightarrow> False)"

text \<open>The keys in order, then what is left of the document.\<close>

definition ordered :: "obj \<Rightarrow> obj" where
  "ordered value = (let front = map (\<lambda>k. (k, get_prop value k)) (sort (keys (config_only value))) in
     front @ filter (\<lambda>(k, _). \<not> has_key front k) value)"

definition encode :: "tools \<Rightarrow> edit_session \<Rightarrow> string \<Rightarrow> obj \<Rightarrow> schema_set \<Rightarrow> product_exn + string" where
  "encode T se environment value schemas =
     bind_err (when_err (\<not> is_safe_integer (get_prop value version_key)) (refuse ''document version exhausted'')) (\<lambda>_.
     bind_err (thrown (tl_encrypt T (se_service se @ ''/'' @ environment) (tl_dump T (JObj (ordered value))))) (\<lambda>source.
     bind_err (thrown (tl_yaml T source)) (\<lambda>encrypted.
     bind_err (when_err (\<not> is_record encrypted) (refuse ''encryptor returned an invalid document'')) (\<lambda>_.
       case find (\<lambda>k. is_secret schemas (se_service se) k
           \<and> \<not> (is_empty_secret (get_prop value k) \<and> is_empty_secret (prop_of encrypted k))
           \<and> \<not> ciphertext (prop_of encrypted k)) (keys (config_only value)) of
         Some k \<Rightarrow> Inl (Refusal (failure_of FNotEncrypted (''secret values were not encrypted: '' @ k)))
       | None \<Rightarrow> Inr source))))"

definition set_all :: "obj \<Rightarrow> obj \<Rightarrow> obj" where
  "set_all changes d = foldl (\<lambda>d (k, v). AList.update k v d) d changes"

definition bump :: "obj \<Rightarrow> obj \<Rightarrow> obj" where
  "bump current d = AList.update version_key (JNum (NInt (bumped_version current))) d"

definition checked :: "tools \<Rightarrow> schema_set \<Rightarrow> string \<Rightarrow> obj \<Rightarrow> product_exn + unit" where
  "checked T schemas service d = map_sum (refuse_errors ''configuration is invalid'') id (validate (tl_urls T) schemas service d)"

definition same_config :: "obj \<Rightarrow> obj \<Rightarrow> bool" where
  "same_config current d = deep_equal (JObj (config_only current)) (JObj d)"

definition put_values :: "tools \<Rightarrow> string \<Rightarrow> obj \<Rightarrow> string option option \<Rightarrow> edit_session \<Rightarrow> product_exn + edit_session" where
  "put_values T environment changes expected se =
     bind_err (when_err (environment \<notin> set (se_order se)) (refuse ''environment is not declared'')) (\<lambda>_.
     let p = env_path (se_service se) environment in
     bind_err (when_err (case expected of None \<Rightarrow> False | Some e \<Rightarrow> e \<noteq> session_etag T se p)
       (Refusal (failure_of FConflict ''file changed; review and reapply your edit''))) (\<lambda>_.
     bind_err (document T environment se) (\<lambda>(current, se1).
     bind_err (when_err (list_ex (\<lambda>(k, v). is_metadata_key k \<or> v = JUndef) changes)
       (refuse ''use product-wide Delete to remove keys; metadata cannot be edited'')) (\<lambda>_.
     let d = set_all changes (config_only current) in
     bind_err (checked T (se_schemas se) (se_service se) d) (\<lambda>_.
     if has_key (se_files se) p \<and> same_config current d then Inr se1
     else
       let changed = filter (\<lambda>k. \<not> deep_equal (get_prop (config_only current) k) (get_prop d k)) (keys changes) in
       bind_err (encode T se1 environment (bump current d) (se_schemas se)) (\<lambda>c.
         Inr (put T p (Some c) (if changed \<noteq> [] then changed else keys changes) se1)))))))"

subsection \<open>The operations\<close>

definition reserved_names :: "string list" where
  "reserved_names = [''new'', ''retiring'']"

definition archive_exists :: product_exn where
  "archive_exists = refuse ''an archive already exists for this product''"

text \<open>\<open>productBase\<close>: what an operation that deletes was reviewed against.\<close>

definition product_file :: "string \<Rightarrow> path \<Rightarrow> bool" where
  "product_file service p = (p = schema_path service \<or> p = ''services.yaml'' \<or> p = ''environments.yaml''
     \<or> starts_with (''config/'' @ service @ ''/'') p)"

definition product_base :: "tools \<Rightarrow> (path \<times> string) list \<Rightarrow> string \<Rightarrow> string" where
  "product_base T fs service = tl_sha T (json (JArr (map (\<lambda>(p, c). JArr [JStr p, JStr c])
     (sort_by (\<lambda>a b. tl_collate T (fst a) (fst b)) (filter (\<lambda>(p, _). product_file service p) fs)))))"

definition check_base :: "tools \<Rightarrow> string option \<Rightarrow> string \<Rightarrow> edit_session \<Rightarrow> product_exn + unit" where
  "check_base T expected detail se = when_err (case expected of None \<Rightarrow> False
     | Some b \<Rightarrow> b \<noteq> product_base T (se_files se) (se_service se)) (Refusal (failure_of FConflict detail))"

record creation =
  cr_uid :: jsnum
  cr_environments :: "string list"
  cr_schema :: string
  cr_defaults :: obj

definition new_uid :: "jsnum \<Rightarrow> edit_session \<Rightarrow> product_exn + jsval list" where
  "new_uid uid se =
     bind_err (registry_services_of se) (\<lambda>es.
     bind_err (find_entry ''name'' (JStr (se_service se)) es) (\<lambda>by_name.
     bind_err (when_err (by_name \<noteq> None) (refuse (se_service se @ '' is already declared''))) (\<lambda>_.
     bind_err (find_entry ''uid'' (JNum uid) es) (\<lambda>by_uid. case by_uid of
       Some e \<Rightarrow> Inl (refuse (''uid '' @ num_str uid @ '' already belongs to '' @ to_str (prop_of e ''name'')))
     | None \<Rightarrow> Inr es))))"

definition put_environment :: "tools \<Rightarrow> schema_set \<Rightarrow> obj \<Rightarrow> string \<Rightarrow> edit_session \<Rightarrow> product_exn + edit_session" where
  "put_environment T schemas defaults env se =
     bind_err (encode T se env (AList.update version_key (JNum (NInt 1)) defaults) schemas) (\<lambda>c.
       Inr (put T (env_path (se_service se) env) (Some c) (keys defaults) se))"

definition declared_entry :: "string \<Rightarrow> jsnum \<Rightarrow> string list \<Rightarrow> jsval" where
  "declared_entry service uid environments = JObj [(''name'', JStr service), (''uid'', JNum uid),
     (''namespaces'', JArr (map (\<lambda>env. JStr (service @ ''/'' @ env)) environments))]"

definition put_registry :: "tools \<Rightarrow> jsval list \<Rightarrow> edit_session \<Rightarrow> product_exn + edit_session" where
  "put_registry T es se = bind_err (with_prop (se_registry se) ''services'' (JArr es)) (\<lambda>R.
     Inr (put T ''services.yaml'' (Some (tl_dump T R)) [se_service se] (se\<lparr>se_registry := R\<rparr>)))"

definition create_product :: "tools \<Rightarrow> creation \<Rightarrow> edit_session \<Rightarrow> product_exn + edit_session" where
  "create_product T r se = (let service = se_service se; envs = cr_environments r in
     bind_err (when_err (service \<in> set reserved_names) (refuse ''product name is reserved'')) (\<lambda>_.
     bind_err (when_err (\<not> num_is_safe (cr_uid r) \<or> num_less (cr_uid r) (NInt 0)) (refuse ''uid must be a non-negative integer'')) (\<lambda>_.
     bind_err (new_uid (cr_uid r) se) (\<lambda>es.
     bind_err (when_err (has_schema (se_schemas se) service \<or> environment_files se \<noteq> []) (refuse ''product data already exists'')) (\<lambda>_.
     bind_err (when_err (envs = [] \<or> \<not> distinct envs \<or> list_ex (\<lambda>env. \<not> is_identifier env \<or> env \<notin> set (se_order se)) envs)
       (refuse ''choose distinct declared environments'')) (\<lambda>_.
     bind_err (thrown_schema (from_files (tl_yaml T) (tl_urls T) [(service, cr_schema r)])) (\<lambda>S.
     bind_err (map_sum (refuse_errors ''invalid defaults'') id (validate (tl_urls T) S service (cr_defaults r))) (\<lambda>_.
     bind_err (when_err (list_ex (\<lambda>k. is_metadata_key k \<or> is_secret S service k) (keys (cr_defaults r)))
       (refuse ''defaults cannot contain secrets or metadata'')) (\<lambda>_.
     bind_err (fold_err (put_environment T S (cr_defaults r)) envs
         (put T (schema_path service) (Some (cr_schema r)) [service] se)) (\<lambda>se1.
       put_registry T (es @ [declared_entry service (cr_uid r) envs]) se1))))))))))"

definition write_values :: "tools \<Rightarrow> string \<Rightarrow> obj \<Rightarrow> string option option \<Rightarrow> edit_session \<Rightarrow> product_exn + edit_session" where
  "write_values T environment changes expected se =
     bind_err (require_product se) (\<lambda>_. put_values T environment changes expected se)"

definition set_retiring :: "tools \<Rightarrow> bool \<Rightarrow> bool \<Rightarrow> edit_session \<Rightarrow> product_exn + edit_session" where
  "set_retiring T retiring force se =
     bind_err (require_product se) (\<lambda>_.
     bind_err (when_err (retiring \<and> \<not> force \<and> has_key (se_files se) (archive_path (se_service se))) archive_exists) (\<lambda>_.
     bind_err (product_schema T se) (\<lambda>doc.
     bind_err (if retiring then with_prop doc ''retiring'' (JBool True) else without_prop doc ''retiring'') (\<lambda>doc'.
       Inr (put T (schema_path (se_service se)) (Some (tl_dump T doc')) [''retiring''] se)))))"

text \<open>The values a promotion takes, one key after the other.\<close>

definition promoted :: "string \<Rightarrow> obj \<Rightarrow> string list \<Rightarrow> product_exn + obj" where
  "promoted from source ks = map_err (\<lambda>k. case map_of source k of
     None \<Rightarrow> Inl (refuse (k @ '' is not set in '' @ from)) | Some v \<Rightarrow> Inr (k, v)) ks"

definition promote :: "tools \<Rightarrow> string \<Rightarrow> string \<Rightarrow> string list \<Rightarrow> edit_session \<Rightarrow> product_exn + edit_session" where
  "promote T from to ks se =
     bind_err (require_product se) (\<lambda>_.
     bind_err (when_err (next_environment (se_order se) from \<noteq> Some to) (refuse ''promotion target must be the next declared environment'')) (\<lambda>_.
     bind_err (select_keys se ks) (\<lambda>selected.
     bind_err (case find (is_secret (se_schemas se) (se_service se)) selected of
         Some k \<Rightarrow> Inl (refuse (''cannot promote a secret ('' @ k @ '') '' @ em_dash @ '' set it directly in '' @ to)) | None \<Rightarrow> Inr ()) (\<lambda>_.
     bind_err (document T from se) (\<lambda>(source, se1).
     bind_err (promoted from source selected) (\<lambda>changes.
       put_values T to changes None se1))))))"

text \<open>One environment file under a new schema: it is checked, and written when the edit changes it.\<close>

definition revise :: "tools \<Rightarrow> schema_set \<Rightarrow> product_exn + unit \<Rightarrow> (obj \<Rightarrow> obj) \<Rightarrow> (problem list \<Rightarrow> product_exn) \<Rightarrow> (obj \<Rightarrow> obj \<Rightarrow> bool)
    \<Rightarrow> string list \<Rightarrow> path \<Rightarrow> edit_session \<Rightarrow> product_exn + edit_session" where
  "revise T candidate guard edit fault changes ks p se = (let environment = environment_of se p in
     bind_err (document T environment se) (\<lambda>(current, se1).
     bind_err guard (\<lambda>_.
     let d = edit (config_only current) in
     bind_err (map_sum fault id (validate (tl_urls T) candidate (se_service se) d)) (\<lambda>_.
     if changes current d
     then bind_err (encode T se1 environment (bump current d) candidate) (\<lambda>c.
       Inr (put T p (Some c) ks se1))
     else Inr se1))))"

definition add_defaults :: "draft list \<Rightarrow> obj" where
  "add_defaults ds = set_all (map (\<lambda>d. (draft_name d, dr_default d))
     (filter (\<lambda>d. \<not> dr_secret d \<and> dr_default d \<noteq> JNull \<and> dr_default d \<noteq> JUndef) ds)) []"

definition expect_etag :: "tools \<Rightarrow> path \<Rightarrow> string option option \<Rightarrow> edit_session \<Rightarrow> product_exn + unit" where
  "expect_etag T p expected se = when_err (case expected of None \<Rightarrow> False
     | Some e \<Rightarrow> e \<noteq> Some (tl_sha T (case map_of (se_files se) p of Some s \<Rightarrow> s | None \<Rightarrow> '''')))
     (Refusal (failure_of FConflict ''file changed; review and reapply your edit''))"

definition add_step :: "tools \<Rightarrow> schema_set \<Rightarrow> string \<Rightarrow> obj \<Rightarrow> string list \<Rightarrow> string option option \<Rightarrow> path \<times> string \<Rightarrow> edit_session \<Rightarrow> product_exn + edit_session" where
  "add_step T candidate environment defaults names expected = (\<lambda>(p, _) se. let here = (environment_of se p = environment) in
     revise T candidate (if here then expect_etag T (env_path (se_service se) environment) expected se else Inr ())
       (if here then set_all defaults else id) (refuse_errors ''configuration is invalid'')
       (\<lambda>current d. here \<and> \<not> same_config current d) names p se)"

definition add_keys :: "tools \<Rightarrow> string \<Rightarrow> draft list \<Rightarrow> string option option \<Rightarrow> edit_session \<Rightarrow> product_exn + edit_session" where
  "add_keys T environment ds expected se = (let service = se_service se in
     bind_err (require_product se) (\<lambda>_.
     bind_err (when_err (se_order se = [] \<or> hd (se_order se) \<noteq> environment)
       (refuse (''variables can only be added in '' @ (case se_order se of [] \<Rightarrow> ''undefined'' | e # _ \<Rightarrow> e)))) (\<lambda>_.
     bind_err (when_err (ds = []) (refuse ''add at least one variable'')) (\<lambda>_.
     bind_err (map_sum (refuse_errors ''invalid schema'') id (build_schema (tl_dump T) ds)) (\<lambda>built.
     bind_err (thrown (tl_yaml T built)) (\<lambda>built_doc.
     bind_err (product_schema T se) (\<lambda>doc.
     let added = obj_of (prop_of built_doc ''keys''); declared = obj_of (prop_of doc ''keys'');
         clashes = filter (has_key declared) (keys added) in
     bind_err (when_err (clashes \<noteq> []) (refuse_errors ''invalid schema'' (map (\<lambda>k. (k, quoted k @ '' is already declared'')) clashes))) (\<lambda>_.
     bind_err (with_prop doc ''keys'' (JObj (set_all added declared))) (\<lambda>doc'.
     let source = tl_dump T doc' in
     bind_err (thrown_schema (from_files (tl_yaml T) (tl_urls T) [(service, source)])) (\<lambda>candidate.
     bind_err (when_err (\<not> has_key (se_files se) (env_path service environment)) (refuse ''create the environment file first'')) (\<lambda>_.
     bind_err (fold_err (add_step T candidate environment (add_defaults ds) (keys added) expected) (environment_files se) se) (\<lambda>se1.
       Inr (put T (schema_path service) (Some source) (keys added) se1)))))))))))))"

definition delete_all :: "string list \<Rightarrow> obj \<Rightarrow> obj" where
  "delete_all ks d = filter (\<lambda>(k, _). k \<notin> set ks) d"

definition delete_step :: "tools \<Rightarrow> schema_set \<Rightarrow> string list \<Rightarrow> path \<times> string \<Rightarrow> edit_session \<Rightarrow> product_exn + edit_session" where
  "delete_step T candidate ks = (\<lambda>(p, _) se. revise T candidate (Inr ()) (delete_all ks)
     (\<lambda>_. Refusal (failure_of FWouldOrphan (''cannot remove keys: '' @ p @ '' would remain invalid''))) (\<lambda>current d. \<not> same_config current d) ks p se)"

definition delete_keys :: "tools \<Rightarrow> string list \<Rightarrow> string option \<Rightarrow> edit_session \<Rightarrow> product_exn + edit_session" where
  "delete_keys T selected expected se = (let service = se_service se in
     bind_err (check_base T expected ''Product changed; review the deletion scope again.'' se) (\<lambda>_.
     bind_err (require_product se) (\<lambda>_.
     bind_err (select_keys se selected) (\<lambda>ks.
     bind_err (product_schema T se) (\<lambda>doc.
     bind_err (with_prop doc ''keys'' (JObj (delete_all ks (obj_of (prop_of doc ''keys''))))) (\<lambda>doc'.
     let source = tl_dump T doc' in
     bind_err (thrown_schema (from_files (tl_yaml T) (tl_urls T) [(service, source)])) (\<lambda>candidate.
     bind_err (fold_err (delete_step T candidate ks) (environment_files se) se) (\<lambda>se1.
       Inr (put T (schema_path service) (Some source) ks se1)))))))))"

definition archive_document :: "string \<Rightarrow> edit_session \<Rightarrow> jsval \<Rightarrow> jsval" where
  "archive_document now se identity = JObj [
     (''version'', JNum (NInt 1)),
     (''archived'', JObj [(''at'', JStr now), (''by'', JStr (ac_email (se_actor se)))]),
     (''service'', identity),
     (''schema'', JStr (case map_of (se_files se) (schema_path (se_service se)) of Some s \<Rightarrow> s | None \<Rightarrow> '''')),
     (''environments'', JObj (map (\<lambda>(p, source). (environment_of se p, JStr source)) (environment_files se)))]"

definition archive_product :: "tools \<Rightarrow> string \<Rightarrow> string option \<Rightarrow> bool \<Rightarrow> edit_session \<Rightarrow> product_exn + edit_session" where
  "archive_product T now expected force se = (let service = se_service se in
     bind_err (check_base T expected ''Product changed; review the archive again.'' se) (\<lambda>_.
     bind_err (require_product se) (\<lambda>identity.
     bind_err (when_err (\<not> is_retiring (se_schemas se) service) (refuse ''mark the product retiring before archiving'')) (\<lambda>_.
     bind_err (when_err (has_key (se_files se) (archive_path service) \<and> \<not> force) archive_exists) (\<lambda>_.
     bind_err (registry_services_of se) (\<lambda>es.
     bind_err (map_err (\<lambda>e. bind_err (member e ''name'') (\<lambda>n. Inr (n, e))) es) (\<lambda>named.
     bind_err (put_registry T (map snd (filter (\<lambda>(n, _). n \<noteq> JStr service) named)) se) (\<lambda>se1.
     let se2 = put T (archive_path service) (Some (tl_dump T (archive_document now se identity))) [service] se1;
         se3 = foldl (\<lambda>s (p, _). put T p None [service] s) se2 (environment_files se) in
       Inr (put T (schema_path service) None [service] se3)))))))))"

datatype product_op =
    CreateProduct creation
  | WriteValues string obj "string option option"
  | SetRetiring bool bool
  | Promote string string "string list"
  | AddKeys string "draft list" "string option option"
  | DeleteKeys "string list" "string option"
  | ArchiveProduct string "string option" bool

definition plan :: "tools \<Rightarrow> product_op \<Rightarrow> edit_session \<Rightarrow> product_exn + edit_session" where
  "plan T op se = (case op of
     CreateProduct r \<Rightarrow> create_product T r se
   | WriteValues environment changes expected \<Rightarrow> write_values T environment changes expected se
   | SetRetiring retiring force \<Rightarrow> set_retiring T retiring force se
   | Promote from to ks \<Rightarrow> promote T from to ks se
   | AddKeys environment ds expected \<Rightarrow> add_keys T environment ds expected se
   | DeleteKeys ks expected \<Rightarrow> delete_keys T ks expected se
   | ArchiveProduct now expected force \<Rightarrow> archive_product T now expected force se)"

subsection \<open>Commit and run\<close>

definition commit_checks :: "tools \<Rightarrow> edit_session \<Rightarrow> read_check list" where
  "commit_checks T se = map (\<lambda>p. (p, session_etag T se p)) (se_reads se)"

definition commit_collections :: "edit_session \<Rightarrow> collection_check list" where
  "commit_collections se = [(''config/'' @ se_service se,
     map (\<lambda>(p, _). drop (length (''config/'' @ se_service se @ ''/'')) p) (environment_files se))]"

definition product_commit :: "tools \<Rightarrow> string \<Rightarrow> edit_session \<Rightarrow> (failure + nat \<times> string list) io" where
  "product_commit T t se = io_bind (write_many (tl_sha T) t (se_writes se) (commit_checks T se) (commit_collections se)) (\<lambda>result.
     io_return (case result of
       BConflict p _ n \<Rightarrow> Inl ((failure_of FConflict (p @ '' changed; review and reapply your edit''))\<lparr>fl_current := Some n\<rparr>)
     | BInvalid _ errors \<Rightarrow> Inl ((failure_of FInvalid ''invalid files'')\<lparr>fl_errors := Some errors\<rparr>)
     | BWritten n _ \<Rightarrow> Inr (n, uniq (concat (map rq_keys (se_writes se))))
     | BUnchanged n _ \<Rightarrow> Inr (n, uniq (concat (map rq_keys (se_writes se))))))"

definition unexpected :: "string \<Rightarrow> failure" where
  "unexpected service = failure_of FFailed (''could not update '' @ service @ ''; no successful write was acknowledged'')"

definition run_operation :: "tools \<Rightarrow> string \<Rightarrow> unit io \<Rightarrow> string \<Rightarrow> actor \<Rightarrow> product_op \<Rightarrow> (failure + nat \<times> string list) io" where
  "run_operation T t on_committed service a op =
     (if \<not> is_identifier service then io_return (Inl (failure_of FInvalid ''invalid product name'')) else
      io_catch (io_bind (engine_snapshot (tl_sha T) '''') (\<lambda>(_, fs).
        case bind_err (new_session T service a fs) (plan T op) of
          Inl (Refusal f) \<Rightarrow> io_return (Inl f)
        | Inl (Thrown e) \<Rightarrow> io_throw e
        | Inr se \<Rightarrow> io_bind (product_commit T t se) (\<lambda>result. case result of
            Inl f \<Rightarrow> io_return (Inl f)
          | Inr done \<Rightarrow> io_then on_committed (io_return (Inr done)))))
        (\<lambda>_. io_return (Inl (unexpected service))))"

end
