(* ===== verification/ProductProps.thy ===== *)
theory ProductProps
  imports Products Writes Sops
begin

section \<open>What product operations keep\<close>

text \<open>
  The laws of the tools the operations rely on form a locale, interpreted on the tools of a repository
  without encryption. The lemmas follow a plan from its session to its writes; the properties are that
  no operation leaves a product invalid, that no secret leaves in the clear, and that a plan commits
  only over the files it was made from.
\<close>

lemmas err_iff = bind_err_Inr_iff bind_when_err_Inr

lemma map_sum_Inr_iff [simp]: "map_sum f id r = Inr x \<longleftrightarrow> r = Inr x"
  by (cases r) auto

lemma thrown_Inr [simp]: "thrown r = Inr x \<longleftrightarrow> r = Inr x" "thrown_schema q = Inr y \<longleftrightarrow> q = Inr y"
  by (simp_all add: thrown_def thrown_schema_def)

subsection \<open>The laws of the tools\<close>

text \<open>
  \<open>good\<close> are the values a document can hold: the parser gives no others, printing and parsing gives
  them back, and so does encrypting, decrypting and parsing, and an encrypted document has no more keys
  than the document and the block of sops.
\<close>

locale store_tools =
  fixes T :: tools and good :: "jsval \<Rightarrow> bool"
  assumes good_obj: "good (JObj d) \<longleftrightarrow> distinct (map fst d) \<and> (\<forall>e \<in> set d. good (snd e))"
    and good_plain: "good (JNum (NInt n))" "good (JBool b)"
    and parsed_good: "tl_yaml T s = Inr v \<Longrightarrow> good v"
    and read_dump: "good v \<Longrightarrow> tl_yaml T (tl_dump T v) = Inr v"
    and read_back: "good (JObj d) \<Longrightarrow> \<not> has_key d ''sops'' \<Longrightarrow> tl_encrypt T ns (tl_dump T (JObj d)) = Inr c \<Longrightarrow>
        resolve_one (tl_yaml T) (tl_decrypt T) ns c = Inr d"
    and no_more_keys: "good (JObj d) \<Longrightarrow> tl_encrypt T ns (tl_dump T (JObj d)) = Inr c \<Longrightarrow> tl_yaml T c = Inr (JObj e) \<Longrightarrow>
        set (keys e) \<subseteq> insert ''sops'' (set (keys d))"

text \<open>
  The tools of a repository that has no \<open>.sops.yaml\<close>: the encryptor of the model gives the text back and its
  decryptor passes documents without a sops block on; the reader takes the values JSON can print.
\<close>

definition demo_hash :: "string \<Rightarrow> string" where
  "demo_hash s = take 64 (replicate (length s) (CHR ''1'') @ replicate 64 (CHR ''0''))"

definition strict_yaml :: yaml where
  "strict_yaml s = (case json_parse s of Some v \<Rightarrow> if json_ok v then Inr v else Inl ''unsupported value'' | None \<Rightarrow> Inl ''syntax error'')"

definition empty_disk :: fsys where
  "empty_disk = \<lparr>fs_files = [], fs_clock = 0, fs_fails = (\<lambda>_. False)\<rparr>"

definition plain_tools :: "spawn \<Rightarrow> (string \<Rightarrow> string) \<Rightarrow> tools" where
  "plain_tools spawn sha = \<lparr>tl_yaml = strict_yaml, tl_dump = json, tl_urls = (\<lambda>_. None),
     tl_decrypt = (\<lambda>p source. fst (sops_decrypt strict_yaml spawn None '''' ''/tmp/d'' p source empty_disk)),
     tl_encrypt = (\<lambda>ns text. fst (sops_encrypt spawn None ''/repo'' ''/tmp/d'' ns text empty_disk)),
     tl_sha = sha, tl_collate = (\<lambda>a b. a \<le> b)\<rparr>"

lemma strict_yaml_json [simp]: "json_ok v \<Longrightarrow> strict_yaml (json v) = Inr v"
  by (simp add: strict_yaml_def)

lemma plain_encrypt: "fst (sops_encrypt spawn path_var repo dir ns text empty_disk) = Inr text"
  by (simp add: sops_encrypt_def Let_def io_bind_def io_catch_def io_then_def access_file_def read_file_def io_read_def io_throw_def io_return_def
      fs_step_def empty_disk_def content_def)

lemma plain_decrypt: "\<not> is_encrypted yaml source \<Longrightarrow> fst (sops_decrypt yaml spawn path_var k dir p source w) = Inr source"
  by (simp add: sops_decrypt_def io_return_def)

lemma plain_tools_laws: "store_tools (plain_tools spawn sha) json_ok"
proof
  fix d ns c e
  assume d: "json_ok (JObj d)" and enc: "tl_encrypt (plain_tools spawn sha) ns (tl_dump (plain_tools spawn sha) (JObj d)) = Inr c"
  then have c: "c = json (JObj d)" by (simp add: plain_tools_def plain_encrypt)
  have y: "strict_yaml (json (JObj d)) = Inr (JObj d)" by (rule strict_yaml_json [OF d])
  show "resolve_one (tl_yaml (plain_tools spawn sha)) (tl_decrypt (plain_tools spawn sha)) ns c = Inr d" if "\<not> has_key d ''sops''"
  proof -
    have "\<not> is_encrypted strict_yaml (json (JObj d))" using that by (simp only: is_encrypted_def y) simp
    then show ?thesis using y by (simp add: plain_tools_def resolve_one_def plain_decrypt parse_config_def c del: json.simps)
  qed
  assume "tl_yaml (plain_tools spawn sha) c = Inr (JObj e)"
  then have "e = d" using y by (simp add: plain_tools_def c del: json.simps)
  then show "set (keys e) \<subseteq> insert ''sops'' (set (keys d))" by blast
qed (auto simp: plain_tools_def strict_yaml_def list_all_iff split: option.splits if_splits)

interpretation plain: store_tools "plain_tools spawn sha" json_ok
  by (rule plain_tools_laws)

subsection \<open>Validity does not see order or metadata\<close>

lemma validate_cong:
  assumes "map_of (ss_services S) service = map_of (ss_services R) service"
  shows "validate urls S service d = validate urls R service d"
  using assms by (simp add: validate_def)

lemma validate_set:
  assumes "validate urls S service d = Inr ()" and "\<And>k v. (k, v) \<in> set d' \<Longrightarrow> is_metadata_key k \<or> (k, v) \<in> set d"
  shows "validate urls S service d' = Inr ()"
  using assms by (fastforce simp: validate_Inr_iff list_all_iff acceptable_def)

lemma validate_config_only: "validate urls S service (config_only d) = Inr () \<longleftrightarrow> validate urls S service d = Inr ()"
proof
  assume "validate urls S service (config_only d) = Inr ()"
  then show "validate urls S service d = Inr ()" by (rule validate_set) simp
next
  assume "validate urls S service d = Inr ()"
  then show "validate urls S service (config_only d) = Inr ()" by (rule validate_set) simp
qed

text \<open>A value a schema accepts has no members, so equality up to the order of members is equality.\<close>

lemma deep_equal_flat:
  assumes "has_type urls def v" and "deep_equal u v"
  shows "u = v"
proof (cases u)
  case (JArr us)
  then obtain vs where v: "v = JArr vs" using assms(2) by (cases v) auto
  then have "list_all is_string vs" "list_all2 deep_equal us vs" using assms JArr by auto
  then have "us = vs"
  proof (induction us arbitrary: vs)
    case (Cons a us)
    then obtain b ws where vs: "vs = b # ws" "is_string b" "deep_equal a b" "list_all is_string ws" "list_all2 deep_equal us ws"
      by (auto simp: list_all2_Cons1)
    then have "a = b" by (cases a; cases b) (auto simp: is_string_def)
    then show ?case using Cons.IH vs by simp
  qed simp
  then show ?thesis using JArr v by simp
qed (use assms in \<open>cases v; simp\<close>)+

lemma deep_equal_accepted:
  assumes "validate urls S service d = Inr ()" and "deep_equal (JObj c) (JObj d)"
  shows "validate urls S service c = Inr ()"
proof -
  have e: "\<exists>v. map_of d k = Some v \<and> deep_equal u v" if "(k, u) \<in> set c" for k u
    using assms(2) that by (auto simp: list_all_iff split: option.splits)
  have "acceptable urls (definitions_for S service) (k, u)" if "(k, u) \<in> set c" for k u
  proof -
    from e [OF that] obtain v where v: "map_of d k = Some v" "deep_equal u v" by blast
    then have "acceptable urls (definitions_for S service) (k, v)"
      using assms(1) by (auto simp: validate_Inr_iff list_all_iff dest: map_of_SomeD)
    then consider "is_metadata_key k" | def where "map_of (definitions_for S service) k = Some def" "conforms urls def v"
      by (auto simp: acceptable_def)
    then show ?thesis
    proof cases
      case 2
      have "u = v"
      proof (cases "\<exists>s. v = JStr s")
        case True
        then show ?thesis using v(2) by (cases u) auto
      next
        case False
        then show ?thesis using 2(2) v(2) by (intro deep_equal_flat [of urls def]) (auto simp: conforms_def)
      qed
      then show ?thesis using \<open>acceptable urls (definitions_for S service) (k, v)\<close> by simp
    qed (simp add: acceptable_def)
  qed
  then show ?thesis using assms(1) by (auto simp: validate_Inr_iff list_all_iff)
qed

subsection \<open>What is written\<close>

lemma ordered_mem:
  assumes "distinct (map fst d)"
  shows "set (ordered d) = set d" and "distinct (map fst (ordered d))"
proof -
  let ?front = "map (\<lambda>k. (k, get_prop d k)) (sort (keys (config_only d)))"
  have front: "set ?front = set (config_only d)"
  proof -
    have "get_prop d k = v" if "(k, v) \<in> set d" for k v using assms that by (simp add: get_prop_def)
    then show ?thesis by (force simp: keys_def image_iff config_only_def)
  qed
  have k: "has_key ?front k \<longleftrightarrow> k \<in> fst ` set (config_only d)" for k
    by (simp add: has_key_iff keys_def o_def)
  have c: "k \<in> fst ` set (config_only d) \<longleftrightarrow> k \<in> fst ` set d \<and> \<not> is_metadata_key k" for k by force
  have "(k, v) \<in> set (ordered d) \<longleftrightarrow> (k, v) \<in> set d" for k v
  proof -
    have "(k, v) \<in> set (ordered d) \<longleftrightarrow> (k, v) \<in> set ?front \<or> (k, v) \<in> set d \<and> \<not> has_key ?front k"
      by (auto simp: ordered_def Let_def)
    also have "\<dots> \<longleftrightarrow> (k, v) \<in> set (config_only d) \<or> (k, v) \<in> set d \<and> k \<notin> fst ` set (config_only d)"
      by (simp only: front k)
    also have "\<dots> \<longleftrightarrow> (k, v) \<in> set d" using c [of k] by (cases "is_metadata_key k") (auto intro: rev_image_eqI)
    finally show ?thesis .
  qed
  then show "set (ordered d) = set d" by auto
  have dc: "distinct (keys (config_only d))"
    using assms by (simp add: keys_def config_only_def distinct_map_filter)
  have "distinct (map fst (filter (\<lambda>(k, _). \<not> has_key ?front k) d))" using assms by (rule distinct_map_filter)
  moreover have "fst ` set ?front \<inter> fst ` set (filter (\<lambda>(k, _). \<not> has_key ?front k) d) = {}"
  proof -
    have "fst ` set ?front = {k. has_key ?front k}" unfolding front using k by blast
    then show ?thesis by (simp only:) auto
  qed
  moreover have "distinct (map fst ?front)" using dc by (simp add: o_def)
  ultimately show "distinct (map fst (ordered d))"
    unfolding ordered_def Let_def map_append distinct_append set_map by blast
qed

text \<open>A document the operations write: encrypted from a plain one, its secrets in ciphertext.\<close>

definition encoded :: "tools \<Rightarrow> schema_set \<Rightarrow> string \<Rightarrow> string \<Rightarrow> obj \<Rightarrow> string \<Rightarrow> bool" where
  "encoded T S service env d c = (\<exists>e. tl_encrypt T (service @ ''/'' @ env) (tl_dump T (JObj (ordered d))) = Inr c
     \<and> tl_yaml T c = Inr (JObj e) \<and> (\<forall>k. k \<in> set (keys (config_only d)) \<and> is_secret S service k \<longrightarrow>
        ciphertext (get_prop e k) \<or> is_empty_secret (get_prop d k) \<and> is_empty_secret (get_prop e k)))"

lemma encode_Inr:
  assumes "encode T se env d S = Inr c"
  shows "encoded T S (se_service se) env d c"
proof -
  from assms obtain v where v: "tl_encrypt T (se_service se @ ''/'' @ env) (tl_dump T (JObj (ordered d))) = Inr c"
      "tl_yaml T c = Inr v" "is_record v"
      "find (\<lambda>k. is_secret S (se_service se) k
           \<and> \<not> (is_empty_secret (get_prop d k) \<and> is_empty_secret (prop_of v k))
           \<and> \<not> ciphertext (prop_of v k)) (keys (config_only d)) = None"
    by (auto simp: encode_def err_iff split: option.splits)
  then obtain e where "v = JObj e" by (cases v) (auto simp: is_record_def)
  with v show ?thesis by (auto simp: encoded_def find_None_iff prop_of_def obj_of_def)
qed

lemma document_Inr:
  assumes "document T env se = Inr (d, se1)"
  shows "is_identifier env" "se1 = mark_read (env_path (se_service se) env) se"
    "map_of (se_files se) (env_path (se_service se) env) = None \<Longrightarrow> d = []"
    "map_of (se_files se) (env_path (se_service se) env) = Some c \<Longrightarrow>
       resolve_one (tl_yaml T) (tl_decrypt T) (se_service se @ ''/'' @ env) c = Inr d"
  using assms by (auto simp: document_def Let_def err_iff split: if_splits option.splits)

definition env_ok :: "tools \<Rightarrow> schema_set \<Rightarrow> string \<Rightarrow> string \<Rightarrow> string \<Rightarrow> bool" where
  "env_ok T S service env c = (\<exists>d. resolve_one (tl_yaml T) (tl_decrypt T) (service @ ''/'' @ env) c = Inr d
     \<and> validate (tl_urls T) S service d = Inr ())"

lemma set_all_map: "map_of (set_all cs d) k = (case map_of (rev cs) k of Some v \<Rightarrow> Some v | None \<Rightarrow> map_of d k)"
proof (induction cs arbitrary: d)
  case (Cons c cs)
  obtain a b where c: "c = (a, b)" by (cases c)
  have "set_all (c # cs) d = set_all cs (AList.update a b d)" by (simp add: set_all_def c)
  then show ?case using Cons c by (auto simp: map_add_def split: option.split)
qed (simp add: set_all_def)

lemma set_all_Cons: "set_all (c # cs) d = set_all cs (AList.update (fst c) (snd c) d)"
  by (simp add: set_all_def case_prod_beta)

lemma set_all_keys:
  "distinct (map fst d) \<Longrightarrow> distinct (map fst (set_all cs d))"
  "fst ` set (set_all cs d) = fst ` set cs \<union> fst ` set d"
proof (induction cs arbitrary: d)
  case (Cons c cs)
  {
    case 1
    then show ?case using Cons.IH(1) by (simp add: set_all_Cons distinct_update)
  next
    case 2
    then show ?case using Cons.IH(2) by (simp add: set_all_Cons)
  }
qed (simp_all add: set_all_def)

context store_tools
begin

lemma good_parts: "good (JObj d) \<Longrightarrow> map_of d k = Some v \<Longrightarrow> good v"
  by (auto simp: good_obj dest: map_of_SomeD)

lemma good_update: "good (JObj d) \<Longrightarrow> good v \<Longrightarrow> good (JObj (AList.update k v d))"
  using set_update_subset [of k v d] by (auto simp: good_obj distinct_update)

lemma good_set_all: "good (JObj d) \<Longrightarrow> \<forall>e \<in> set cs. good (snd e) \<Longrightarrow> good (JObj (set_all cs d))"
  by (induction cs arbitrary: d) (simp_all add: set_all_Cons good_update, simp add: set_all_def)

lemma good_filter: "good (JObj d) \<Longrightarrow> good (JObj (filter P d))"
  by (auto simp: good_obj distinct_map_filter)

lemma good_config_only: "good (JObj d) \<Longrightarrow> good (JObj (config_only d))"
  by (simp add: config_only_def good_filter)

lemma good_bump: "good (JObj d) \<Longrightarrow> good (JObj (bump current d))"
  by (simp add: bump_def good_update good_plain)

lemma good_ordered: "good (JObj d) \<Longrightarrow> good (JObj (ordered d))"
  by (simp add: good_obj ordered_mem)

lemma good_resolved: "resolve_one (tl_yaml T) (tl_decrypt T) ns c = Inr d \<Longrightarrow> good (JObj d)"
proof -
  assume "resolve_one (tl_yaml T) (tl_decrypt T) ns c = Inr d"
  then obtain t where t: "parse_config (tl_yaml T) (config_path ns) t = Inr d" by (auto simp: resolve_one_def bind_err_Inr_iff)
  then obtain v where v: "tl_yaml T t = Inr v" by (cases "tl_yaml T t") (simp_all add: parse_config_def)
  have "d = [] \<or> v = JObj d" using t v by (cases v) (simp_all add: parse_config_def)
  then show "good (JObj d)" using parsed_good [OF v] good_obj [of "[]"] by auto
qed

lemma good_document: "document T env se = Inr (d, se1) \<Longrightarrow> good (JObj d)"
  using document_Inr(3,4) [of T env se d se1] good_resolved
  by (cases "map_of (se_files se) (env_path (se_service se) env)") (auto simp: good_obj [of "[]"])

text \<open>What is written decrypts to a document the schema accepts.\<close>

lemma encoded_ok:
  assumes "encoded T S service env d c" and "good (JObj d)" and "\<not> has_key d ''sops''"
    and "validate (tl_urls T) S service d = Inr ()"
  shows "env_ok T S service env c"
proof -
  have d: "distinct (map fst d)" using assms(2) by (simp add: good_obj)
  have "\<not> has_key (ordered d) ''sops''"
    using assms(3) ordered_mem(1) [OF d] by (simp add: has_key_iff keys_def)
  then have "resolve_one (tl_yaml T) (tl_decrypt T) (service @ ''/'' @ env) c = Inr (ordered d)"
    using assms(1) read_back [OF good_ordered [OF assms(2)]] by (auto simp: encoded_def)
  moreover have "validate (tl_urls T) S service (ordered d) = Inr ()"
    using assms(4) ordered_mem(1) [OF d] by (auto intro: validate_set)
  ultimately show ?thesis by (auto simp: env_ok_def)
qed

end

subsection \<open>How a session grows\<close>

definition extends :: "tools \<Rightarrow> edit_session \<Rightarrow> edit_session \<Rightarrow> request list \<Rightarrow> bool" where
  "extends T se se' rs = (se_service se' = se_service se \<and> se_actor se' = se_actor se \<and> se_files se' = se_files se
     \<and> se_schemas se' = se_schemas se \<and> se_order se' = se_order se \<and> set (se_reads se) \<subseteq> set (se_reads se')
     \<and> se_writes se' = se_writes se @ rs
     \<and> (\<forall>r \<in> set rs. rq_expected r = Some (session_etag T se (rq_path r)) \<and> rq_validate r = (\<lambda>_. [])))"

lemma extendsD:
  assumes "extends T se se' rs"
  shows "se_service se' = se_service se" "se_files se' = se_files se" "se_schemas se' = se_schemas se" "se_order se' = se_order se"
    "set (se_reads se) \<subseteq> set (se_reads se')" "se_writes se' = se_writes se @ rs"
    "environment_files se' = environment_files se" "environment_of se' p = environment_of se p" "session_etag T se' p = session_etag T se p"
  using assms by (simp_all add: extends_def environment_files_def environment_of_def session_etag_def)

lemma extends_refl: "extends T se se []"
  by (simp add: extends_def)

lemma extends_trans: "extends T se se' rs \<Longrightarrow> extends T se' se'' rs' \<Longrightarrow> extends T se se'' (rs @ rs')"
  unfolding extends_def session_etag_def by auto

lemma extends_read: "extends T se (mark_read p se) []"
  by (auto simp: extends_def mark_read_def)

definition write_of :: "tools \<Rightarrow> edit_session \<Rightarrow> path \<Rightarrow> string option \<Rightarrow> string list \<Rightarrow> request" where
  "write_of T se p c ks = \<lparr>rq_path = p, rq_content = c, rq_expected = Some (session_etag T se p),
     rq_validate = (\<lambda>_. []), rq_actor = Some (actor_line (se_actor se)), rq_keys = ks\<rparr>"

lemma write_of_fields [simp]: "rq_path (write_of T se p c ks) = p" "rq_content (write_of T se p c ks) = c"
  by (simp_all add: write_of_def)

lemma extends_put: "extends T se (put T p c ks se) [write_of T se p c ks]"
  by (simp add: extends_def put_def write_of_def session_etag_def)

lemma extends_then_put: "extends T se se' rs \<Longrightarrow> extends T se (put T p c ks se') (rs @ [write_of T se' p c ks])"
  by (rule extends_trans [OF _ extends_put])

text \<open>The files after the writes of a plan.\<close>

definition apply_writes :: "request list \<Rightarrow> (path \<Rightarrow> string option) \<Rightarrow> path \<Rightarrow> string option" where
  "apply_writes rs A p = (case find (\<lambda>r. rq_path r = p) rs of Some r \<Rightarrow> rq_content r | None \<Rightarrow> A p)"

lemma apply_writes_cases:
  obtains r where "r \<in> set rs" "rq_path r = p" "apply_writes rs A p = rq_content r"
  | "p \<notin> rq_path ` set rs" "apply_writes rs A p = A p"
proof (cases "find (\<lambda>r. rq_path r = p) rs")
  case None
  then have "p \<notin> rq_path ` set rs" by (auto simp: find_None_iff)
  moreover have "apply_writes rs A p = A p" using None by (simp add: apply_writes_def)
  ultimately show ?thesis by (rule that(2))
next
  case (Some r)
  then have "r \<in> set rs \<and> rq_path r = p" by (auto simp: find_Some_iff)
  moreover have "apply_writes rs A p = rq_content r" using Some by (simp add: apply_writes_def)
  ultimately show ?thesis using that(1) by blast
qed

lemma apply_writes_outside: "p \<notin> rq_path ` set rs \<Longrightarrow> apply_writes rs A p = A p"
  by (rule apply_writes_cases [of rs p A]) auto

lemma apply_writes_snoc: "apply_writes (rs @ [r]) A p = (if p \<in> rq_path ` set rs then apply_writes rs A p else if rq_path r = p then rq_content r else A p)"
proof -
  have f: "find (\<lambda>r. rq_path r = p) (rs @ [r]) = (case find (\<lambda>r. rq_path r = p) rs of Some x \<Rightarrow> Some x | None \<Rightarrow> if rq_path r = p then Some r else None)"
    by (induction rs) auto
  show ?thesis
  proof (cases "find (\<lambda>r. rq_path r = p) rs")
    case None
    then have "p \<notin> rq_path ` set rs" by (auto simp: find_None_iff)
    then show ?thesis using None f by (simp add: apply_writes_def)
  next
    case (Some x)
    then have "p \<in> rq_path ` set rs" by (auto simp: find_Some_iff)
    then show ?thesis using Some f by (simp add: apply_writes_def)
  qed
qed

definition written :: "tools \<Rightarrow> (jsval \<Rightarrow> bool) \<Rightarrow> schema_set \<Rightarrow> string \<Rightarrow> string \<Rightarrow> string \<Rightarrow> bool" where
  "written T good S service env c = (\<exists>d. encoded T S service env d c \<and> good (JObj d) \<and> \<not> has_key d ''sops''
     \<and> validate (tl_urls T) S service d = Inr ())"

lemma env_path_of: "(p, c) \<in> set (environment_files se) \<Longrightarrow> is_identifier (environment_of se p) \<Longrightarrow>
    env_path (se_service se) (environment_of se p) = p"
proof -
  assume p: "(p, c) \<in> set (environment_files se)" and i: "is_identifier (environment_of se p)"
  let ?pre = "''config/'' @ se_service se @ ''/''"
  have "starts_with ?pre p" "ends_with ''.yaml'' p" using p by (simp_all add: environment_files_def)
  then obtain t u where t: "p = ?pre @ t" and u: "p = u @ ''.yaml''" unfolding starts_with_iff ends_with_iff by blast
  have ne: "environment_of se p \<noteq> []" using i by (simp add: is_identifier_def)
  then have len: "length ?pre + 5 < length p" by (auto simp: environment_of_def slice_def)
  have "length ?pre \<le> length u" using len u by simp
  moreover have "take (length ?pre) (u @ ''.yaml'') = ?pre" using t u by (metis append_eq_conv_conj)
  ultimately have "take (length ?pre) u = ?pre" by simp
  then obtain m where m: "u = ?pre @ m" by (metis append_take_drop_id)
  have "environment_of se p = m"
    using u m slice_middle [of ?pre "''.yaml''" m] by (simp add: environment_of_def slice_def)
  then show "env_path (se_service se) (environment_of se p) = p" using u m by (simp add: env_path_def)
qed

lemma mark_read_simps [simp]: "se_service (mark_read p se) = se_service se" "p \<in> set (se_reads (mark_read p se))"
  by (simp_all add: mark_read_def)

lemma put_simps [simp]: "se_service (put T p c ks se) = se_service se" "se_reads (put T p c ks se) = se_reads se"
  by (simp_all add: put_def)

lemma no_meta_config_only: "\<not> has_key (config_only d) version_key" "\<not> has_key (config_only d) ''sops''"
  by (simp_all add: has_key_def map_of_config_only)

lemma bump_keys: "has_key (bump current d) ''sops'' \<longleftrightarrow> has_key d ''sops''"
  by (simp add: has_key_def bump_def version_key_def)

lemma validate_bump: "validate urls S service d = Inr () \<Longrightarrow> validate urls S service (bump current d) = Inr ()"
proof (erule validate_set)
  fix k v
  assume "(k, v) \<in> set (bump current d)"
  then show "is_metadata_key k \<or> (k, v) \<in> set d"
    using set_update_subset [of version_key "JNum (NInt (bumped_version current))" d] by (auto simp: bump_def)
qed

subsection \<open>One file under a new schema\<close>

lemma revise_Inr:
  assumes "revise T S guard edit fault changes ks p se = Inr se'"
  shows "\<exists>current se1. document T (environment_of se p) se = Inr (current, se1) \<and> guard = Inr ()
    \<and> validate (tl_urls T) S (se_service se) (edit (config_only current)) = Inr ()
    \<and> (if changes current (edit (config_only current))
       then (\<exists>c. encoded T S (se_service se) (environment_of se p) (bump current (edit (config_only current))) c \<and> se' = put T p (Some c) ks se1)
       else se' = se1)"
proof -
  from assms obtain current se1 where d: "document T (environment_of se p) se = Inr (current, se1)" "guard = Inr ()"
      "validate (tl_urls T) S (se_service se) (edit (config_only current)) = Inr ()"
      "(if changes current (edit (config_only current))
        then bind_err (encode T se1 (environment_of se p) (bump current (edit (config_only current))) S) (\<lambda>c. Inr (put T p (Some c) ks se1))
        else Inr se1) = Inr se'"
    unfolding revise_def Let_def by (fastforce simp: bind_err_Inr_iff split: prod.splits)
  have s: "se_service se1 = se_service se" using document_Inr(2) [OF d(1)] by simp
  have "\<exists>c. encoded T S (se_service se) (environment_of se p) (bump current (edit (config_only current))) c \<and> se' = put T p (Some c) ks se1"
    if ch: "changes current (edit (config_only current))"
  proof -
    from d(4) ch obtain c where "encode T se1 (environment_of se p) (bump current (edit (config_only current))) S = Inr c" "se' = put T p (Some c) ks se1"
      by (auto simp: bind_err_Inr_iff)
    then show ?thesis using encode_Inr s by metis
  qed
  moreover have "se' = se1" if "\<not> changes current (edit (config_only current))" using d(4) that by simp
  ultimately show ?thesis using d(1-3) by (intro exI [of _ current] exI [of _ se1]) simp
qed

text \<open>
  What a pass over the environment files leaves: each one was read, names an environment, and either
  conforms as it is or is replaced by one that does.
\<close>

definition revised :: "tools \<Rightarrow> (jsval \<Rightarrow> bool) \<Rightarrow> schema_set \<Rightarrow> (path \<times> string) list \<Rightarrow> edit_session \<Rightarrow> edit_session \<Rightarrow> request list \<Rightarrow> bool" where
  "revised T good S fs se se' rs = (extends T se se' rs
     \<and> (\<forall>(p, c) \<in> set fs. p \<in> set (se_reads se') \<and> is_identifier (environment_of se p)
        \<and> (env_ok T S (se_service se) (environment_of se p) c \<or> p \<in> rq_path ` set rs))
     \<and> (\<forall>r \<in> set rs. rq_path r \<in> fst ` set fs \<and> (\<exists>c. rq_content r = Some c \<and> written T good S (se_service se) (environment_of se (rq_path r)) c)))"

lemma revised_Nil: "revised T good S [] se se []"
  by (simp add: revised_def extends_refl)

lemma revised_Cons:
  assumes "revised T good S [f] se se1 rs" and "revised T good S fs se1 se2 rs'"
  shows "revised T good S (f # fs) se se2 (rs @ rs')"
proof -
  have e: "extends T se se1 rs" "extends T se1 se2 rs'" using assms by (simp_all add: revised_def)
  note same = extendsD [OF e(1)] and more = extendsD [OF e(2)]
  show ?thesis using assms same(1,8) more(5) extends_trans [OF e]
    unfolding revised_def by (auto 0 3)
qed

context store_tools
begin

lemma revised_one:
  assumes run: "revise T S guard edit fault changes ks p se = Inr se'" and p: "(p, c) \<in> set (environment_files se)" and fs: "distinct (map fst (se_files se))"
    and good: "\<And>current. good (JObj current) \<Longrightarrow> good (JObj (edit (config_only current)))"
    and sops: "\<And>current. \<not> has_key (edit (config_only current)) ''sops''"
    and same: "\<And>current. \<not> changes current (edit (config_only current)) \<Longrightarrow> validate (tl_urls T) S (se_service se) (edit (config_only current)) = Inr () \<Longrightarrow>
        validate (tl_urls T) S (se_service se) current = Inr ()"
  shows "\<exists>rs. revised T good S [(p, c)] se se' rs"
proof -
  let ?env = "environment_of se p"
  from revise_Inr [OF run] obtain current se1 where r: "document T ?env se = Inr (current, se1)"
      "validate (tl_urls T) S (se_service se) (edit (config_only current)) = Inr ()"
      "if changes current (edit (config_only current))
       then (\<exists>c. encoded T S (se_service se) ?env (bump current (edit (config_only current))) c \<and> se' = put T p (Some c) ks se1)
       else se' = se1"
    by blast
  note doc = document_Inr [OF r(1)]
  have path: "env_path (se_service se) ?env = p" using env_path_of [OF p doc(1)] .
  have s1: "se1 = mark_read p se" using doc(2) path by simp
  have stored: "map_of (se_files se) p = Some c" using p fs by (auto simp: environment_files_def)
  have res: "resolve_one (tl_yaml T) (tl_decrypt T) (se_service se @ ''/'' @ ?env) c = Inr current" using doc(4) [of c] path stored by simp
  show ?thesis
  proof (cases "changes current (edit (config_only current))")
    case False
    then have "se' = se1" "env_ok T S (se_service se) ?env c" using r(2,3) same res by (auto simp: env_ok_def)
    then show ?thesis using doc(1) s1 extends_read [of T se p]
      by (intro exI [of _ "[]"]) (simp add: revised_def)
  next
    case True
    then obtain c' where c': "encoded T S (se_service se) ?env (bump current (edit (config_only current))) c'" "se' = put T p (Some c') ks se1"
      using r(3) by auto
    have "written T good S (se_service se) ?env c'"
      unfolding written_def
      using c'(1) good_bump [OF good [OF good_document [OF r(1)]]] sops validate_bump [OF r(2)] bump_keys by blast
    then show ?thesis
      using c'(2) doc(1) s1 extends_trans [OF extends_read extends_put [of T "mark_read p se" p "Some c'" ks]]
      by (intro exI [of _ "[write_of T se1 p (Some c') ks]"]) (simp add: revised_def)
  qed
qed

end

lemma revised_fold:
  assumes "fold_err step fs se = Inr se'"
    and step: "\<And>f s s' rs. f \<in> set fs \<Longrightarrow> extends T se s rs \<Longrightarrow> step f s = Inr s' \<Longrightarrow> \<exists>rs'. revised T good S [f] s s' rs'"
  shows "\<exists>rs. revised T good S fs se se' rs"
  using assms
proof (induction fs arbitrary: se)
  case Nil
  then show ?case using revised_Nil [of T good S se] by auto
next
  case (Cons f fs)
  then obtain s where s: "step f se = Inr s" "fold_err step fs s = Inr se'" by (auto split: sum.splits)
  obtain rs where rs: "revised T good S [f] se s rs" using Cons.prems(2) [OF _ extends_refl s(1)] by auto
  have "extends T se s rs" using rs by (simp add: revised_def)
  then have "\<exists>rs'. revised T good S fs s se' rs'"
    using Cons.prems(2) extends_trans by (intro Cons.IH [OF s(2)]) fastforce
  then show ?case using revised_Cons [OF rs] by blast
qed

subsection \<open>The schema of one product, in the tree and alone\<close>

lemma add_file_Inr:
  assumes "add_file yaml urls (service, source) S = Inr R"
  shows "\<exists>ks n r. parse_schema yaml urls service source = Inr ks \<and> parse_schema_version yaml service source = Inr n
    \<and> parse_retiring yaml service source = Inr r \<and> ss_services R = AList.update service ks (ss_services S)"
  using assms unfolding add_file_def by (auto simp: bind_err_Inr_iff)

lemma from_one_Inr:
  assumes "parse_schema yaml urls service source = Inr ks" "parse_schema_version yaml service source = Inr n" "parse_retiring yaml service source = Inr r"
  shows "\<exists>S. from_files yaml urls [(service, source)] = Inr S \<and> map_of (ss_services S) service = Some ks"
  using assms by (simp add: from_files_def add_file_def)

lemma from_one_services: "from_files yaml urls [(service, source)] = Inr S \<Longrightarrow>
    parse_schema yaml urls service source = Inr ks \<Longrightarrow> map_of (ss_services S) service = Some ks"
  by (auto simp: from_files_def split: sum.splits dest!: add_file_Inr)

lemma fold_add_file:
  assumes "fold_err (add_file yaml urls) fl S0 = Inr S" "(service, source) \<in> set fl"
  shows "\<exists>R. from_files yaml urls [(service, source)] = Inr R"
  using assms
proof (induction fl arbitrary: S0)
  case (Cons f fl)
  then obtain S1 where f: "add_file yaml urls f S0 = Inr S1" "fold_err (add_file yaml urls) fl S1 = Inr S" by (auto split: sum.splits)
  show ?case
  proof (cases "f = (service, source)")
    case True
    then show ?thesis using add_file_Inr [of yaml urls service source S0 S1] f(1) from_one_Inr by blast
  qed (use Cons f in auto)
qed simp

lemma schema_path_name_iff: "schema_path_name p = Some service \<Longrightarrow> p = schema_path service"
proof -
  assume "schema_path_name p = Some service"
  then have p: "starts_with ''schema/'' p" "ends_with ''.yaml'' p" "length ''schema/'' + length ''.yaml'' < length p" "service = slice 7 5 p"
    by (auto simp: schema_path_name_def split: if_splits)
  then obtain t u where t: "p = ''schema/'' @ t" and u: "p = u @ ''.yaml''" unfolding starts_with_iff ends_with_iff by blast
  have "take 7 p = ''schema/''" by (simp add: t)
  then have "take 7 (u @ ''.yaml'') = ''schema/''" by (simp only: u)
  moreover have "7 \<le> length u" using p(3) u by simp
  ultimately have "take 7 u = ''schema/''" by simp
  then obtain m where m: "u = ''schema/'' @ m" by (metis append_take_drop_id)
  then show ?thesis using u p(4) by (simp add: schema_path_def slice_def)
qed

lemma fold_sources:
  assumes "(name, source) \<in> set (foldl (\<lambda>sources (p, source). case schema_path_name p of
      Some name \<Rightarrow> AList.update name source sources | None \<Rightarrow> sources) m fs)"
  shows "(name, source) \<in> set m \<or> (\<exists>p. (p, source) \<in> set fs \<and> schema_path_name p = Some name)"
  using assms
proof (induction fs arbitrary: m)
  case (Cons f fs)
  obtain p c where f: "f = (p, c)" by (cases f)
  show ?case
  proof (cases "schema_path_name p")
    case None
    then show ?thesis using Cons f by auto
  next
    case (Some n)
    then have "(name, source) \<in> set (AList.update n c m) \<or> (\<exists>p. (p, source) \<in> set fs \<and> schema_path_name p = Some name)"
      using Cons f by simp
    then show ?thesis using Some f set_update_subset [of n c m] by auto
  qed
qed simp

lemma tree_schema:
  assumes tree: "from_tree yaml urls fs = Inr S" and fs: "distinct (map fst fs)" and has: "has_schema S service"
  shows "\<exists>source R. map_of fs (schema_path service) = Some source \<and> from_files yaml urls [(service, source)] = Inr R
    \<and> map_of (ss_services R) service = map_of (ss_services S) service"
proof -
  define sources where "sources = foldl (\<lambda>sources (p, source). case schema_path_name p of
      Some name \<Rightarrow> AList.update name source sources | None \<Rightarrow> sources) [] fs"
  have run: "fold_err (add_file yaml urls) sources \<lparr>ss_services = [], ss_versions = [], ss_retiring = []\<rparr> = Inr S"
    using tree by (simp add: from_tree_def from_files_def sources_def)
  obtain ks where ks: "map_of (ss_services S) service = Some ks" using has by (auto simp: has_schema_def has_key_def)
  obtain source where src: "(service, source) \<in> set sources" "parse_schema yaml urls service source = Inr ks"
    using from_files_lookup [OF run ks] by auto
  obtain R where R: "from_files yaml urls [(service, source)] = Inr R" using fold_add_file [OF run src(1)] by blast
  obtain p where p: "(p, source) \<in> set fs" "schema_path_name p = Some service"
    using fold_sources [of service source "[]" fs] src(1) by (auto simp: sources_def)
  then have "map_of fs (schema_path service) = Some source" using fs schema_path_name_iff [OF p(2)] by simp
  then show ?thesis using R ks from_one_services [OF R src(2)] by auto
qed

subsection \<open>What every plan ends in\<close>

definition agrees :: "edit_session \<Rightarrow> (path \<Rightarrow> string option) \<Rightarrow> bool" where
  "agrees se A = ((\<forall>p \<in> set (se_reads se). A p = map_of (se_files se) p)
     \<and> (\<forall>env. is_identifier env \<and> A (env_path (se_service se) env) \<noteq> None \<longrightarrow> map_of (se_files se) (env_path (se_service se) env) \<noteq> None))"

definition valid_product :: "tools \<Rightarrow> string \<Rightarrow> (path \<Rightarrow> string option) \<Rightarrow> bool" where
  "valid_product T service A = (\<exists>src S. A (schema_path service) = Some src \<and> from_files (tl_yaml T) (tl_urls T) [(service, src)] = Inr S
     \<and> (\<forall>env c. is_identifier env \<and> A (env_path service env) = Some c \<longrightarrow> env_ok T S service env c))"

text \<open>
  The schema a plan leaves reads, every document it writes conforms to it, and so does every document
  it leaves alone, if the plan checked those (\<open>chk\<close>) or they did before.
\<close>

definition plan_ok :: "tools \<Rightarrow> (jsval \<Rightarrow> bool) \<Rightarrow> (path \<Rightarrow> string option) \<Rightarrow> bool \<Rightarrow> edit_session \<Rightarrow> edit_session \<Rightarrow> request list \<Rightarrow> schema_set \<Rightarrow> bool" where
  "plan_ok T good A chk se se' rs S = (let service = se_service se in extends T se se' rs
     \<and> (\<exists>src. apply_writes rs A (schema_path service) = Some src \<and> from_files (tl_yaml T) (tl_urls T) [(service, src)] = Inr S)
     \<and> (\<forall>r \<in> set rs. \<forall>env. rq_path r = env_path service env \<longrightarrow> (\<exists>c. rq_content r = Some c \<and> written T good S service env c))
     \<and> (chk \<or> valid_product T service A \<longrightarrow> (\<forall>env c. is_identifier env \<and> A (env_path service env) = Some c
          \<and> env_path service env \<notin> rq_path ` set rs \<longrightarrow> env_ok T S service env c)))"

lemma path_apart [simp]:
  "env_path service env \<noteq> schema_path s" "schema_path s \<noteq> env_path service env"
  "env_path service env \<noteq> ''services.yaml''" "''services.yaml'' \<noteq> env_path service env"
  "schema_path s \<noteq> ''services.yaml''" "''services.yaml'' \<noteq> schema_path s"
  "env_path service env \<noteq> archive_path s" "archive_path s \<noteq> env_path service env"
  by (auto simp: env_path_def schema_path_def archive_path_def)

lemma env_path_inj [simp]: "env_path service env = env_path service env' \<longleftrightarrow> env = env'"
  by (simp add: env_path_def)

lemma environment_of_env_path [simp]: "environment_of se (env_path (se_service se) env) = env"
  by (simp add: environment_of_def env_path_def slice_def)

lemma env_path_file: "map_of (se_files se) (env_path (se_service se) env) = Some c \<Longrightarrow>
    (env_path (se_service se) env, c) \<in> set (environment_files se)"
proof -
  assume "map_of (se_files se) (env_path (se_service se) env) = Some c"
  moreover have "starts_with (''config/'' @ se_service se @ ''/'') (env_path (se_service se) env)"
    using starts_with_append [of "''config/'' @ se_service se @ ''/''" "env @ ''.yaml''"] by (simp add: env_path_def)
  moreover have "ends_with ''.yaml'' (env_path (se_service se) env)"
    using ends_with_append [of "''.yaml''" "''config/'' @ se_service se @ ''/'' @ env"] by (simp add: env_path_def)
  ultimately show ?thesis by (auto simp: environment_files_def dest: map_of_SomeD)
qed

lemma environment_file_not_schema: "(p, c) \<in> set (environment_files se) \<Longrightarrow> p \<noteq> schema_path s"
  by (auto simp: environment_files_def starts_with_iff schema_path_def)

lemma written_unique: "encoded T S service env d c \<Longrightarrow> map_of (ss_services S) service = map_of (ss_services R) service \<Longrightarrow> encoded T R service env d c"
  by (simp add: encoded_def is_secret_def)

lemma written_cong:
  assumes "written T good S service env c" "map_of (ss_services S) service = map_of (ss_services R) service"
  shows "written T good R service env c"
  using assms written_unique [of T S service env _ c R] validate_cong [OF assms(2), of "tl_urls T"] by (auto simp: written_def)

lemma env_ok_cong: "env_ok T S service env c \<Longrightarrow> map_of (ss_services S) service = map_of (ss_services R) service \<Longrightarrow> env_ok T R service env c"
  using validate_cong [of S service R "tl_urls T"] by (simp add: env_ok_def)

context store_tools
begin

lemma plan_ok_valid:
  assumes "plan_ok T good A chk se se' rs S" and "chk \<or> valid_product T (se_service se) A"
  shows "valid_product T (se_service se) (apply_writes rs A)"
proof -
  let ?s = "se_service se"
  obtain src where src: "apply_writes rs A (schema_path ?s) = Some src" "from_files (tl_yaml T) (tl_urls T) [(?s, src)] = Inr S"
    using assms by (auto simp: plan_ok_def Let_def)
  have "env_ok T S ?s env c" if i: "is_identifier env" and c: "apply_writes rs A (env_path ?s env) = Some c" for env c
  proof (cases rule: apply_writes_cases [of rs "env_path ?s env" A])
    case (1 r)
    then have "written T good S ?s env c" using assms c by (fastforce simp: plan_ok_def Let_def)
    then show ?thesis using encoded_ok by (auto simp: written_def)
  next
    case 2
    then have "A (env_path ?s env) = Some c" using c by simp
    then show ?thesis using assms i 2(1) unfolding plan_ok_def Let_def by blast
  qed
  then show ?thesis using src by (auto simp: valid_product_def)
qed

end

lemma revised_plan_ok:
  assumes rev: "revised T good S (environment_files se) se se1 rs"
    and S: "from_files (tl_yaml T) (tl_urls T) [(se_service se, src)] = Inr S"
    and se': "se' = put T (schema_path (se_service se)) (Some src) ks se1"
    and agrees: "agrees se' A" and fs: "distinct (map fst (se_files se))"
  shows "plan_ok T good A True se se' (rs @ [write_of T se1 (schema_path (se_service se)) (Some src) ks]) S"
proof -
  let ?s = "se_service se" and ?w = "write_of T se1 (schema_path (se_service se)) (Some src) ks"
  have ext: "extends T se se1 rs" using rev by (simp add: revised_def)
  have paths: "rq_path r \<in> fst ` set (environment_files se)" if "r \<in> set rs" for r using rev that by (auto simp: revised_def)
  have "schema_path ?s \<notin> rq_path ` set rs"
    using paths environment_file_not_schema [of _ _ se ?s] by force
  then have schema: "apply_writes (rs @ [?w]) A (schema_path ?s) = Some src" by (simp add: apply_writes_snoc)
  have conf: "\<exists>c. rq_content r = Some c \<and> written T good S ?s env c"
    if "r \<in> set (rs @ [?w])" "rq_path r = env_path ?s env" for r env
    using that rev by (auto simp: revised_def)
  have rest: "env_ok T S ?s env c" if i: "is_identifier env" and c: "A (env_path ?s env) = Some c" and fresh: "env_path ?s env \<notin> rq_path ` set (rs @ [?w])" for env c
  proof -
    have sf: "se_service se' = ?s" "se_files se' = se_files se" "se_reads se' = se_reads se1"
      using extendsD(1,2) [OF ext] by (simp_all add: se' put_def)
    obtain c0 where c0: "map_of (se_files se) (env_path ?s env) = Some c0"
      using agrees c i sf unfolding agrees_def by fastforce
    have mem: "(env_path ?s env, c0) \<in> set (environment_files se)" by (rule env_path_file [OF c0])
    then have r: "env_path ?s env \<in> set (se_reads se1)" "env_ok T S ?s env c0 \<or> env_path ?s env \<in> rq_path ` set rs"
      using rev by (auto simp: revised_def dest!: bspec)
    have "A (env_path ?s env) = map_of (se_files se) (env_path ?s env)" using agrees r(1) sf by (simp add: agrees_def)
    then have "c = c0" using c0 c by simp
    then show ?thesis using r(2) fresh by auto
  qed
  show ?thesis
    unfolding plan_ok_def Let_def
    using extends_then_put [OF ext] schema S conf rest se' by blast
qed

subsection \<open>Each operation\<close>

lemma same_config_valid:
  assumes "same_config current d" and "validate urls S service d = Inr ()"
  shows "validate urls S service current = Inr ()"
  using deep_equal_accepted [OF assms(2), of "config_only current"] assms(1) by (simp add: same_config_def validate_config_only)

definition op_good :: "(jsval \<Rightarrow> bool) \<Rightarrow> product_op \<Rightarrow> bool" where
  "op_good good op = (case op of
     CreateProduct r \<Rightarrow> good (JObj (cr_defaults r))
   | WriteValues _ changes _ \<Rightarrow> (\<forall>e \<in> set changes. good (snd e))
   | AddKeys _ ds _ \<Rightarrow> (\<forall>d \<in> set ds. dr_default d = JUndef \<or> good (dr_default d))
   | _ \<Rightarrow> True)"

lemma has_key_delete_all: "has_key (delete_all ks d) k \<Longrightarrow> has_key d k"
  by (auto simp: has_key_iff keys_def delete_all_def)

lemma has_key_set_all: "has_key (set_all cs d) k \<longleftrightarrow> has_key cs k \<or> has_key d k"
  by (simp add: has_key_iff keys_def set_all_keys)

context store_tools
begin

lemma delete_plan:
  assumes run: "delete_keys T selected expected se = Inr se'" and fs: "distinct (map fst (se_files se))" and agrees: "agrees se' A"
  shows "\<exists>rs S. plan_ok T good A True se se' rs S"
proof -
  from run obtain ks source candidate se1 where r: "from_files (tl_yaml T) (tl_urls T) [(se_service se, source)] = Inr candidate"
      "fold_err (delete_step T candidate ks) (environment_files se) se = Inr se1"
      "se' = put T (schema_path (se_service se)) (Some source) ks se1"
    by (auto simp: delete_keys_def Let_def bind_err_Inr_iff)
  have "\<exists>rs. revised T good candidate (environment_files se) se se1 rs"
  proof (rule revised_fold [OF r(2)])
    fix f s s' rs
    assume f: "f \<in> set (environment_files se)" and ext: "extends T se s rs" and step: "delete_step T candidate ks f s = Inr s'"
    obtain p c where pc: "f = (p, c)" by (cases f)
    note same = extendsD [OF ext]
    show "\<exists>rs'. revised T good candidate [f] s s' rs'"
      unfolding pc
    proof (rule revised_one [OF step [unfolded pc delete_step_def prod.case]])
      show "(p, c) \<in> set (environment_files s)" using f pc same by simp
      show "distinct (map fst (se_files s))" using fs same by simp
      show "good (JObj (delete_all ks (config_only current)))" if "good (JObj current)" for current
        using good_filter [OF good_config_only [OF that]] by (simp add: delete_all_def)
      show "\<not> has_key (delete_all ks (config_only current)) ''sops''" for current
        using has_key_delete_all no_meta_config_only by blast
    qed (auto intro: same_config_valid)
  qed
  then show ?thesis using revised_plan_ok [OF _ r(1) r(3) agrees fs] by blast
qed

lemma add_plan:
  assumes run: "add_keys T env ds expected se = Inr se'" and fs: "distinct (map fst (se_files se))" and agrees: "agrees se' A"
    and ds: "\<forall>d \<in> set ds. dr_default d = JUndef \<or> good (dr_default d)"
  shows "\<exists>rs S. plan_ok T good A True se se' rs S"
proof -
  from run obtain built names source candidate se1 where r: "from_files (tl_yaml T) (tl_urls T) [(se_service se, source)] = Inr candidate"
      "fold_err (add_step T candidate env (add_defaults ds) names expected) (environment_files se) se = Inr se1"
      "se' = put T (schema_path (se_service se)) (Some source) names se1" "build_schema (tl_dump T) ds = Inr built"
    by (auto simp: add_keys_def Let_def bind_err_Inr_iff)
  have names: "\<not> is_metadata_key (draft_name d)" if d: "d \<in> set ds" for d
  proof -
    have "check_keys ds [] = []" using r(4) by (auto simp: build_schema_def Let_def split: if_splits)
    from check_keys_each [OF this d] show ?thesis by (auto simp: check_key_def check_name_def)
  qed
  have vals: "\<forall>e \<in> set (add_defaults ds). good (snd e)"
  proof
    fix e
    assume "e \<in> set (add_defaults ds)"
    moreover have "good (JObj (add_defaults ds))"
      unfolding add_defaults_def by (rule good_set_all) (use ds in \<open>auto simp: good_obj\<close>)
    ultimately show "good (snd e)" by (simp add: good_obj)
  qed
  have "''sops'' \<noteq> draft_name d" if "d \<in> set ds" for d using names [OF that] is_metadata_simps(2) by metis
  then have meta: "\<not> has_key (add_defaults ds) ''sops''"
    by (auto simp: add_defaults_def has_key_set_all) (auto simp: has_key_iff keys_def)
  have "\<exists>rs. revised T good candidate (environment_files se) se se1 rs"
  proof (rule revised_fold [OF r(2)])
    fix f s s' rs
    assume f: "f \<in> set (environment_files se)" and ext: "extends T se s rs" and step: "add_step T candidate env (add_defaults ds) names expected f s = Inr s'"
    obtain p c where pc: "f = (p, c)" by (cases f)
    note same = extendsD [OF ext]
    show "\<exists>rs'. revised T good candidate [f] s s' rs'"
      unfolding pc
    proof (rule revised_one [OF step [unfolded pc add_step_def prod.case Let_def]])
      show "(p, c) \<in> set (environment_files s)" using f pc same by simp
      show "distinct (map fst (se_files s))" using fs same by simp
      show "good (JObj ((if environment_of s p = env then set_all (add_defaults ds) else id) (config_only current)))"
        if "good (JObj current)" for current
        using good_set_all [OF good_config_only [OF that] vals] good_config_only [OF that] by simp
      show "\<not> has_key ((if environment_of s p = env then set_all (add_defaults ds) else id) (config_only current)) ''sops''" for current
        using meta no_meta_config_only by (simp add: has_key_set_all)
    qed (auto intro: same_config_valid simp: validate_config_only split: if_splits)
  qed
  then show ?thesis using revised_plan_ok [OF _ r(1) r(3) agrees fs] by blast
qed

end

subsection \<open>Operations under the schema in force\<close>

lemma require_has_schema: "require_product se = Inr e \<Longrightarrow> has_schema (se_schemas se) (se_service se)"
  by (auto simp: require_product_def bind_err_Inr_iff split: option.splits if_splits)

text \<open>The product as the session found it.\<close>

definition from_database :: "tools \<Rightarrow> edit_session \<Rightarrow> bool" where
  "from_database T se = (from_tree (tl_yaml T) (tl_urls T) (se_files se) = Inr (se_schemas se) \<and> distinct (map fst (se_files se))
     \<and> schema_path (se_service se) \<in> set (se_reads se) \<and> se_writes se = [])"

lemma new_session_from: "new_session T service a fs = Inr se \<Longrightarrow> distinct (map fst fs) \<Longrightarrow> from_database T se \<and> se_service se = service \<and> se_files se = fs"
  by (auto simp: new_session_def bind_err_Inr_iff from_database_def)

lemma session_schema:
  assumes "from_database T se" "has_schema (se_schemas se) (se_service se)"
  shows "\<exists>src R. map_of (se_files se) (schema_path (se_service se)) = Some src \<and> from_files (tl_yaml T) (tl_urls T) [(se_service se, src)] = Inr R
    \<and> map_of (ss_services R) (se_service se) = map_of (ss_services (se_schemas se)) (se_service se)"
  using tree_schema [OF _ _ assms(2)] assms(1) by (auto simp: from_database_def)

text \<open>A plan that writes at most one environment file, under the schema it found.\<close>

definition wrote_under :: "tools \<Rightarrow> (jsval \<Rightarrow> bool) \<Rightarrow> edit_session \<Rightarrow> edit_session \<Rightarrow> bool" where
  "wrote_under T good se se' = (\<exists>rs. extends T se se' rs \<and> (\<forall>r \<in> set rs. \<exists>env c. rq_path r = env_path (se_service se) env
     \<and> rq_content r = Some c \<and> written T good (se_schemas se) (se_service se) env c))"

lemma wrote_under_plan_ok:
  assumes w: "wrote_under T good se se'" and db: "from_database T se" and has: "has_schema (se_schemas se) (se_service se)"
    and agrees: "agrees se' A"
  shows "\<exists>rs S. plan_ok T good A False se se' rs S"
proof -
  let ?s = "se_service se"
  from w obtain rs where ext: "extends T se se' rs" and rs: "\<forall>r \<in> set rs. \<exists>env c. rq_path r = env_path ?s env
      \<and> rq_content r = Some c \<and> written T good (se_schemas se) ?s env c"
    by (auto simp: wrote_under_def)
  from session_schema [OF db has] obtain src R where R: "map_of (se_files se) (schema_path ?s) = Some src"
      "from_files (tl_yaml T) (tl_urls T) [(?s, src)] = Inr R" "map_of (ss_services R) ?s = map_of (ss_services (se_schemas se)) ?s"
    by blast
  have A: "A (schema_path ?s) = Some src"
    using agrees db R(1) extendsD(2,5) [OF ext] by (auto simp: agrees_def from_database_def)
  have "schema_path ?s \<notin> rq_path ` set rs" using rs by fastforce
  then have a: "apply_writes rs A (schema_path ?s) = Some src"
    using A by (simp add: apply_writes_outside)
  have "env_ok T R ?s env c" if "valid_product T ?s A" "is_identifier env" "A (env_path ?s env) = Some c" for env c
    using that A R(2) by (auto simp: valid_product_def)
  moreover have "\<exists>c. rq_content r = Some c \<and> written T good R ?s env c" if "r \<in> set rs" "rq_path r = env_path ?s env" for r env
    using rs that written_cong [of T good "se_schemas se" ?s _ _ R] R(3) by fastforce
  ultimately have "plan_ok T good A False se se' rs R" using ext a R(2) by (auto simp: plan_ok_def Let_def)
  then show ?thesis by blast
qed

context store_tools
begin

lemma put_values_wrote:
  assumes run: "put_values T env changes expected se = Inr se'" and good: "\<forall>e \<in> set changes. good (snd e)"
  shows "wrote_under T good se se'"
proof -
  from run obtain current se1 where d: "document T env se = Inr (current, se1)"
      "\<not> list_ex (\<lambda>(k, v). is_metadata_key k \<or> v = JUndef) changes"
      "validate (tl_urls T) (se_schemas se) (se_service se) (set_all changes (config_only current)) = Inr ()"
      "se' = se1 \<or> (\<exists>c ks. encode T se1 env (bump current (set_all changes (config_only current))) (se_schemas se) = Inr c
        \<and> se' = put T (env_path (se_service se) env) (Some c) ks se1)"
    by (auto simp: put_values_def Let_def bind_err_Inr_iff checked_def split: if_splits)
  have s1: "se1 = mark_read (env_path (se_service se) env) se" using document_Inr(2) [OF d(1)] .
  have meta: "\<not> has_key (set_all changes (config_only current)) ''sops''"
  proof -
    have "\<not> has_key changes ''sops''" using d(2) is_metadata_simps(2) by (fastforce simp: has_key_iff keys_def list_ex_iff)
    then show ?thesis by (simp add: has_key_set_all no_meta_config_only)
  qed
  have g: "good (JObj (bump current (set_all changes (config_only current))))"
    by (rule good_bump [OF good_set_all [OF good_config_only [OF good_document [OF d(1)]] good]])
  from d(4) show ?thesis
  proof (elim disjE exE conjE)
    assume "se' = se1"
    then show ?thesis unfolding wrote_under_def by (intro exI [of _ "[]"]) (simp add: s1 extends_read)
  next
    fix c ks
    assume c: "encode T se1 env (bump current (set_all changes (config_only current))) (se_schemas se) = Inr c"
      and se': "se' = put T (env_path (se_service se) env) (Some c) ks se1"
    have "written T good (se_schemas se) (se_service se) env c"
      unfolding written_def using encode_Inr [OF c] s1 g meta bump_keys validate_bump [OF d(3)] by (metis mark_read_simps(1))
    moreover have "extends T se se' [write_of T se1 (env_path (se_service se) env) (Some c) ks]"
      unfolding se' s1 using extends_trans [OF extends_read extends_put] by fastforce
    ultimately show ?thesis by (force simp: wrote_under_def)
  qed
qed

end

lemma wrote_under_read: "wrote_under T good (mark_read p se) se' \<Longrightarrow> wrote_under T good se se'"
proof -
  assume "wrote_under T good (mark_read p se) se'"
  then obtain rs where rs: "extends T (mark_read p se) se' rs" "\<forall>r \<in> set rs. \<exists>env c. rq_path r = env_path (se_service se) env
     \<and> rq_content r = Some c \<and> written T good (se_schemas (mark_read p se)) (se_service se) env c"
    by (auto simp: wrote_under_def)
  then show ?thesis
    using extends_trans [OF extends_read rs(1)] by (auto simp: wrote_under_def mark_read_def)
qed

lemma promoted_Inr: "promoted from source ks = Inr changes \<Longrightarrow> changes = map (\<lambda>k. (k, the (map_of source k))) ks \<and> (\<forall>k \<in> set ks. map_of source k \<noteq> None)"
proof -
  have "promoted from source ks = Inr changes \<Longrightarrow> changes = map (\<lambda>k. (k, the (map_of source k))) ks \<and> (\<forall>k \<in> set ks. map_of source k \<noteq> None)"
    for ks changes
    by (induction ks arbitrary: changes) (auto simp: promoted_def split: sum.splits option.splits)
  then show "promoted from source ks = Inr changes \<Longrightarrow> changes = map (\<lambda>k. (k, the (map_of source k))) ks \<and> (\<forall>k \<in> set ks. map_of source k \<noteq> None)" .
qed

lemma retiring_parses:
  assumes law: "tl_yaml T (tl_dump T (JObj d')) = Inr (JObj d')" and src: "tl_yaml T src = Inr (JObj d)"
    and R: "from_files (tl_yaml T) (tl_urls T) [(service, src)] = Inr R"
    and d': "\<And>k. k \<noteq> ''retiring'' \<Longrightarrow> map_of d' k = map_of d k" "map_of d' ''retiring'' \<in> {None, Some (JBool True)}"
  shows "\<exists>S. from_files (tl_yaml T) (tl_urls T) [(service, tl_dump T (JObj d'))] = Inr S \<and> map_of (ss_services S) service = map_of (ss_services R) service"
proof -
  obtain ks n r where p: "parse_schema (tl_yaml T) (tl_urls T) service src = Inr ks" "parse_schema_version (tl_yaml T) service src = Inr n"
      "parse_retiring (tl_yaml T) service src = Inr r" "map_of (ss_services R) service = Some ks"
    using R by (auto simp: from_files_def split: sum.splits dest!: add_file_Inr)
  have same: "prop_of (JObj d') ''keys'' = prop_of (JObj d) ''keys''" "prop_of (JObj d') ''version'' = prop_of (JObj d) ''version''"
    using d'(1) by (simp_all add: prop_of_def get_prop_def obj_of_def)
  have rec: "is_record (JObj x)" for x by (simp add: is_record_def)
  have a: "parse_schema (tl_yaml T) (tl_urls T) service (tl_dump T (JObj d')) = Inr ks"
    using p(1) by (simp add: parse_schema_def law src same rec)
  have b: "parse_schema_version (tl_yaml T) service (tl_dump T (JObj d')) = Inr n"
    using p(2) by (simp add: parse_schema_version_def yaml_or_throw_def law src same)
  have "prop_of (JObj d') ''retiring'' \<in> {JUndef, JBool True}"
    using d'(2) by (auto simp: prop_of_def get_prop_def obj_of_def)
  then have c: "\<exists>r. parse_retiring (tl_yaml T) service (tl_dump T (JObj d')) = Inr r"
    by (auto simp: parse_retiring_def yaml_or_throw_def law)
  then show ?thesis using from_one_Inr a b p(4) by metis
qed

context store_tools
begin

lemma write_plan: "write_values T env changes expected se = Inr se' \<Longrightarrow> \<forall>e \<in> set changes. good (snd e) \<Longrightarrow> wrote_under T good se se'"
  by (auto simp: write_values_def bind_err_Inr_iff intro: put_values_wrote)

lemma promote_plan:
  assumes "promote T from to ks se = Inr se'"
  shows "wrote_under T good se se'"
proof -
  from assms obtain source se1 selected changes where d: "document T from se = Inr (source, se1)" "promoted from source selected = Inr changes"
      "put_values T to changes None se1 = Inr se'"
    by (auto simp: promote_def bind_err_Inr_iff)
  have "\<forall>e \<in> set changes. good (snd e)"
    using promoted_Inr [OF d(2)] good_parts [OF good_document [OF d(1)]] by fastforce
  from put_values_wrote [OF d(3) this] show ?thesis
    using document_Inr(2) [OF d(1)] wrote_under_read by simp
qed

lemma retire_plan:
  assumes run: "set_retiring T retiring force se = Inr se'" and db: "from_database T se"
    and agrees: "agrees se' A"
  shows "\<exists>rs S. plan_ok T good A False se se' rs S"
proof -
  let ?s = "se_service se"
  from run obtain e doc doc' where r: "require_product se = Inr e" "product_schema T se = Inr doc"
      "(if retiring then with_prop doc ''retiring'' (JBool True) else without_prop doc ''retiring'') = Inr doc'"
      "se' = put T (schema_path ?s) (Some (tl_dump T doc')) [''retiring''] se"
    by (auto simp: set_retiring_def bind_err_Inr_iff)
  from session_schema [OF db require_has_schema [OF r(1)]] obtain src R where R: "map_of (se_files se) (schema_path ?s) = Some src"
      "from_files (tl_yaml T) (tl_urls T) [(?s, src)] = Inr R" by blast
  have doc: "tl_yaml T src = Inr doc" using r(2) R(1) by (simp add: product_schema_def)
  obtain d where d: "doc = JObj d" using r(3) by (cases doc) (auto simp: with_prop_def without_prop_def split: if_splits)
  obtain d' where d': "doc' = JObj d'" "d' = (if retiring then AList.update ''retiring'' (JBool True) d else AList.delete ''retiring'' d)"
    using r(3) d by (auto simp: with_prop_def without_prop_def split: if_splits)
  have g: "good (JObj d)" using parsed_good [OF doc] d by simp
  have g': "good (JObj d')"
    using good_update [OF g good_plain(2)] good_filter [OF g] by (simp add: d'(2) AList.delete_eq)
  have A: "A (schema_path ?s) = Some src"
    using agrees db R(1) r(4) by (auto simp: agrees_def from_database_def put_def)
  obtain S where S: "from_files (tl_yaml T) (tl_urls T) [(?s, tl_dump T doc')] = Inr S" "map_of (ss_services S) ?s = map_of (ss_services R) ?s"
    using retiring_parses [OF read_dump [OF g'] doc [unfolded d] R(2)] d' by (auto split: if_splits)
  have "env_ok T S ?s env c" if "valid_product T ?s A" "is_identifier env" "A (env_path ?s env) = Some c" for env c
    using that A R(2) S(2) env_ok_cong [of T R ?s env c S] by (auto simp: valid_product_def)
  then have "plan_ok T good A False se se' [write_of T se (schema_path ?s) (Some (tl_dump T doc')) [''retiring'']] S"
    using extends_put S(1) r(4) by (simp add: plan_ok_def Let_def apply_writes_def)
  then show ?thesis by blast
qed

end

lemma put_environments:
  assumes "fold_err (put_environment T S defaults) envs s = Inr s'"
  shows "\<exists>rs. extends T s s' rs \<and> se_registry s' = se_registry s \<and> map rq_path rs = map (env_path (se_service s)) envs
    \<and> (\<forall>r \<in> set rs. \<exists>env \<in> set envs. \<exists>c. rq_path r = env_path (se_service s) env \<and> rq_content r = Some c
        \<and> encoded T S (se_service s) env (AList.update version_key (JNum (NInt 1)) defaults) c)"
  using assms
proof (induction envs arbitrary: s)
  case Nil
  then show ?case using extends_refl [of T s] by (intro exI [of _ "[]"]) simp
next
  case (Cons env envs)
  let ?d = "AList.update version_key (JNum (NInt 1)) defaults" and ?p = "env_path (se_service s) env"
  from Cons.prems obtain c where c: "encode T s env ?d S = Inr c"
      "fold_err (put_environment T S defaults) envs (put T ?p (Some c) (keys defaults) s) = Inr s'"
  proof -
    from Cons.prems obtain s1 where s1: "put_environment T S defaults env s = Inr s1" "fold_err (put_environment T S defaults) envs s1 = Inr s'"
      by (auto split: sum.splits)
    from s1(1) obtain c where "encode T s env ?d S = Inr c" "s1 = put T ?p (Some c) (keys defaults) s"
      by (auto simp: put_environment_def bind_err_Inr_iff)
    then show thesis using that s1(2) by blast
  qed
  let ?s1 = "put T ?p (Some c) (keys defaults) s" and ?w = "write_of T s ?p (Some c) (keys defaults)"
  have reg: "se_registry ?s1 = se_registry s" by (simp add: put_def)
  from Cons.IH [OF c(2)] obtain rs where rs: "extends T ?s1 s' rs" "se_registry s' = se_registry ?s1"
      "map rq_path rs = map (env_path (se_service s)) envs"
      "\<forall>r \<in> set rs. \<exists>env \<in> set envs. \<exists>c. rq_path r = env_path (se_service s) env \<and> rq_content r = Some c
        \<and> encoded T S (se_service s) env ?d c"
    by auto
  show ?case
    using extends_trans [OF extends_put rs(1)] rs(2-4) encode_Inr [OF c(1)] reg
    by (intro exI [of _ "?w # rs"]) auto
qed

lemma put_registry_Inr:
  assumes "put_registry T es se = Inr se'"
  shows "\<exists>R. with_prop (se_registry se) ''services'' (JArr es) = Inr R
    \<and> extends T se se' [write_of T se ''services.yaml'' (Some (tl_dump T R)) [se_service se]]"
  using assms extends_put [of T "se\<lparr>se_registry := R\<rparr>" for R]
  by (auto simp: put_registry_def bind_err_Inr_iff extends_def put_def write_of_def session_etag_def)

lemma no_env_files:
  assumes "environment_files se = []" "agrees se A" "is_identifier env"
  shows "A (env_path (se_service se) env) = None"
proof (rule ccontr)
  assume "A (env_path (se_service se) env) \<noteq> None"
  then obtain c where "map_of (se_files se) (env_path (se_service se) env) = Some c" using assms(2,3) by (auto simp: agrees_def)
  from env_path_file [OF this] assms(1) show False by simp
qed

context store_tools
begin

lemma create_plan:
  assumes run: "create_product T r se = Inr se'" and agrees: "agrees se' A" and good: "good (JObj (cr_defaults r))"
  shows "\<exists>rs S. plan_ok T good A True se se' rs S"
proof -
  let ?s = "se_service se"
  from run obtain es S se1 where d: "from_files (tl_yaml T) (tl_urls T) [(?s, cr_schema r)] = Inr S" "environment_files se = []"
      "validate (tl_urls T) S ?s (cr_defaults r) = Inr ()"
      "\<not> list_ex (\<lambda>k. is_metadata_key k \<or> is_secret S ?s k) (keys (cr_defaults r))"
      "fold_err (put_environment T S (cr_defaults r)) (cr_environments r) (put T (schema_path ?s) (Some (cr_schema r)) [?s] se) = Inr se1"
      "put_registry T (es @ [declared_entry ?s (cr_uid r) (cr_environments r)]) se1 = Inr se'"
    by (auto simp: create_product_def Let_def bind_err_Inr_iff)
  let ?w = "write_of T se (schema_path ?s) (Some (cr_schema r)) [?s]" and ?d = "AList.update version_key (JNum (NInt 1)) (cr_defaults r)"
  from put_environments [OF d(5)] obtain rs where rs: "extends T (put T (schema_path ?s) (Some (cr_schema r)) [?s] se) se1 rs"
      "\<forall>q \<in> set rs. \<exists>env c. rq_path q = env_path ?s env \<and> rq_content q = Some c \<and> encoded T S ?s env ?d c"
    unfolding put_simps by blast
  obtain q where q: "extends T se1 se' [q]" "rq_path q = ''services.yaml''"
    using put_registry_Inr [OF d(6)] by auto
  have ext: "extends T se se' (?w # rs @ [q])"
    using extends_trans [OF extends_trans [OF extends_put rs(1)] q(1)] by simp
  have "good (JObj ?d)" by (rule good_update [OF good good_plain(1)])
  moreover have "\<not> has_key ?d ''sops''"
    using d(4) is_metadata_simps(2) by (fastforce simp: has_key_iff keys_def list_ex_iff version_key_def)
  moreover have "validate (tl_urls T) S ?s ?d = Inr ()"
    by (rule validate_set [OF d(3)]) (use set_update_subset [of version_key "JNum (NInt 1)" "cr_defaults r"] in auto)
  ultimately have "written T good S ?s env c" if "encoded T S ?s env ?d c" for env c
    using that by (auto simp: written_def)
  then have conf: "\<exists>c. rq_content x = Some c \<and> written T good S ?s env c" if "x \<in> set (?w # rs @ [q])" "rq_path x = env_path ?s env" for x env
    using that rs(2) q(2) by fastforce
  have same: "se_service se' = ?s" "environment_files se' = []" using extendsD(1,7) [OF ext] d(2) by simp_all
  then have none: "A (env_path ?s env) = None" if "is_identifier env" for env using that no_env_files [of se' A env] agrees by simp
  have "apply_writes (?w # rs @ [q]) A (schema_path ?s) = Some (cr_schema r)" by (simp add: apply_writes_def)
  then have "plan_ok T good A True se se' (?w # rs @ [q]) S"
    using ext d(1) conf none unfolding plan_ok_def Let_def by auto
  then show ?thesis by blast
qed

lemma plan_outcome:
  assumes run: "plan T op se = Inr se'" and db: "from_database T se" and op: "op_good good op" and agrees: "agrees se' A"
    and archive: "\<And>now expected force. op \<noteq> ArchiveProduct now expected force"
  shows "\<exists>rs S chk. plan_ok T good A chk se se' rs S
    \<and> (chk \<or> (\<exists>env changes e. op = WriteValues env changes e) \<or> (\<exists>b f. op = SetRetiring b f) \<or> (\<exists>from to ks. op = Promote from to ks))"
proof -
  have fs: "distinct (map fst (se_files se))" using db by (simp add: from_database_def)
  show ?thesis
  proof (cases op)
    case (CreateProduct r)
    then show ?thesis using create_plan [of r se se' A] run op agrees by (auto simp: plan_def op_good_def)
  next
    case (WriteValues env changes e)
    then have w: "write_values T env changes e se = Inr se'" "\<forall>e \<in> set changes. good (snd e)" using run op by (auto simp: plan_def op_good_def)
    then obtain x where "require_product se = Inr x" by (auto simp: write_values_def bind_err_Inr_iff)
    from wrote_under_plan_ok [OF write_plan [OF w] db require_has_schema [OF this] agrees] show ?thesis using WriteValues by blast
  next
    case (SetRetiring b f)
    then show ?thesis using retire_plan [of b f se se' A] run db agrees by (auto simp: plan_def)
  next
    case (Promote source target ks)
    then have w: "promote T source target ks se = Inr se'" using run by (simp add: plan_def)
    then obtain x where "require_product se = Inr x" by (auto simp: promote_def bind_err_Inr_iff)
    from wrote_under_plan_ok [OF promote_plan [OF w] db require_has_schema [OF this] agrees] show ?thesis using Promote by blast
  next
    case (AddKeys env ds e)
    then show ?thesis using add_plan [of env ds e se se' A] run op fs agrees by (auto simp: plan_def op_good_def)
  next
    case (DeleteKeys ks e)
    then show ?thesis using delete_plan [of ks e se se' A] run fs agrees by (auto simp: plan_def)
  qed (use archive in auto)
qed

end

end
