(* ===== verification/Ledger.thy ===== *)
theory Ledger
  imports Fsys Journal Documents
begin

section \<open>The write journal (src/store/write-journal.ts, unsynced.ts, pending-sync.ts)\<close>

text \<open>
  Who wrote what, kept on disk until a commit carries it: one JSON line per written file in
  \<open>pending.jsonl\<close>, moved to \<open>sending.jsonl\<close> while a back-up is under way. The lines are those of
  \<open>node:fs\<close> appends (a line appears as a whole). A line that is JSON of another shape, which this
  program never writes, is an error here where the source would cast it.
\<close>

subsection \<open>Entries and lines\<close>

record ledger_entry =
  le_actor :: string
  le_path :: path
  le_keys :: "string list"
  le_revision :: string
  le_timestamp :: string

definition newline :: char where
  "newline = CHR 0x0A"

definition entry_json :: "ledger_entry \<Rightarrow> jsval" where
  "entry_json e = JObj [(''actor'', JStr (le_actor e)), (''path'', JStr (le_path e)),
     (''keys'', JArr (map JStr (le_keys e))), (''revision'', JStr (le_revision e)), (''timestamp'', JStr (le_timestamp e))]"

definition entry_line :: "ledger_entry \<Rightarrow> string" where
  "entry_line e = json (entry_json e) @ [newline]"

definition strs_of :: "jsval \<Rightarrow> string list option" where
  "strs_of v = (case v of JArr vs \<Rightarrow> all_some (map str_of vs) | _ \<Rightarrow> None)"

definition entry_of :: "jsval \<Rightarrow> ledger_entry option" where
  "entry_of v = (case (str_of (prop_of v ''actor''), str_of (prop_of v ''path''), strs_of (prop_of v ''keys''),
       str_of (prop_of v ''revision''), str_of (prop_of v ''timestamp'')) of
     (Some a, Some p, Some ks, Some r, Some t) \<Rightarrow> Some \<lparr>le_actor = a, le_path = p, le_keys = ks, le_revision = r, le_timestamp = t\<rparr>
   | _ \<Rightarrow> None)"

definition parse_line :: "string \<Rightarrow> string + ledger_entry" where
  "parse_line l = (case json_parse l of None \<Rightarrow> Inl ''SyntaxError'' | Some v \<Rightarrow>
     (case entry_of v of None \<Rightarrow> Inl ''TypeError'' | Some e \<Rightarrow> Inr e))"

definition parse_jsonl :: "string \<Rightarrow> string + ledger_entry list" where
  "parse_jsonl s = map_err parse_line (filter (\<lambda>l. l \<noteq> []) (split_on newline s))"

definition lines_of :: "ledger_entry list \<Rightarrow> string" where
  "lines_of es = concat (map entry_line es)"

subsection \<open>WriteJournal\<close>

definition pending_file :: "path \<Rightarrow> path" where
  "pending_file root = root @ ''/pending.jsonl''"

definition sending_file :: "path \<Rightarrow> path" where
  "sending_file root = root @ ''/sending.jsonl''"

definition journal_append :: "path \<Rightarrow> ledger_entry \<Rightarrow> unit fio" where
  "journal_append root e = io_then make_directory (append_file (pending_file root) (entry_line e))"

definition journal_rotate :: "path \<Rightarrow> path fio" where
  "journal_rotate root = io_then make_directory (io_then (remove_file (sending_file root))
     (io_then (io_catch (rename_file (pending_file root) (sending_file root))
         (\<lambda>e. if e \<noteq> enoent then io_throw e else write_file (sending_file root) ''''))
       (io_return (sending_file root))))"

definition journal_drain :: "path \<Rightarrow> ledger_entry list fio" where
  "journal_drain handle = io_bind (missing_as '''' (read_file handle)) (\<lambda>s. io_lift (parse_jsonl s))"

definition journal_peek :: "path \<Rightarrow> ledger_entry list fio" where
  "journal_peek root = io_bind (missing_as '''' (read_file (sending_file root))) (\<lambda>sending.
     io_bind (missing_as '''' (read_file (pending_file root))) (\<lambda>pending. io_lift (parse_jsonl (sending @ pending))))"

definition journal_discard :: "path \<Rightarrow> unit fio" where
  "journal_discard handle = remove_file handle"

definition journal_recover :: "path \<Rightarrow> unit fio" where
  "journal_recover root = io_bind (missing_as '''' (read_file (sending_file root))) (\<lambda>orphaned.
     if orphaned = [] then io_return () else
       io_bind (missing_as '''' (read_file (pending_file root))) (\<lambda>pending.
         io_then (write_file (pending_file root) (orphaned @ pending)) (remove_file (sending_file root))))"

subsection \<open>What is not backed up yet (pending-sync.ts, unsynced.ts)\<close>

record 'c pending_report =
  sr_entries :: "ledger_entry list"
  sr_unpushed :: "'c list"
  sr_ready :: bool

definition sync_report :: "path \<Rightarrow> 'c list fio \<Rightarrow> bool \<Rightarrow> 'c pending_report fio" where
  "sync_report root unpushed_commits has_remote = io_bind (journal_peek root) (\<lambda>es.
     io_bind (if has_remote then unpushed_commits else io_return []) (\<lambda>cs.
       io_return \<lparr>sr_entries = es, sr_unpushed = cs, sr_ready = (has_remote \<and> (es \<noteq> [] \<or> cs \<noteq> []))\<rparr>))"

text \<open>The product of a path, \<open>/^config\/([^/]+)\//\<close>.\<close>

definition product_of :: "path \<Rightarrow> string option" where
  "product_of p = (if starts_with ''config/'' p
     then let rest = drop (length ''config/'') p; s = takeWhile (\<lambda>c. c \<noteq> CHR ''/'') rest in
       if s \<noteq> [] \<and> length s < length rest then Some s else None
     else None)"

definition count_entry :: "ledger_entry \<Rightarrow> (string \<times> string list) list \<Rightarrow> (string \<times> string list) list" where
  "count_entry e m = (case product_of (le_path e) of None \<Rightarrow> m
   | Some s \<Rightarrow> AList.update s (uniq ((case map_of m s of None \<Rightarrow> [] | Some ks \<Rightarrow> ks) @ filter (\<lambda>k. \<not> is_metadata_key k) (le_keys e))) m)"

definition unsynced_keys :: "ledger_entry list \<Rightarrow> (string \<times> string list) list" where
  "unsynced_keys es = fold count_entry es []"

definition unsynced_key_counts :: "ledger_entry list \<Rightarrow> (string \<times> nat) list" where
  "unsynced_key_counts es = map (\<lambda>(s, ks). (s, length ks)) (unsynced_keys es)"

definition unsynced_total :: "(string \<times> nat) list \<Rightarrow> nat" where
  "unsynced_total m = foldl (+) 0 (map snd m)"

subsection \<open>Lines read back\<close>

lemma json_string_newline: "newline \<notin> set (json_string s)"
proof -
  have hex: "hex_digit d \<noteq> newline" if "d < 16" for d
  proof -
    have "\<forall>d \<in> set [0..<16]. hex_digit d \<noteq> newline" by code_simp
    then show ?thesis using that by simp
  qed
  have "hex_digit (of_char c div 16) \<noteq> newline" "hex_digit (of_char c mod 16) \<noteq> newline" for c
    using of_char_lt_256 [of c] by (auto intro!: hex simp: less_mult_imp_div_less)
  then have "newline \<notin> set (json_escape c)" for c
    by (auto simp: json_escape_def newline_def dquote_def backslash_def dest: not_sym)
  then show ?thesis by (auto simp: json_string_def newline_def dquote_def)
qed

lemma join_newline: "newline \<notin> set sep \<Longrightarrow> \<forall>s \<in> set ss. newline \<notin> set s \<Longrightarrow> newline \<notin> set (join sep ss)"
  by (induction sep ss rule: join.induct) auto

lemma entry_json_newline: "newline \<notin> set (json (entry_json e))"
proof -
  have "newline \<notin> set (join '','' (map json (map JStr ks)))" for ks
    by (rule join_newline) (auto simp: json_string_newline, auto simp: newline_def)
  then show ?thesis using json_string_newline by (simp add: entry_json_def newline_def)
qed

lemma json_ok_strs: "list_all json_ok (map JStr ks)"
  by (simp add: list_all_iff)

lemma entry_of_json [simp]: "entry_of (entry_json e) = Some e"
proof -
  have "map str_of (map JStr ks) = map Some ks" for ks by (simp add: str_of_def)
  then show ?thesis
    by (simp add: entry_of_def entry_json_def prop_of_def get_prop_def obj_of_def str_of_def strs_of_def del: map_map)
qed

lemma parse_entry_line: "parse_line (json (entry_json e)) = Inr e"
proof -
  have "json_ok (entry_json e)" by (simp add: entry_json_def json_ok_strs)
  then show ?thesis by (simp add: parse_line_def)
qed

lemma split_lines: "split_on newline (lines_of es @ s) = map (\<lambda>e. json (entry_json e)) es @ split_on newline s"
  by (induction es) (simp_all add: lines_of_def entry_line_def split_on_append entry_json_newline)

lemma entry_json_Nil: "json (entry_json e) \<noteq> []"
  by (simp add: entry_json_def)

lemma parse_lines [simp]: "parse_jsonl (lines_of es) = Inr es"
proof -
  have "filter (\<lambda>l. l \<noteq> []) (split_on newline (lines_of es)) = map (\<lambda>e. json (entry_json e)) es"
    using split_lines [of es "''''"] by (simp add: filter_id_conv entry_json_Nil comp_def)
  moreover have "map_err parse_line (map (\<lambda>e. json (entry_json e)) es) = Inr es"
    by (induction es) (simp_all add: parse_entry_line)
  ultimately show ?thesis by (simp add: parse_jsonl_def)
qed

lemma lines_append: "lines_of (es @ fs) = lines_of es @ lines_of fs"
  by (simp add: lines_of_def)

lemma lines_snoc: "lines_of es @ entry_line e = lines_of (es @ [e])"
  by (simp add: lines_of_def)

lemma lines_Nil [simp]: "lines_of [] = []" "lines_of es = [] \<longleftrightarrow> es = []"
  by (auto simp: lines_of_def entry_line_def)

subsection \<open>The journal as two lists\<close>

text \<open>\<open>ledger root ss es\<close>: the entries \<open>ss\<close> are on their way, the entries \<open>es\<close> wait. A missing file has none.\<close>

definition text_is :: "string option \<Rightarrow> ledger_entry list \<Rightarrow> bool" where
  "text_is t es = ((case t of None \<Rightarrow> [] | Some s \<Rightarrow> s) = lines_of es)"

definition ledger :: "path \<Rightarrow> ledger_entry list \<Rightarrow> ledger_entry list \<Rightarrow> (path \<Rightarrow> string option) \<Rightarrow> bool" where
  "ledger root ss es F = (text_is (F (sending_file root)) ss \<and> text_is (F (pending_file root)) es)"

lemma text_is_simps [simp]: "text_is None es \<longleftrightarrow> es = []" "text_is (Some t) es \<longleftrightarrow> t = lines_of es"
  by (simp_all add: text_is_def eq_commute [of "[]"])

lemma journal_files [simp]: "sending_file root \<noteq> pending_file root" "pending_file root \<noteq> sending_file root"
  by (simp_all add: sending_file_def pending_file_def)

lemma ledger_parse: "ledger root ss es F \<Longrightarrow> parse_jsonl ((case F (sending_file root) of None \<Rightarrow> [] | Some t \<Rightarrow> t)
    @ (case F (pending_file root) of None \<Rightarrow> [] | Some t \<Rightarrow> t)) = Inr (ss @ es)"
  by (simp add: ledger_def text_is_def flip: lines_append)

lemma directory_triple: "triple (on_files P) make_directory (\<lambda>_. on_files P) (on_files P)"
  unfolding make_directory_def by (rule idle_step_triple)

lemma append_triple:
  "triple (on_files (ledger root ss es)) (journal_append root e) (\<lambda>_. on_files (ledger root ss (es @ [e]))) (on_files (ledger root ss es))"
  unfolding journal_append_def
  by (rule triple_then [OF directory_triple], rule append_file_triple)
    (auto simp: ledger_def text_is_def lines_snoc [symmetric])

text \<open>Rotating loses what an earlier back-up left in \<open>sending.jsonl\<close>, and nothing else.\<close>

lemma rotate_triple:
  "triple (on_files (ledger root [] es)) (journal_rotate root) (\<lambda>h. on_files (\<lambda>F. h = sending_file root \<and> ledger root es [] F))
     (on_files (\<lambda>F. ledger root [] es F \<or> ledger root es [] F))"
proof -
  let ?s = "sending_file root" and ?p = "pending_file root"
  let ?E = "\<lambda>F. ledger root [] es F \<or> ledger root es [] F"
  let ?A = "\<lambda>F. ledger root [] es F \<and> F ?s = None"
  have rm: "triple (on_files (ledger root [] es)) (remove_file ?s) (\<lambda>_. on_files ?A) (on_files ?E)"
    by (rule remove_file_triple) (auto simp: ledger_def)
  have mv: "triple (on_files ?A) (rename_file ?p ?s) (\<lambda>_. on_files (ledger root es [])) (on_files ?A)"
    by (rule rename_file_triple) (auto simp: ledger_def)
  have missing: "triple (on_files (\<lambda>F. ?A F \<and> F ?p = None)) (write_file ?s '''') (\<lambda>_. on_files (ledger root es [])) (on_files ?E)"
    by (rule write_file_triple) (auto simp: ledger_def)
  have enoent: "rename_file ?p ?s s = (Inl enoent, s') \<Longrightarrow> content s ?p = None \<and> s' = s" for s s'
    by (auto simp: rename_file_def io_bind_def io_read_def io_throw_def fs_step_def Let_def enoent_def split: option.splits if_splits)
  have c: "triple (on_files ?A) (io_catch (rename_file ?p ?s) (\<lambda>e. if e \<noteq> enoent then io_throw e else write_file ?s ''''))
      (\<lambda>_. on_files (ledger root es [])) (on_files ?E)"
    unfolding triple_def
  proof (intro allI impI)
    fix s assume s: "on_files ?A s"
    obtain r s' where m: "rename_file ?p ?s s = (r, s')" by fastforce
    show "case io_catch (rename_file ?p ?s) (\<lambda>e. if e \<noteq> enoent then io_throw e else write_file ?s '''') s of
        (Inl e, s') \<Rightarrow> on_files ?E s' | (Inr x, s') \<Rightarrow> on_files (ledger root es []) s'"
    proof (cases "r = Inl enoent")
      case True
      obtain r2 s2 where w: "write_file ?s '''' s = (r2, s2)" by fastforce
      have "s' = s" "on_files (\<lambda>F. ?A F \<and> F ?p = None) s" using enoent m True s by (auto simp: on_files_def)
      then show ?thesis using tripleD [OF missing _ w] by (cases r2) (auto simp: io_catch_def m True w)
    next
      case False
      then show ?thesis using tripleD [OF mv s m] by (cases r) (auto simp: io_catch_def m io_throw_def on_files_def)
    qed
  qed
  show ?thesis unfolding journal_rotate_def
    by (rule triple_then [OF triple_weaken_E [OF directory_triple]], simp add: on_files_def)
      (rule triple_then [OF rm triple_then [OF c]], rule triple_return, simp add: on_files_def)
qed

lemma drain_triple:
  "triple (on_files (ledger root ss es)) (journal_drain (sending_file root)) (\<lambda>x. on_files (\<lambda>F. x = ss \<and> ledger root ss es F))
     (on_files (ledger root ss es))"
  unfolding journal_drain_def
proof (rule triple_bind)
  show "triple (on_files (ledger root ss es)) (missing_as '''' (read_file (sending_file root)))
      (\<lambda>x. on_files (\<lambda>F. x = lines_of ss \<and> ledger root ss es F)) (on_files (ledger root ss es))"
    by (rule missing_read_triple) (auto simp: ledger_def text_is_def)
  show "triple (on_files (\<lambda>F. x = lines_of ss \<and> ledger root ss es F)) (io_lift (parse_jsonl x))
      (\<lambda>x. on_files (\<lambda>F. x = ss \<and> ledger root ss es F)) (on_files (ledger root ss es))" for x
    by (rule triple_lift) (auto simp: on_files_def)
qed

lemma peek_triple:
  "triple (on_files (ledger root ss es)) (journal_peek root) (\<lambda>x. on_files (\<lambda>F. x = ss @ es \<and> ledger root ss es F))
     (on_files (ledger root ss es))"
  unfolding journal_peek_def
proof (rule triple_bind)
  let ?L = "ledger root ss es"
  show "triple (on_files ?L) (missing_as '''' (read_file (sending_file root))) (\<lambda>x. on_files (\<lambda>F. x = lines_of ss \<and> ?L F)) (on_files ?L)"
    by (rule missing_read_triple) (auto simp: ledger_def text_is_def)
  show "triple (on_files (\<lambda>F. x = lines_of ss \<and> ?L F)) (io_bind (missing_as '''' (read_file (pending_file root))) (\<lambda>p. io_lift (parse_jsonl (x @ p))))
      (\<lambda>x. on_files (\<lambda>F. x = ss @ es \<and> ?L F)) (on_files ?L)" for x
  proof (rule triple_bind)
    show "triple (on_files (\<lambda>F. x = lines_of ss \<and> ?L F)) (missing_as '''' (read_file (pending_file root)))
        (\<lambda>y. on_files (\<lambda>F. x @ y = lines_of (ss @ es) \<and> ?L F)) (on_files ?L)"
      by (rule missing_read_triple) (auto simp: ledger_def text_is_def lines_append)
    show "triple (on_files (\<lambda>F. x @ y = lines_of (ss @ es) \<and> ?L F)) (io_lift (parse_jsonl (x @ y)))
        (\<lambda>x. on_files (\<lambda>F. x = ss @ es \<and> ?L F)) (on_files ?L)" for y
      by (rule triple_lift) (auto simp: on_files_def)
  qed
qed

lemma discard_triple:
  "triple (on_files (ledger root ss es)) (journal_discard (sending_file root)) (\<lambda>_. on_files (ledger root [] es)) (on_files (ledger root ss es))"
  unfolding journal_discard_def by (rule remove_file_triple) (auto simp: ledger_def)

text \<open>Recovery is not atomic: it truncates the waiting entries before it writes all of them back.\<close>

lemma journal_recover_triple:
  "triple (on_files (ledger root ss es)) (journal_recover root) (\<lambda>_. on_files (ledger root [] (ss @ es)))
     (on_files (\<lambda>F. \<exists>es'. es' \<in> {es, [], ss @ es} \<and> ledger root ss es' F))"
  unfolding journal_recover_def
proof (rule triple_bind)
  let ?L = "ledger root ss es" and ?E = "\<lambda>F. \<exists>es'. es' \<in> {es, [], ss @ es} \<and> ledger root ss es' F"
  show "triple (on_files ?L) (missing_as '''' (read_file (sending_file root))) (\<lambda>x. on_files (\<lambda>F. x = lines_of ss \<and> ?L F)) (on_files ?E)"
    by (rule missing_read_triple) (auto simp: ledger_def text_is_def)
  have some: "triple (on_files (\<lambda>F. x = lines_of ss \<and> ?L F)) (io_bind (missing_as '''' (read_file (pending_file root)))
        (\<lambda>p. io_then (write_file (pending_file root) (x @ p)) (remove_file (sending_file root)))) (\<lambda>_. on_files (ledger root [] (ss @ es))) (on_files ?E)" for x
  proof (rule triple_bind)
    show "triple (on_files (\<lambda>F. x = lines_of ss \<and> ?L F)) (missing_as '''' (read_file (pending_file root)))
        (\<lambda>y. on_files (\<lambda>F. x @ y = lines_of (ss @ es) \<and> ?L F)) (on_files ?E)"
      by (rule missing_read_triple) (auto simp: ledger_def text_is_def lines_append)
    fix y
    have w: "triple (on_files (\<lambda>F. x @ y = lines_of (ss @ es) \<and> ?L F)) (write_file (pending_file root) (x @ y))
        (\<lambda>_. on_files (ledger root ss (ss @ es))) (on_files ?E)"
      by (rule write_file_triple) (auto simp: ledger_def)
    have r: "triple (on_files (ledger root ss (ss @ es))) (remove_file (sending_file root)) (\<lambda>_. on_files (ledger root [] (ss @ es))) (on_files ?E)"
      by (rule remove_file_triple) (auto simp: ledger_def)
    show "triple (on_files (\<lambda>F. x @ y = lines_of (ss @ es) \<and> ?L F)) (io_then (write_file (pending_file root) (x @ y)) (remove_file (sending_file root)))
        (\<lambda>_. on_files (ledger root [] (ss @ es))) (on_files ?E)" by (rule triple_then [OF w r])
  qed
  show "triple (on_files (\<lambda>F. x = lines_of ss \<and> ?L F)) (if x = [] then io_return () else io_bind (missing_as '''' (read_file (pending_file root)))
        (\<lambda>p. io_then (write_file (pending_file root) (x @ p)) (remove_file (sending_file root)))) (\<lambda>_. on_files (ledger root [] (ss @ es))) (on_files ?E)" for x
    by (rule triple_if [OF triple_return some]) (auto simp: on_files_def eq_commute [of "[]"])
qed

end
