(* ===== verification/Backup.thy ===== *)
theory Backup
  imports Ledger EngineProps
begin

section \<open>The back-up to Git (src/store/sync-engine.ts, sync-status.ts, auto-sync-store.ts)\<close>

text \<open>
  A back-up moves the journal aside, mirrors a snapshot of the database into the checkout, commits
  what changed with a message composed of the journal, drops the journal and pushes. Four things are
  touched: the journal's files, the database, the checkout and Git; the calls to Git are parameters,
  which see the checkout but do not change it.
\<close>

record 'g backup =
  bk_journal :: fsys
  bk_db :: world
  bk_tree :: world
  bk_git :: 'g
  bk_synced :: "string list"

type_synonym ('g, 'a) bprog = "('g backup, 'a) prog"

definition on_journal :: "'a fio \<Rightarrow> ('g, 'a) bprog" where
  "on_journal m b = (case m (bk_journal b) of (r, s) \<Rightarrow> (r, b\<lparr>bk_journal := s\<rparr>))"

definition on_db :: "'a io \<Rightarrow> ('g, 'a) bprog" where
  "on_db m b = (case m (bk_db b) of (r, s) \<Rightarrow> (r, b\<lparr>bk_db := s\<rparr>))"

definition on_tree :: "'a io \<Rightarrow> ('g, 'a) bprog" where
  "on_tree m b = (case m (bk_tree b) of (r, s) \<Rightarrow> (r, b\<lparr>bk_tree := s\<rparr>))"

definition on_git :: "(world \<Rightarrow> ('g, 'a) prog) \<Rightarrow> ('g, 'a) bprog" where
  "on_git m b = (case m (bk_tree b) (bk_git b) of (r, s) \<Rightarrow> (r, b\<lparr>bk_git := s\<rparr>))"

subsection \<open>The Git port\<close>

record 'g git_calls =
  gc_changes :: "world \<Rightarrow> ('g, bool) prog"
  gc_commit_tree :: "world \<Rightarrow> string \<Rightarrow> ('g, string option) prog"
  gc_push :: "('g, bool \<times> string option) prog"

record 'g git_port =
  gp_status :: "world \<Rightarrow> ('g, bool) prog"
  gp_commit :: "string \<Rightarrow> world \<Rightarrow> ('g, string) prog"
  gp_push :: "world \<Rightarrow> ('g, bool \<times> string option) prog"

definition git_sync_port :: "'g git_calls \<Rightarrow> 'g git_port" where
  "git_sync_port R = \<lparr>gp_status = gc_changes R,
     gp_commit = (\<lambda>message t. io_bind (gc_commit_tree R t message) (\<lambda>c. case c of
        Some h \<Rightarrow> if h \<noteq> [] then io_return h else io_throw ''Git reported changes but produced no commit''
      | None \<Rightarrow> io_throw ''Git reported changes but produced no commit'')),
     gp_push = (\<lambda>_. gc_push R)\<rparr>"

subsection \<open>The commit message\<close>

definition namespace_of_file :: "path \<Rightarrow> string" where
  "namespace_of_file f = slice 7 5 f"

definition message_actors :: "ledger_entry list \<Rightarrow> string list" where
  "message_actors es = sort (uniq (map le_actor es))"

definition compose_commit_message :: "path list \<Rightarrow> ledger_entry list \<Rightarrow> string" where
  "compose_commit_message fs es = (let
     actors = message_actors es;
     ks = sort (uniq (concat (map le_keys es)));
     namespaces = sort (uniq (map namespace_of_file (filter (starts_with ''config/'') fs)));
     listed = join '', '' fs;
     subject = (if namespaces \<noteq> [] then ''sync '' @ join '', '' namespaces else ''sync '' @ (if listed \<noteq> [] then listed else ''database''))
   in join [newline] ([subject, '''',
        if ks \<noteq> [] then ''Keys: '' @ join '', '' ks else ''Keys: none'',
        if actors \<noteq> [] then ''Actors: '' @ join '', '' actors else ''Actors: unknown'', '''']
        @ map (\<lambda>a. ''Actor: '' @ a) actors))"

subsection \<open>Mirroring\<close>

text \<open>A file of the checkout as the directory walk names it, the temporaries of the writer included.\<close>

fun tree_name :: "loc \<Rightarrow> path option" where
  "tree_name (Db p) = Some p"
| "tree_name (Temp (Db p) n) = Some (p @ ''.'' @ nat_str n @ ''.tmp'')"
| "tree_name _ = None"

definition private_names :: "string list" where
  "private_names = [''.git'', ''.journal'', ''.revision'']"

definition private_path :: "path \<Rightarrow> bool" where
  "private_path p = list_ex (\<lambda>s. s \<in> set private_names) (split_on (CHR ''/'') p)"

definition collect_files :: "world \<Rightarrow> (path \<times> loc) list" where
  "collect_files w = List.map_filter (\<lambda>(l, _). case tree_name l of None \<Rightarrow> None
     | Some p \<Rightarrow> if private_path p then None else Some (p, l)) (files w)"

definition prune_file :: "(path \<times> string) list \<Rightarrow> path \<times> loc \<Rightarrow> unit io" where
  "prune_file source = (\<lambda>(p, l). if has_key source p then io_return () else writer_remove l)"

definition mirror_snapshot :: "(path \<times> string) list \<Rightarrow> path list io" where
  "mirror_snapshot source = io_then ensure_directory (io_bind (io_read collect_files) (\<lambda>previous.
     io_then (io_for (prune_file source) previous)
     (io_then (io_for (\<lambda>(p, c). writer_write (Db p) c) source)
       (io_return (sort (uniq (keys source @ keys previous)))))))"

text \<open>Without a snapshot reader the files of the database directory itself are copied; \<open>cp\<close> truncates and writes.\<close>

definition copy_into :: "world \<Rightarrow> path \<times> loc \<Rightarrow> unit io" where
  "copy_into source = (\<lambda>(p, l). io_then ensure_directory
     (case file_at source l of None \<Rightarrow> io_throw ''ENOENT''
      | Some c \<Rightarrow> io_then (io_step (put_file (Db p) '''')) (io_step (put_file (Db p) c))))"

definition mirror_tree :: "world \<Rightarrow> path list io" where
  "mirror_tree source = (let fs = collect_files source in
     io_then ensure_directory (io_bind (io_read collect_files) (\<lambda>previous.
       io_then (io_for (\<lambda>(p, l). if has_key fs p then io_return () else io_step (del_file l)) previous)
       (io_then (io_for (copy_into source) fs)
         (io_return (sort (uniq (filter (\<lambda>f. f \<noteq> ''.git'') (keys fs @ keys previous)))))))))"

subsection \<open>SyncEngine\<close>

datatype sync_kind = SyncClean | SyncDone | SyncDeferred

record sync_result =
  sy_kind :: sync_kind
  sy_files :: "path list"
  sy_commit :: "string option"
  sy_reason :: "string option"

text \<open>\<open>performSync\<close>; \<open>from_snapshot\<close> says whether the engine was given a reader of snapshots, \<open>bk_synced\<close> is what the callback was told.\<close>

definition mirror :: "(string \<Rightarrow> string) \<Rightarrow> bool \<Rightarrow> ('g, path list) bprog" where
  "mirror sha from_snapshot = (if from_snapshot
     then io_bind (on_db (engine_snapshot sha '''')) (\<lambda>(_, fs). on_tree (mirror_snapshot fs))
     else io_bind (io_read bk_db) (\<lambda>w. on_tree (mirror_tree w)))"

definition perform_sync :: "'g git_port \<Rightarrow> (string \<Rightarrow> string) \<Rightarrow> bool \<Rightarrow> path \<Rightarrow> ('g, sync_result) bprog" where
  "perform_sync P sha from_snapshot root =
     io_bind (on_journal (journal_rotate root)) (\<lambda>handle.
     io_bind (mirror sha from_snapshot) (\<lambda>fs.
     io_bind (on_git (gp_status P)) (\<lambda>changed.
     if \<not> changed then io_then (on_journal (journal_discard handle))
       (io_return \<lparr>sy_kind = SyncClean, sy_files = fs, sy_commit = None, sy_reason = None\<rparr>)
     else
       io_bind (on_journal (journal_drain handle)) (\<lambda>es.
       io_bind (on_git (gp_commit P (compose_commit_message fs es))) (\<lambda>commit.
       io_then (on_journal (journal_discard handle))
       (io_bind (on_git (gp_push P)) (\<lambda>(pushed, reason).
         if pushed then io_then (io_update (\<lambda>b. b\<lparr>bk_synced := bk_synced b @ [commit]\<rparr>))
           (io_return \<lparr>sy_kind = SyncDone, sy_files = fs, sy_commit = Some commit, sy_reason = None\<rparr>)
         else io_return \<lparr>sy_kind = SyncDeferred, sy_files = fs, sy_commit = Some commit, sy_reason = reason\<rparr>)))))))"

subsection \<open>The last outcome (sync-status.ts)\<close>

datatype backup_notice = BackupFailed | BackupDeferred | BackupNoRemote

type_synonym sync_status = "backup_notice option"

definition note_error :: "sync_status \<Rightarrow> sync_status" where
  "note_error _ = Some BackupFailed"

definition clear_status :: "sync_status \<Rightarrow> sync_status" where
  "clear_status _ = None"

definition note_result :: "sync_result \<Rightarrow> sync_status \<Rightarrow> sync_status" where
  "note_result r st = (case sy_kind r of SyncDone \<Rightarrow> None | SyncClean \<Rightarrow> st
     | SyncDeferred \<Rightarrow> Some (case sy_reason r of
         Some t \<Rightarrow> if contains ''no remote'' t then BackupNoRemote else BackupDeferred | None \<Rightarrow> BackupDeferred))"

subsection \<open>The preference (auto-sync-store.ts)\<close>

definition preference_file :: "path \<Rightarrow> path" where
  "preference_file root = root @ ''/auto-sync.json''"

definition read_preference :: "string \<Rightarrow> string + bool" where
  "read_preference t = (if t = [] then Inr False else case json_parse t of None \<Rightarrow> Inr False
     | Some v \<Rightarrow> if v = JNull then Inr False else Inr (prop_of v ''autoSync'' = JBool True))"

definition auto_sync_read :: "path \<Rightarrow> bool fio" where
  "auto_sync_read root = io_bind (missing_as '''' (read_file (preference_file root))) (\<lambda>t. io_lift (read_preference t))"

definition auto_sync_write :: "path \<Rightarrow> bool \<Rightarrow> unit fio" where
  "auto_sync_write root enabled = io_then make_directory
     (write_file (preference_file root) (json (JObj [(''autoSync'', JBool enabled)]) @ [newline]))"

subsection \<open>Rules for the parts of the state\<close>

lemma on_journal_triple:
  assumes "triple P m Q E"
  shows "triple (\<lambda>b. P (bk_journal b) \<and> X (bk_db b) (bk_tree b) (bk_git b)) (on_journal m)
    (\<lambda>x b. Q x (bk_journal b) \<and> X (bk_db b) (bk_tree b) (bk_git b)) (\<lambda>b. E (bk_journal b) \<and> X (bk_db b) (bk_tree b) (bk_git b))"
  using assms by (fastforce simp: triple_def on_journal_def split: prod.splits sum.splits)

lemma on_tree_triple:
  assumes "triple P m Q E"
  shows "triple (\<lambda>b. P (bk_tree b) \<and> X (bk_journal b) (bk_db b) (bk_git b)) (on_tree m)
    (\<lambda>x b. Q x (bk_tree b) \<and> X (bk_journal b) (bk_db b) (bk_git b)) (\<lambda>b. E (bk_tree b) \<and> X (bk_journal b) (bk_db b) (bk_git b))"
  using assms by (fastforce simp: triple_def on_tree_def split: prod.splits sum.splits)

lemma on_db_triple:
  assumes "triple P m Q E"
  shows "triple (\<lambda>b. P (bk_db b) \<and> X (bk_journal b) (bk_tree b) (bk_git b)) (on_db m)
    (\<lambda>x b. Q x (bk_db b) \<and> X (bk_journal b) (bk_tree b) (bk_git b)) (\<lambda>b. E (bk_db b) \<and> X (bk_journal b) (bk_tree b) (bk_git b))"
  using assms by (fastforce simp: triple_def on_db_def split: prod.splits sum.splits)

lemma on_git_triple:
  "triple (\<lambda>b. X (bk_journal b) (bk_db b) (bk_tree b)) (on_git m)
    (\<lambda>x b. X (bk_journal b) (bk_db b) (bk_tree b) \<and> (\<exists>g g'. m (bk_tree b) g = (Inr x, g'))) (\<lambda>b. X (bk_journal b) (bk_db b) (bk_tree b))"
  by (auto simp: triple_def on_git_def split: prod.splits sum.splits)

subsection \<open>The mirror is exact\<close>

definition holds_files :: "(path \<Rightarrow> string option) \<Rightarrow> world \<Rightarrow> bool" where
  "holds_files F w = (\<forall>p. file_at w (Db p) = F p)"

lemma settled_holds_files: "settled_pred (holds_files F)"
  by (rule settled_predI) (simp add: holds_files_def agree_def)

definition pruned :: "(path \<times> string) list \<Rightarrow> (path \<times> loc) list \<Rightarrow> (path \<Rightarrow> string option) \<Rightarrow> path \<Rightarrow> string option" where
  "pruned source ys F p = (if \<exists>q. (q, Db p) \<in> set ys \<and> \<not> has_key source q then None else F p)"

lemma prune_triple:
  "triple (holds_files F) (io_for (prune_file source) previous) (\<lambda>_. holds_files (pruned source previous F)) (\<lambda>_. True)"
proof (rule triple_pre)
  show "triple (holds_files (pruned source [] F)) (io_for (prune_file source) previous) (\<lambda>_. holds_files (pruned source previous F)) (\<lambda>_. True)"
  proof (rule triple_for)
    fix ys zs and x :: "path \<times> loc"
    obtain p l where x: "x = (p, l)" by fastforce
    have keep: "has_key source p \<Longrightarrow> pruned source (ys @ [x]) F = pruned source ys F"
      by (auto simp: pruned_def x fun_eq_iff)
    have del: "\<not> has_key source p \<Longrightarrow> holds_files (pruned source ys F) w \<Longrightarrow> holds_files (pruned source (ys @ [x]) F) (del_file l w)" for w
      by (cases l) (auto simp: holds_files_def pruned_def x)
    show "triple (holds_files (pruned source ys F)) (prune_file source x) (\<lambda>_. holds_files (pruned source (ys @ [x]) F)) (\<lambda>_. True)"
      unfolding prune_file_def x prod.case
      by (rule triple_if, simp add: triple_return keep [unfolded x], rule triple_weaken_E [OF writer_remove_triple])
        (auto intro!: settled_holds_files del [unfolded x])
  qed
qed (simp add: holds_files_def pruned_def)

lemma write_all_triple:
  "triple (holds_files G) (io_for (\<lambda>(p, c). writer_write (Db p) c) source) (\<lambda>_. holds_files (G ++ map_of (rev source))) (\<lambda>_. True)"
proof (rule triple_pre)
  show "triple (holds_files (G ++ map_of (rev []))) (io_for (\<lambda>(p, c). writer_write (Db p) c) source)
      (\<lambda>_. holds_files (G ++ map_of (rev source))) (\<lambda>_. True)"
  proof (rule triple_for)
    fix ys zs and x :: "path \<times> string"
    obtain p c where x: "x = (p, c)" by fastforce
    have "holds_files (G ++ map_of (rev ys)) w \<Longrightarrow> holds_files (G ++ map_of (rev (ys @ [x]))) (put_file (Db p) c w)" for w
      by (simp add: holds_files_def x map_add_def)
    then show "triple (holds_files (G ++ map_of (rev ys))) (case x of (p, c) \<Rightarrow> writer_write (Db p) c)
        (\<lambda>_. holds_files (G ++ map_of (rev (ys @ [x])))) (\<lambda>_. True)"
      unfolding x prod.case by (intro triple_weaken_E [OF writer_write_triple] settled_holds_files) auto
  qed
qed simp

lemma collected: "file_at w (Db p) \<noteq> None \<Longrightarrow> \<not> private_path p \<Longrightarrow> (p, Db p) \<in> set (collect_files w)"
  by (force simp: collect_files_def file_at_def List.map_filter_def dest: map_of_SomeD)

lemma pruned_source:
  assumes "file_at w (Db p) = F p" and "\<not> private_path p"
  shows "(pruned source (collect_files w) F ++ map_of (rev source)) p = map_of (rev source) p"
proof (cases "has_key source p")
  case True
  then have "map_of (rev source) p \<noteq> None" by (auto simp: has_key_def keys_def map_of_eq_None_iff)
  then show ?thesis by auto
next
  case False
  then have "map_of (rev source) p = None" by (auto simp: has_key_def keys_def map_of_eq_None_iff)
  moreover have "pruned source (collect_files w) F p = None" using collected [OF _ assms(2), of w] assms(1) False by (cases "F p") (auto simp: pruned_def)
  ultimately show ?thesis by (simp add: map_add_def)
qed

lemma mirror_snapshot_triple:
  "triple (\<lambda>_. True) (mirror_snapshot source) (\<lambda>_ w. \<forall>p. \<not> private_path p \<longrightarrow> file_at w (Db p) = map_of (rev source) p) (\<lambda>_. True)"
proof -
  let ?Q = "\<lambda>_ w. \<forall>p. \<not> private_path p \<longrightarrow> file_at w (Db p) = map_of (rev source) p"
  have body: "triple (\<lambda>w. w = v \<and> x = collect_files w) (io_then (io_for (prune_file source) x)
      (io_then (io_for (\<lambda>(p, c). writer_write (Db p) c) source) (io_return (sort (uniq (keys source @ keys x)))))) ?Q (\<lambda>_. True)" for x v
  proof (rule triple_assume [THEN triple_pre])
    let ?F = "\<lambda>p. file_at v (Db p)"
    assume x: "x = collect_files v"
    show "triple (\<lambda>w. w = v) (io_then (io_for (prune_file source) x)
      (io_then (io_for (\<lambda>(p, c). writer_write (Db p) c) source) (io_return (sort (uniq (keys source @ keys x)))))) ?Q (\<lambda>_. True)"
      by (rule triple_pre [OF triple_then [OF prune_triple [of ?F] triple_then [OF write_all_triple triple_return]]])
        (auto simp: holds_files_def x pruned_source)
  qed auto
  show ?thesis unfolding mirror_snapshot_def
  proof (rule triple_then [where R = "\<lambda>_. True"])
    show "triple (\<lambda>_. True) ensure_directory (\<lambda>_ _. True) (\<lambda>_. True)" by (simp add: triple_def split: prod.split sum.split)
    show "triple (\<lambda>_. True) (io_bind (io_read collect_files) (\<lambda>previous. io_then (io_for (prune_file source) previous)
      (io_then (io_for (\<lambda>(p, c). writer_write (Db p) c) source) (io_return (sort (uniq (keys source @ keys previous))))))) ?Q (\<lambda>_. True)"
      using body unfolding triple_def io_bind_def io_read_def by auto
  qed
qed

subsection \<open>The snapshot of the database\<close>

definition mirrors :: "(path \<Rightarrow> string option) \<Rightarrow> world \<Rightarrow> bool" where
  "mirrors A w = (\<forall>p. database_path p = Inr p \<longrightarrow> file_at w (Db p) = A p)"

lemma database_path_public: "database_path p = Inr p \<Longrightarrow> \<not> private_path p"
proof -
  assume "database_path p = Inr p"
  then have "\<forall>s \<in> set (split_on (CHR ''/'') p). \<not> starts_with ''.'' s"
    by (auto simp: database_path_def bad_part_def list_ex_iff split: if_splits)
  moreover have "starts_with ''.'' ''.git''" "starts_with ''.'' ''.journal''" "starts_with ''.'' ''.revision''" by code_simp+
  ultimately show ?thesis by (auto simp: private_path_def private_names_def list_ex_iff)
qed

lemma temp_name_private: "database_path p = Inr p \<Longrightarrow> p \<noteq> temp_name n"
proof
  assume p: "database_path p = Inr p" "p = temp_name n"
  have s: "split_on (CHR ''/'') (temp_name n) = [temp_name n]"
    by (rule split_on_no_sep) (use nat_str_digits in \<open>fastforce simp: temp_name_def is_digit_def less_eq_char_def\<close>)
  then have "\<not> bad_part (temp_name n)" using p unfolding p(2) by (auto simp: database_path_def split: if_splits)
  then show False by (simp add: bad_part_def temp_name_def starts_with_def)
qed

lemma snapshot_contents:
  assumes d: "distinct (map fst (files w))" and p: "database_path p = Inr p"
  shows "map_of (rev (snapshot_files '''' w)) p = file_at w (Db p)"
proof -
  have vis: "(p, c) \<in> set (snapshot_files '''' w) \<longleftrightarrow> (Db p, c) \<in> set (files w)" for c
  proof -
    have "visible x = Some (p, c) \<longleftrightarrow> x = (Db p, c)" for x
      using temp_name_private [OF p] by (cases x rule: visible.cases) auto
    then show ?thesis by (simp add: snapshot_files_def under_def List.map_filter_def) force
  qed
  show ?thesis
  proof (cases "map_of (rev (snapshot_files '''' w)) p")
    case None
    then have "p \<notin> fst ` set (snapshot_files '''' w)" by (simp add: map_of_eq_None_iff)
    then have "Db p \<notin> fst ` set (files w)" using vis by force
    then have "map_of (files w) (Db p) = None" by (simp add: map_of_eq_None_iff)
    then show ?thesis using None by (simp add: file_at_def)
  next
    case (Some c)
    then have "(Db p, c) \<in> set (files w)" using vis by (auto dest: map_of_SomeD)
    then show ?thesis using Some d by (simp add: file_at_def)
  qed
qed

lemma snapshot_triple:
  assumes "serving A n w0" and "distinct (map fst (files w0))"
  shows "triple (\<lambda>w. w = w0) (engine_snapshot sha '''')
    (\<lambda>(m, fs) w. w = w0 \<and> m = n \<and> (\<forall>p. database_path p = Inr p \<longrightarrow> map_of (rev fs) p = A p)) (\<lambda>w. w = w0)"
proof -
  have "map_of (rev (snapshot_files '''' w0)) p = A p" if "database_path p = Inr p" for p
    using snapshot_contents [OF assms(2) that] serving_db [OF assms(1)] by simp
  then show ?thesis
    using serving_recover_run [OF assms(1)] serving_healthy_run [OF assms(1)] serving_revision_run [OF assms(1)]
    by (simp add: triple_def engine_snapshot_def io_then_def io_bind_def io_return_def io_read_def io_throw_def)
qed

subsection \<open>Attribution\<close>

text \<open>The entries are still in the journal, in whichever of its two files.\<close>

definition kept :: "path \<Rightarrow> ledger_entry list \<Rightarrow> fsys \<Rightarrow> bool" where
  "kept root es s = (\<exists>ss qs. ss @ qs = es \<and> ledger root ss qs (content s))"

text \<open>A commit of the checkout was made with a message composed of the entries.\<close>

definition committed_with :: "'g git_port \<Rightarrow> ledger_entry list \<Rightarrow> world \<Rightarrow> path list \<Rightarrow> string \<Rightarrow> bool" where
  "committed_with P es t fs c = (\<exists>g g'. gp_commit P (compose_commit_message fs es) t g = (Inr c, g'))"

definition sync_post :: "'g git_port \<Rightarrow> path \<Rightarrow> (path \<Rightarrow> string option) \<Rightarrow> ledger_entry list \<Rightarrow> sync_result \<Rightarrow> 'g backup \<Rightarrow> bool" where
  "sync_post P root A es res b = (mirrors A (bk_tree b) \<and> ledger root [] [] (content (bk_journal b))
     \<and> (case sy_kind res of SyncClean \<Rightarrow> \<exists>g g'. gp_status P (bk_tree b) g = (Inr False, g')
        | _ \<Rightarrow> \<exists>c. sy_commit res = Some c \<and> committed_with P es (bk_tree b) (sy_files res) c))"

definition sync_fail :: "'g git_port \<Rightarrow> path \<Rightarrow> ledger_entry list \<Rightarrow> 'g backup \<Rightarrow> bool" where
  "sync_fail P root es b = (kept root es (bk_journal b)
     \<or> ledger root [] [] (content (bk_journal b)) \<and> (\<exists>fs c. committed_with P es (bk_tree b) fs c))"

lemma kept_sending: "ledger root es [] F \<Longrightarrow> \<exists>ss qs. ss @ qs = es \<and> ledger root ss qs F"
  by (rule exI [of _ es], rule exI [of _ "[]"]) simp

lemma kept_pending: "ledger root [] es F \<Longrightarrow> \<exists>ss qs. ss @ qs = es \<and> ledger root ss qs F"
  by (rule exI [of _ "[]"], rule exI [of _ es]) simp

lemma mirror_triple:
  assumes db: "serving A n w0" "distinct (map fst (files w0))"
  shows "triple (\<lambda>b. J (bk_journal b) \<and> bk_db b = w0) (mirror sha True)
    (\<lambda>_ b. J (bk_journal b) \<and> bk_db b = w0 \<and> mirrors A (bk_tree b)) (\<lambda>b. J (bk_journal b) \<and> bk_db b = w0)"
proof -
  let ?snap = "\<lambda>fs. \<forall>p. database_path p = Inr p \<longrightarrow> map_of (rev fs) p = A p"
  have s: "triple (\<lambda>b. J (bk_journal b) \<and> bk_db b = w0) (on_db (engine_snapshot sha ''''))
      (\<lambda>x b. ?snap (snd x) \<and> J (bk_journal b) \<and> bk_db b = w0) (\<lambda>b. J (bk_journal b) \<and> bk_db b = w0)"
    by (rule triple_conseq [OF on_db_triple [OF snapshot_triple [OF db], where X = "\<lambda>j t g. J j"]]) auto
  have m: "triple (\<lambda>b. ?snap fs \<and> J (bk_journal b) \<and> bk_db b = w0) (on_tree (mirror_snapshot fs))
      (\<lambda>_ b. J (bk_journal b) \<and> bk_db b = w0 \<and> mirrors A (bk_tree b)) (\<lambda>b. J (bk_journal b) \<and> bk_db b = w0)" for fs
    by (rule triple_assume, rule triple_conseq [OF on_tree_triple [OF mirror_snapshot_triple, where X = "\<lambda>j d g. J j \<and> d = w0"]])
      (auto simp: mirrors_def database_path_public)
  show ?thesis unfolding mirror_def if_True
    by (rule triple_bind [OF s]) (simp add: m split: prod.split)
qed

lemma perform_sync_triple:
  assumes db: "serving A n w0" "distinct (map fst (files w0))"
  shows "triple (\<lambda>b. on_files (ledger root [] es) (bk_journal b) \<and> bk_db b = w0) (perform_sync P sha True root)
    (\<lambda>res b. sync_post P root A es res b \<and> bk_db b = w0) (\<lambda>b. sync_fail P root es b \<and> bk_db b = w0)"
proof -
  let ?s = "sending_file root"
  let ?J = "\<lambda>j. on_files (ledger root es []) j"
  let ?E = "\<lambda>b. sync_fail P root es b \<and> bk_db b = w0"
  have fail: "?J (bk_journal b) \<Longrightarrow> sync_fail P root es b" for b
    using kept_sending by (fastforce simp: sync_fail_def kept_def on_files_def)
  have fail': "on_files (\<lambda>F. ledger root [] es F \<or> ledger root es [] F) (bk_journal b) \<Longrightarrow> sync_fail P root es b" for b
    using kept_sending kept_pending by (fastforce simp: sync_fail_def kept_def on_files_def)
  have rotate: "triple (\<lambda>b. on_files (ledger root [] es) (bk_journal b) \<and> bk_db b = w0) (on_journal (journal_rotate root))
      (\<lambda>h b. h = ?s \<and> ?J (bk_journal b) \<and> bk_db b = w0) ?E"
    by (rule triple_conseq [OF on_journal_triple [OF rotate_triple, where X = "\<lambda>d t g. d = w0"]]) (auto simp: fail' on_files_def)
  have mirror: "triple (\<lambda>b. ?J (bk_journal b) \<and> bk_db b = w0) (mirror sha True) (\<lambda>_ b. ?J (bk_journal b) \<and> bk_db b = w0 \<and> mirrors A (bk_tree b)) ?E"
    by (rule triple_weaken_E [OF mirror_triple [OF db]]) (use fail in auto)
  let ?M = "\<lambda>b. ?J (bk_journal b) \<and> bk_db b = w0 \<and> mirrors A (bk_tree b)"
  have status: "triple ?M (on_git (gp_status P)) (\<lambda>x b. ?M b \<and> (\<exists>g g'. gp_status P (bk_tree b) g = (Inr x, g'))) ?E"
    by (rule triple_conseq [OF on_git_triple [where X = "\<lambda>j d t. ?J j \<and> d = w0 \<and> mirrors A t"]]) (use fail in auto)
  have drain: "triple ?M (on_journal (journal_drain ?s)) (\<lambda>x b. x = es \<and> ?M b) ?E"
    by (rule triple_conseq [OF on_journal_triple [OF drain_triple, where X = "\<lambda>d t g. d = w0 \<and> mirrors A t"]])
      (auto simp: on_files_def intro!: fail)
  have commit: "triple ?M (on_git (gp_commit P (compose_commit_message fs es))) (\<lambda>c b. ?M b \<and> committed_with P es (bk_tree b) fs c) ?E" for fs
    unfolding committed_with_def
    by (rule triple_conseq [OF on_git_triple [where X = "\<lambda>j d t. ?J j \<and> d = w0 \<and> mirrors A t"]]) (use fail in auto)
  have discard: "triple (\<lambda>b. ?M b \<and> K (bk_tree b)) (on_journal (journal_discard ?s))
      (\<lambda>_ b. on_files (ledger root [] []) (bk_journal b) \<and> bk_db b = w0 \<and> mirrors A (bk_tree b) \<and> K (bk_tree b)) ?E" for K
    by (rule triple_conseq [OF on_journal_triple [OF discard_triple, where X = "\<lambda>d t g. d = w0 \<and> mirrors A t \<and> K t"]]) (use fail in auto)
  let ?D = "\<lambda>fs c b. on_files (ledger root [] []) (bk_journal b) \<and> bk_db b = w0 \<and> mirrors A (bk_tree b) \<and> committed_with P es (bk_tree b) fs c"
  have push: "triple (?D fs c) (on_git (gp_push P)) (\<lambda>_. ?D fs c) ?E" for fs c
    by (rule triple_conseq [OF on_git_triple [where X = "\<lambda>j d t. on_files (ledger root [] []) j \<and> d = w0 \<and> mirrors A t \<and> committed_with P es t fs c"]])
      (auto simp: sync_fail_def on_files_def)
  let ?Q = "\<lambda>res b. sync_post P root A es res b \<and> bk_db b = w0"
  have finish: "triple (?D fs c) (io_bind (on_git (gp_push P)) (\<lambda>(pushed, reason).
         if pushed then io_then (io_update (\<lambda>b. b\<lparr>bk_synced := bk_synced b @ [c]\<rparr>))
           (io_return \<lparr>sy_kind = SyncDone, sy_files = fs, sy_commit = Some c, sy_reason = None\<rparr>)
         else io_return \<lparr>sy_kind = SyncDeferred, sy_files = fs, sy_commit = Some c, sy_reason = reason\<rparr>)) ?Q ?E" for fs c
  proof (rule triple_bind [OF push])
    fix x :: "bool \<times> string option"
    have "triple (?D fs c) (io_then (io_update (\<lambda>b. b\<lparr>bk_synced := bk_synced b @ [c]\<rparr>))
           (io_return \<lparr>sy_kind = SyncDone, sy_files = fs, sy_commit = Some c, sy_reason = None\<rparr>)) ?Q ?E"
      by (rule triple_then [OF triple_update [where Q = "\<lambda>_. ?D fs c"] triple_return]) (auto simp: sync_post_def on_files_def)
    moreover have "triple (?D fs c) (io_return \<lparr>sy_kind = SyncDeferred, sy_files = fs, sy_commit = Some c, sy_reason = r\<rparr>) ?Q ?E" for r
      by (rule triple_return) (auto simp: sync_post_def on_files_def)
    ultimately show "triple (?D fs c) (case x of (pushed, reason) \<Rightarrow>
         if pushed then io_then (io_update (\<lambda>b. b\<lparr>bk_synced := bk_synced b @ [c]\<rparr>))
           (io_return \<lparr>sy_kind = SyncDone, sy_files = fs, sy_commit = Some c, sy_reason = None\<rparr>)
         else io_return \<lparr>sy_kind = SyncDeferred, sy_files = fs, sy_commit = Some c, sy_reason = reason\<rparr>) ?Q ?E"
      by (simp split: prod.split)
  qed
  have clean: "triple (\<lambda>b. ?M b \<and> (\<exists>g g'. gp_status P (bk_tree b) g = (Inr False, g'))) (io_then (on_journal (journal_discard ?s))
       (io_return \<lparr>sy_kind = SyncClean, sy_files = fs, sy_commit = None, sy_reason = None\<rparr>)) ?Q ?E" for fs
    by (rule triple_then [OF discard triple_return]) (auto simp: sync_post_def on_files_def)
  have dirty: "triple ?M (io_bind (on_journal (journal_drain ?s)) (\<lambda>es'.
       io_bind (on_git (gp_commit P (compose_commit_message fs es'))) (\<lambda>c.
       io_then (on_journal (journal_discard ?s)) (io_bind (on_git (gp_push P)) (\<lambda>(pushed, reason).
         if pushed then io_then (io_update (\<lambda>b. b\<lparr>bk_synced := bk_synced b @ [c]\<rparr>))
           (io_return \<lparr>sy_kind = SyncDone, sy_files = fs, sy_commit = Some c, sy_reason = None\<rparr>)
         else io_return \<lparr>sy_kind = SyncDeferred, sy_files = fs, sy_commit = Some c, sy_reason = reason\<rparr>))))) ?Q ?E" for fs
    by (rule triple_bind [OF drain], rule triple_assume, hypsubst, rule triple_bind [OF commit], rule triple_then [OF discard finish])
  show ?thesis unfolding perform_sync_def
    by (rule triple_bind [OF rotate], rule triple_assume, hypsubst, rule triple_bind [OF mirror], rule triple_bind [OF status], rule triple_if)
      (rule triple_pre [OF clean], simp, rule triple_pre [OF dirty], simp)
qed

subsection \<open>What the message says\<close>

lemma split_on_cat: "split_on c (s @ c # t) = split_on c s @ split_on c t"
  by (induction s) (auto split: list.split)

lemma set_split_join: "ls \<noteq> [] \<Longrightarrow> set (split_on c (join [c] ls)) = (\<Union>l \<in> set ls. set (split_on c l))"
  by (induction "[c]" ls rule: join.induct) (simp_all add: split_on_cat)

lemma message_names_actor:
  assumes "e \<in> set es" and "newline \<notin> set (le_actor e)"
  shows "''Actor: '' @ le_actor e \<in> set (split_on newline (compose_commit_message fs es))"
proof -
  let ?l = "''Actor: '' @ le_actor e"
  have l: "split_on newline ?l = [?l]"
    by (rule split_on_no_sep) (use assms(2) in \<open>auto simp: newline_def\<close>)
  have "le_actor e \<in> set (message_actors es)" using assms(1) by (simp add: message_actors_def)
  then have m: "?l \<in> set (xs @ map (\<lambda>a. ''Actor: '' @ a) (message_actors es))" for xs by simp
  have j: "?l \<in> set ls \<Longrightarrow> ?l \<in> set (split_on newline (join [newline] ls))" for ls
    using l by (subst set_split_join) (auto intro!: bexI [of _ ?l])
  have "?l \<in> set (split_on newline (join [newline] (xs @ map (\<lambda>a. ''Actor: '' @ a) (message_actors es))))" for xs
    by (rule j) (rule m)
  then show ?thesis by (simp only: compose_commit_message_def Let_def)
qed


definition demo_entry :: ledger_entry where
  "demo_entry = \<lparr>le_actor = ''a@b'', le_path = ''config/iam/dev.yaml'', le_keys = [''PORT''], le_revision = ''1'', le_timestamp = ''t''\<rparr>"

text \<open>A Git whose commit finds the index locked.\<close>

definition locked_git :: "unit git_port" where
  "locked_git = \<lparr>gp_status = (\<lambda>_. io_return True), gp_commit = (\<lambda>_ _. io_throw ''index.lock''), gp_push = (\<lambda>_. io_return (True, None))\<rparr>"

definition demo_backup :: "unit backup" where
  "demo_backup = \<lparr>bk_journal = \<lparr>fs_files = [(pending_file ''/j'', lines_of [demo_entry])], fs_clock = 0, fs_fails = (\<lambda>_. False)\<rparr>,
     bk_db = demo_world (\<lambda>_. False), bk_tree = (demo_world (\<lambda>_. False))\<lparr>files := [(Db ''old.yaml'', ''y'')]\<rparr>, bk_git = (), bk_synced = []\<rparr>"


end
