(* ===== verification/Scheduler.thy ===== *)
theory Scheduler
  imports Main
begin

section \<open>When a back-up runs (src/store/sync-scheduler.ts, SyncEngine.syncNow)\<close>

text \<open>
  Timers, a debounce and buttons all ask for a back-up; the engine runs one at a time and lets the
  others join it. The promise of a run is settled before the caller that started it clears the field, so
  a caller between the two joins a run that is over. \<open>sc_active\<close> counts the runs in flight and \<open>sc_log\<close>
  records each run that began with the preference at that moment; the code keeps neither.
\<close>

datatype trigger = Manual | Timer | Idle

datatype running = Working | Settled

record scheduler =
  sc_timer :: bool
  sc_idle :: bool
  sc_auto :: bool
  sc_running :: "running option"
  sc_active :: nat
  sc_log :: "(trigger \<times> bool) list"

definition new_scheduler :: scheduler where
  "new_scheduler = \<lparr>sc_timer = False, sc_idle = False, sc_auto = False, sc_running = None, sc_active = 0, sc_log = []\<rparr>"

definition sync_now :: "trigger \<Rightarrow> scheduler \<Rightarrow> scheduler" where
  "sync_now t s = (if sc_running s \<noteq> None then s
     else s\<lparr>sc_running := Some Working, sc_active := Suc (sc_active s), sc_log := sc_log s @ [(t, sc_auto s)]\<rparr>)"

definition set_auto_sync :: "bool \<Rightarrow> scheduler \<Rightarrow> scheduler" where
  "set_auto_sync b s = s\<lparr>sc_auto := b\<rparr>"

definition start_timer :: "scheduler \<Rightarrow> scheduler" where
  "start_timer s = (if sc_timer s then s else s\<lparr>sc_timer := True\<rparr>)"

definition stop_timers :: "scheduler \<Rightarrow> scheduler" where
  "stop_timers s = s\<lparr>sc_timer := False, sc_idle := False\<rparr>"

text \<open>A write arms the debounce; one that was armed before is replaced.\<close>

definition notify_write :: "scheduler \<Rightarrow> scheduler" where
  "notify_write s = (if \<not> sc_auto s then s else s\<lparr>sc_idle := True\<rparr>)"

definition run_unattended :: "trigger \<Rightarrow> scheduler \<Rightarrow> scheduler" where
  "run_unattended t s = (if \<not> sc_auto s then s else sync_now t s)"

definition settle_run :: "scheduler \<Rightarrow> scheduler" where
  "settle_run s = s\<lparr>sc_running := Some Settled, sc_active := sc_active s - 1\<rparr>"

definition clear_run :: "scheduler \<Rightarrow> scheduler" where
  "clear_run s = s\<lparr>sc_running := None\<rparr>"

inductive sched_step :: "scheduler \<Rightarrow> scheduler \<Rightarrow> bool" where
  on_start: "sched_step s (start_timer s)"
| on_stop: "sched_step s (stop_timers s)"
| on_prefer: "sched_step s (set_auto_sync b s)"
| on_write: "sched_step s (notify_write s)"
| on_button: "sched_step s (sync_now Manual s)"
| on_tick: "sc_timer s \<Longrightarrow> sched_step s (run_unattended Timer s)"
| on_quiet: "sc_idle s \<Longrightarrow> sched_step s (run_unattended Idle (s\<lparr>sc_idle := False\<rparr>))"
| on_settled: "sc_running s = Some Working \<Longrightarrow> sched_step s (settle_run s)"
| on_cleared: "sc_running s = Some Settled \<Longrightarrow> sched_step s (clear_run s)"

inductive_cases sched_stepE: "sched_step s s'"

lemmas sched_defs = start_timer_def stop_timers_def set_auto_sync_def notify_write_def sync_now_def
  run_unattended_def settle_run_def clear_run_def

definition single_flight :: "scheduler \<Rightarrow> bool" where
  "single_flight s = (sc_active s = (if sc_running s = Some Working then 1 else 0) \<and> (\<forall>(t, auto) \<in> set (sc_log s). t = Manual \<or> auto))"

lemma single_flight_step: "sched_step s s' \<Longrightarrow> single_flight s \<Longrightarrow> single_flight s'"
  by (induction rule: sched_step.induct) (auto simp: single_flight_def sched_defs)

text \<open>The debounce is armed only by a write, and fires at most once for each time it is armed.\<close>

lemma idle_step: "sched_step s s' \<Longrightarrow> sc_idle s' \<Longrightarrow> sc_idle s \<or> s' = notify_write s"
  by (erule sched_stepE) (auto simp: sched_defs)

text \<open>C30: back-ups never overlap and never run against the operator's preference. Whatever the order of timers,
  writes, buttons and completions, at most one back-up is in flight, a request while one is in flight
  starts none, and every run that a timer or a write began did so with unattended back-up switched on.\<close>

theorem one_backup_at_a_time:
  assumes "sched_step\<^sup>*\<^sup>* new_scheduler s"
  shows "sc_active s \<le> 1 \<and> (sc_active s = 1 \<longrightarrow> sync_now t s = s)
    \<and> (\<forall>(t, auto) \<in> set (sc_log s). t \<noteq> Manual \<longrightarrow> auto)"
proof -
  have "single_flight s" using assms
  proof (induction rule: rtranclp_induct)
    case base
    show ?case by (simp add: single_flight_def new_scheduler_def)
  next
    case (step s s')
    then show ?case using single_flight_step by blast
  qed
  then show ?thesis by (auto simp: single_flight_def sync_now_def split: if_splits)
qed

definition busy_scheduler :: scheduler where
  "busy_scheduler = run_unattended Timer (start_timer (set_auto_sync True new_scheduler))"

theorem one_backup_at_a_time_witness:
  "sc_active busy_scheduler = 1 \<and> sync_now Manual busy_scheduler = busy_scheduler"
proof -
  have "sched_step new_scheduler (set_auto_sync True new_scheduler)" by (rule on_prefer)
  moreover have "sched_step (set_auto_sync True new_scheduler) (start_timer (set_auto_sync True new_scheduler))" by (rule on_start)
  moreover have "sched_step (start_timer (set_auto_sync True new_scheduler)) busy_scheduler"
    unfolding busy_scheduler_def by (rule on_tick) (simp add: sched_defs new_scheduler_def)
  ultimately have "sched_step\<^sup>*\<^sup>* new_scheduler busy_scheduler" by (meson rtranclp.intros)
  then show ?thesis using one_backup_at_a_time [of busy_scheduler Manual]
    by (simp add: busy_scheduler_def new_scheduler_def sched_defs)
qed

end
