(* ===== verification/GitRepo.thy ===== *)
theory GitRepo
  imports Fsys Loader
begin

section \<open>The Git engine (src/git/repository.ts, syncer.ts, deploy-key.ts)\<close>

text \<open>
  Git is a program the service runs: the parameter \<open>G\<close> says what a command line does to the repository
  and to the files of the clone, and whether it printed or failed. The model is the command lines, their
  order, what is read out of their output and what happens when one fails; \<open>cl_log\<close>, which the code
  does not keep, records each command with whether it succeeded.
\<close>

record ssh_options =
  ss_key :: path
  ss_known_hosts :: "path option"

text \<open>The environment variable \<open>GIT_SSH_COMMAND\<close>, when it is set, and the arguments.\<close>

type_synonym 'g git_program = "string option \<Rightarrow> string list \<Rightarrow> ('g \<times> fsys, string) prog"

record clone_options =
  co_dir :: path
  co_ssh :: "ssh_options option"
  co_pid :: nat

record 'g clone =
  cl_git :: 'g
  cl_files :: fsys
  cl_log :: "(string list \<times> bool) list"

type_synonym ('g, 'a) clone_prog = "('g clone, 'a) prog"

definition nul :: char where
  "nul = CHR 0x00"

definition line_feed :: char where
  "line_feed = CHR 0x0A"

subsection \<open>Command lines\<close>

definition build_ssh_command :: "ssh_options \<Rightarrow> string" where
  "build_ssh_command s = join '' '' ([''ssh'', ''-i '' @ ss_key s, ''-o IdentitiesOnly=yes'', ''-o StrictHostKeyChecking=yes'']
     @ (case ss_known_hosts s of Some p \<Rightarrow> if p \<noteq> [] then [''-o UserKnownHostsFile='' @ p] else [] | None \<Rightarrow> []))"

definition git_error :: "clone_options \<Rightarrow> string list \<Rightarrow> string" where
  "git_error o' args = ''git '' @ (case args of [] \<Rightarrow> ''undefined'' | a # _ \<Rightarrow> a) @ '' failed in '' @ co_dir o'"

definition git :: "'g git_program \<Rightarrow> clone_options \<Rightarrow> string list \<Rightarrow> ('g, string) clone_prog" where
  "git G o' args s = (case G (map_option build_ssh_command (co_ssh o')) args (cl_git s, cl_files s) of
     (r, (g, f)) \<Rightarrow> (map_sum (\<lambda>_. git_error o' args) id r,
       s\<lparr>cl_git := g, cl_files := f, cl_log := cl_log s @ [(args, \<not> isl r)]\<rparr>))"

definition in_tree :: "'a fio \<Rightarrow> ('g, 'a) clone_prog" where
  "in_tree m s = (case m (cl_files s) of (r, f) \<Rightarrow> (r, s\<lparr>cl_files := f\<rparr>))"

subsection \<open>The address of a remote\<close>

definition web_hosts :: "string list" where
  "web_hosts = [''github.com'', ''gitlab.com'', ''bitbucket.org'']"

definition scp_target :: "string \<Rightarrow> (string \<times> string) option" where
  "scp_target t = (let h = takeWhile (\<lambda>c. c \<noteq> CHR '':'' \<and> c \<noteq> CHR ''/'') t in
     case drop (length h) t of
       c # p \<Rightarrow> if h \<noteq> [] \<and> c = CHR '':'' \<and> p \<noteq> [] \<and> line_feed \<notin> set p \<and> CHR 0x0D \<notin> set p then Some (h, p) else None
     | [] \<Rightarrow> None)"

text \<open>\<open>/^(?:[^@/]+@)?([^:/]+):(.+)$/\<close>: with a user when that matches, else without one.\<close>

definition scp_match :: "string \<Rightarrow> (string \<times> string) option" where
  "scp_match r = (let u = takeWhile (\<lambda>c. c \<noteq> CHR ''@'' \<and> c \<noteq> CHR ''/'') r in
     case (case drop (length u) r of c # t \<Rightarrow> if u \<noteq> [] \<and> c = CHR ''@'' then scp_target t else None | [] \<Rightarrow> None) of
       Some m \<Rightarrow> Some m | None \<Rightarrow> scp_target r)"

definition remote_schemes :: "string list" where
  "remote_schemes = [''ssh://'', ''git://'', ''http://'', ''https://'']"

definition drop_suffix :: "string \<Rightarrow> string \<Rightarrow> string" where
  "drop_suffix ext s = (if ends_with ext s then take (length s - length ext) s else s)"

text \<open>\<open>parse_url\<close> gives the host name and the path of \<open>new URL\<close>, which may throw.\<close>

definition web_url_for :: "(string \<Rightarrow> (string \<times> string) option) \<Rightarrow> string option \<Rightarrow> string option" where
  "web_url_for parse_url remote = (case remote of None \<Rightarrow> None | Some r \<Rightarrow>
     if r = [] then None else
     case (if list_ex (\<lambda>p. starts_with p r) remote_schemes
             then map_option (\<lambda>(h, p). (h, if starts_with ''/'' p then tl p else p)) (parse_url r)
           else if starts_with ''/'' r then None else scp_match r) of
       None \<Rightarrow> None
     | Some (h, p) \<Rightarrow> if h \<notin> set web_hosts then None
         else let q = drop_suffix ''.git'' p in if q \<noteq> [] then Some (''https://'' @ h @ ''/'' @ q) else None)"

subsection \<open>Reading\<close>

definition head_commit :: "'g git_program \<Rightarrow> clone_options \<Rightarrow> ('g, string) clone_prog" where
  "head_commit G o' = io_bind (git G o' [''rev-parse'', ''HEAD'']) (\<lambda>out. io_return (trim out))"

definition remote_name :: "'g git_program \<Rightarrow> clone_options \<Rightarrow> ('g, string option) clone_prog" where
  "remote_name G o' = io_catch (io_bind (git G o' [''remote'']) (\<lambda>out. let remotes = trim out in
     io_return (if remotes \<noteq> [] then Some (hd (split_on line_feed remotes)) else None))) (\<lambda>_. io_return None)"

record path_change =
  lc_sha :: string
  lc_subject :: string
  lc_author :: string
  lc_at :: string

definition field :: "nat \<Rightarrow> string list \<Rightarrow> string" where
  "field n fs = (if n < length fs then fs ! n else '''')"

definition read_change :: "string \<Rightarrow> path_change option" where
  "read_change out = (let fs = split_on nul out in
     if out = [] \<or> field 0 fs = [] \<or> field 3 fs = [] then None
     else Some \<lparr>lc_sha = field 0 fs, lc_subject = field 1 fs, lc_author = field 2 fs, lc_at = field 3 fs\<rparr>)"

definition last_change :: "'g git_program \<Rightarrow> clone_options \<Rightarrow> path \<Rightarrow> ('g, path_change option) clone_prog" where
  "last_change G o' p = io_catch (io_bind (git G o' [''log'', ''-1'', ''--format=%H%x00%s%x00%an%x00%aI'', ''--'', p])
     (\<lambda>out. io_return (read_change (trim out)))) (\<lambda>_. io_return None)"

definition list_yaml_files :: "'g git_program \<Rightarrow> clone_options \<Rightarrow> string \<Rightarrow> string \<Rightarrow> ('g, path list) clone_prog" where
  "list_yaml_files G o' commit dir = io_bind (git G o' [''ls-tree'', ''-r'', ''--name-only'', ''-z'', commit, ''--'', dir])
     (\<lambda>out. io_return (filter (ends_with ''.yaml'') (split_on nul out)))"

definition namespace_of_path :: "path \<Rightarrow> string + string" where
  "namespace_of_path p = (let candidate = slice 7 5 p in
     if is_namespace candidate then Inr candidate
     else Inl (p @ '' is not a config file: expected config/<service>/<environment>.yaml''))"

definition show_file :: "'g git_program \<Rightarrow> clone_options \<Rightarrow> string \<Rightarrow> path \<Rightarrow> ('g, string) clone_prog" where
  "show_file G o' commit p = git G o' [''show'', commit @ '':'' @ p]"

text \<open>The key of a map entry is computed before the file is read.\<close>

fun read_each :: "(path \<Rightarrow> string + string) \<Rightarrow> (path \<Rightarrow> ('s, string) prog) \<Rightarrow> path list \<Rightarrow> (string \<times> string) list \<Rightarrow> ('s, (string \<times> string) list) prog" where
  "read_each key show_path [] m = io_return m"
| "read_each key show_path (p # ps) m = io_bind (io_lift (key p)) (\<lambda>k.
     io_bind (show_path p) (\<lambda>t. read_each key show_path ps (AList.update k t m)))"

definition git_read_sources :: "'g git_program \<Rightarrow> clone_options \<Rightarrow> ('g, sources) clone_prog" where
  "git_read_sources G o' = io_bind (head_commit G o') (\<lambda>commit.
     io_bind (list_yaml_files G o' commit ''config'') (\<lambda>ps.
     io_bind (read_each namespace_of_path (show_file G o' commit) ps []) (\<lambda>m.
       io_return \<lparr>src_commit = commit, src_files = m\<rparr>)))"

definition schema_name :: "path \<Rightarrow> string + string" where
  "schema_name p = (let service = slice 7 5 p in
     if CHR ''/'' \<in> set service then Inl (p @ '' is not a schema file: expected schema/<service>.yaml'') else Inr service)"

definition git_read_schemas :: "'g git_program \<Rightarrow> clone_options \<Rightarrow> ('g, (string \<times> string) list) clone_prog" where
  "git_read_schemas G o' = io_bind (head_commit G o') (\<lambda>commit.
     io_bind (list_yaml_files G o' commit ''schema'') (\<lambda>ps. read_each schema_name (show_file G o' commit) ps []))"

definition git_read_file :: "'g git_program \<Rightarrow> clone_options \<Rightarrow> path \<Rightarrow> ('g, string) clone_prog" where
  "git_read_file G o' p = io_bind (head_commit G o') (\<lambda>commit. show_file G o' commit p)"

subsection \<open>The remote\<close>

definition ensure_remote :: "'g git_program \<Rightarrow> clone_options \<Rightarrow> string option \<Rightarrow> ('g, unit) clone_prog" where
  "ensure_remote G o' url = (case url of None \<Rightarrow> io_return () | Some u \<Rightarrow>
     if u = [] then io_return () else
     io_catch (io_bind (io_catch (git G o' [''remote'', ''get-url'', ''origin'']) (\<lambda>_. io_return '''')) (\<lambda>out.
       let current = trim out in
       if current = u then io_return ()
       else if current \<noteq> [] then io_bind (git G o' [''remote'', ''set-url'', ''origin'', u]) (\<lambda>_. io_return ())
       else io_bind (git G o' [''remote'', ''add'', ''origin'', u]) (\<lambda>_. io_return ()))) (\<lambda>_. io_return ()))"

record push_result =
  ps_pushed :: bool
  ps_reason :: "string option"

definition pushed :: push_result where
  "pushed = \<lparr>ps_pushed = True, ps_reason = None\<rparr>"

definition not_pushed :: "string \<Rightarrow> push_result" where
  "not_pushed reason = \<lparr>ps_pushed = False, ps_reason = Some reason\<rparr>"

definition rebase_and_push :: "'g git_program \<Rightarrow> clone_options \<Rightarrow> string \<Rightarrow> string \<Rightarrow> ('g, push_result) clone_prog" where
  "rebase_and_push G o' remote first s = (case git G o' [''fetch'', remote, ''main''] s of
     (Inl _, s1) \<Rightarrow> (Inr (not_pushed first), s1)
   | (Inr _, s1) \<Rightarrow> (case git G o' [''rebase'', ''FETCH_HEAD''] s1 of
       (Inl cause, s2) \<Rightarrow> io_then (io_catch (io_bind (git G o' [''rebase'', ''--abort'']) (\<lambda>_. io_return ())) (\<lambda>_. io_return ()))
         (io_return (not_pushed (''remote has diverged: '' @ cause))) s2
     | (Inr _, s2) \<Rightarrow> io_catch (io_bind (git G o' [''push'', remote, ''HEAD:main'']) (\<lambda>_. io_return pushed))
         (\<lambda>cause. io_return (not_pushed cause)) s2))"

definition push :: "'g git_program \<Rightarrow> clone_options \<Rightarrow> ('g, push_result) clone_prog" where
  "push G o' = io_bind (remote_name G o') (\<lambda>remote. case remote of
     None \<Rightarrow> io_return (not_pushed ''no remote is configured'')
   | Some r \<Rightarrow> io_catch (io_bind (git G o' [''push'', r, ''HEAD:main'']) (\<lambda>_. io_return pushed))
       (\<lambda>cause. rebase_and_push G o' r cause))"

record unpushed_commit =
  uc_sha :: string
  uc_subject :: string

definition unpushed_commits :: "'g git_program \<Rightarrow> clone_options \<Rightarrow> ('g, unpushed_commit list) clone_prog" where
  "unpushed_commits G o' = io_bind (remote_name G o') (\<lambda>remote. case remote of
     None \<Rightarrow> io_return []
   | Some r \<Rightarrow> io_catch (io_bind (git G o' [''log'', r @ ''/main..HEAD'', ''--format=%H%x00%s'']) (\<lambda>out.
       io_return (map (\<lambda>l. let fs = split_on nul l in \<lparr>uc_sha = field 0 fs, uc_subject = field 1 fs\<rparr>)
         (filter (\<lambda>l. l \<noteq> []) (split_on line_feed out))))) (\<lambda>_. io_return []))"

definition pull :: "'g git_program \<Rightarrow> clone_options \<Rightarrow> ('g, string) clone_prog" where
  "pull G o' = io_bind (remote_name G o') (\<lambda>remote. case remote of
     None \<Rightarrow> head_commit G o'
   | Some r \<Rightarrow> io_bind (git G o' [''fetch'', r, ''main'']) (\<lambda>_.
       io_bind (git G o' [''merge'', ''--ff-only'', r @ ''/main'']) (\<lambda>_. head_commit G o')))"

subsection \<open>Committing\<close>

definition in_dir :: "clone_options \<Rightarrow> path \<Rightarrow> path" where
  "in_dir o' p = co_dir o' @ ''/'' @ p"

definition message_file :: "clone_options \<Rightarrow> path" where
  "message_file o' = in_dir o' (''.git/COMMIT_EDITMSG_'' @ nat_str (co_pid o'))"

definition commit_staged :: "'g git_program \<Rightarrow> clone_options \<Rightarrow> string \<Rightarrow> path list \<Rightarrow> ('g, unit) clone_prog" where
  "commit_staged G o' message ps = io_then (in_tree (write_file (message_file o') message))
     (io_finally (io_bind (git G o' ([''commit'', ''--file'', message_file o', ''--cleanup=verbatim'', ''--''] @ ps)) (\<lambda>_. io_return ()))
       (in_tree (remove_file (message_file o'))))"

definition put_back :: "'g git_program \<Rightarrow> clone_options \<Rightarrow> path \<Rightarrow> ('g, unit) clone_prog" where
  "put_back G o' p = io_bind (io_catch (git G o' [''ls-tree'', ''--name-only'', ''HEAD'', ''--'', p]) (\<lambda>_. io_return '''')) (\<lambda>known.
     if trim known \<noteq> [] then io_bind (git G o' [''checkout'', ''--'', p]) (\<lambda>_. io_return ())
     else in_tree (remove_file (in_dir o' p)))"

definition discard :: "'g git_program \<Rightarrow> clone_options \<Rightarrow> path list \<Rightarrow> ('g, unit) clone_prog" where
  "discard G o' ps = io_catch (io_bind (git G o' ([''reset'', ''--quiet'', ''HEAD'', ''--''] @ ps)) (\<lambda>_. io_for (put_back G o') ps))
     (\<lambda>_. io_return ())"

definition write_one :: "clone_options \<Rightarrow> path \<times> string option \<Rightarrow> ('g, unit) clone_prog" where
  "write_one o' = (\<lambda>(p, c). case c of None \<Rightarrow> in_tree (remove_file (in_dir o' p))
     | Some t \<Rightarrow> io_then (in_tree make_directory) (in_tree (write_file (in_dir o' p) t)))"

definition write_and_commit :: "'g git_program \<Rightarrow> clone_options \<Rightarrow> (path \<times> string option) list \<Rightarrow> string \<Rightarrow> ('g, string) clone_prog" where
  "write_and_commit G o' fs message = io_then (io_for (write_one o') fs) (let ps = keys fs in
     io_bind (git G o' ([''add'', ''--''] @ ps)) (\<lambda>_.
     io_bind (git G o' ([''diff'', ''--cached'', ''--name-only'', ''--''] @ ps)) (\<lambda>staged.
     if trim staged = [] then head_commit G o'
     else io_then (io_catch (commit_staged G o' message ps) (\<lambda>cause. io_then (discard G o' ps) (io_throw cause)))
       (head_commit G o'))))"

definition commit_working_tree :: "'g git_program \<Rightarrow> clone_options \<Rightarrow> string \<Rightarrow> ('g, string option) clone_prog" where
  "commit_working_tree G o' message = io_bind (git G o' [''add'', ''-A'']) (\<lambda>_.
     io_bind (git G o' [''diff'', ''--cached'', ''--name-only'']) (\<lambda>staged.
     if trim staged = [] then io_return None
     else io_then (commit_staged G o' message []) (io_bind (head_commit G o') (\<lambda>c. io_return (Some c)))))"

definition has_working_tree_changes :: "'g git_program \<Rightarrow> clone_options \<Rightarrow> ('g, bool) clone_prog" where
  "has_working_tree_changes G o' = io_bind (git G o' [''status'', ''--porcelain'']) (\<lambda>out. io_return (trim out \<noteq> []))"

subsection \<open>Publishing later (syncer.ts)\<close>

record retry_result =
  rr_pushed :: bool
  rr_commits :: nat

definition retry_unpushed :: "'g git_program \<Rightarrow> clone_options \<Rightarrow> ('g, retry_result) clone_prog" where
  "retry_unpushed G o' = io_bind (io_catch (unpushed_commits G o') (\<lambda>_. io_return [])) (\<lambda>pending.
     if pending = [] then io_return \<lparr>rr_pushed = False, rr_commits = 0\<rparr>
     else io_bind (push G o') (\<lambda>r. io_return \<lparr>rr_pushed = ps_pushed r, rr_commits = (if ps_pushed r then length pending else 0)\<rparr>))"

subsection \<open>The deploy key (deploy-key.ts)\<close>

text \<open>\<open>mode\<close> is what \<open>stat\<close> gives: the permission bits, or an error. The copy is followed by a \<open>chmod\<close>.\<close>

definition prepare_deploy_key :: "(path \<Rightarrow> nat fio) \<Rightarrow> path option \<Rightarrow> path \<Rightarrow> path option fio" where
  "prepare_deploy_key mode p private_dir = (case p of None \<Rightarrow> io_return None | Some k \<Rightarrow>
     if k = [] then io_return None else
     io_catch (io_bind (mode k) (\<lambda>m.
       if (m mod 512) mod 64 = 0 then io_return (Some k)
       else let target = private_dir @ ''/deploy_key'' in
         io_bind (read_file k) (\<lambda>t. io_then (write_file target t) (io_then (fs_step id) (io_return (Some target))))))
       (\<lambda>_. io_return None))"

subsection \<open>Which commands run\<close>

text \<open>\<open>ran s s' cs\<close>: from \<open>s\<close> to \<open>s'\<close> exactly the commands \<open>cs\<close> ran, each with whether it succeeded.\<close>

definition ran :: "'g clone \<Rightarrow> 'g clone \<Rightarrow> (string list \<times> bool) list \<Rightarrow> bool" where
  "ran s s' cs = (cl_log s' = cl_log s @ cs)"

lemma ran_git: "git G o' args s = (r, s') \<Longrightarrow> ran s s' [(args, \<not> isl r)]"
  by (auto simp: git_def ran_def isl_map_sum split: prod.splits)

lemma ran_none [simp]: "ran s s []"
  by (simp add: ran_def)

lemma ran_trans: "ran s s' cs \<Longrightarrow> ran s' s'' ds \<Longrightarrow> ran s s'' (cs @ ds)"
  by (simp add: ran_def)

text \<open>Programs that run commands of a kind only.\<close>

definition runs :: "(string list \<Rightarrow> bool) \<Rightarrow> ('g, 'a) clone_prog \<Rightarrow> bool" where
  "runs C m = (\<forall>s r s'. m s = (r, s') \<longrightarrow> (\<exists>cs. ran s s' cs \<and> list_all (\<lambda>(c, _). C c) cs))"

named_theorems runs_intros \<open>which commands a program runs\<close>

lemma runs_git [runs_intros]: "C args \<Longrightarrow> runs C (git G o' args)"
  unfolding runs_def using ran_git by fastforce

lemma runs_in_tree [runs_intros]: "runs C (in_tree m)"
  by (auto simp: runs_def in_tree_def ran_def split: prod.splits intro!: exI [of _ "[]"])

lemma runs_basic [runs_intros]: "runs C (io_return x)" "runs C (io_throw e)" "runs C (io_lift r)"
  by (auto simp: runs_def io_return_def io_throw_def io_lift_def intro!: exI [of _ "[]"])

lemma runs_bind [runs_intros]:
  assumes "runs C m" and "\<And>x. runs C (f x)"
  shows "runs C (io_bind m f)"
  unfolding runs_def
proof (intro allI impI)
  fix s r s' assume run: "io_bind m f s = (r, s')"
  obtain r1 s1 where m: "m s = (r1, s1)" by fastforce
  obtain cs where cs: "ran s s1 cs" "list_all (\<lambda>(c, _). C c) cs" using assms(1) m unfolding runs_def by blast
  show "\<exists>cs. ran s s' cs \<and> list_all (\<lambda>(c, _). C c) cs"
  proof (cases r1)
    case (Inl e)
    then show ?thesis using run cs by (auto simp: io_bind_def m)
  next
    case (Inr x)
    then have "f x s1 = (r, s')" using run by (simp add: io_bind_def m)
    then obtain ds where "ran s1 s' ds" "list_all (\<lambda>(c, _). C c) ds" using assms(2) unfolding runs_def by blast
    then show ?thesis using cs ran_trans by (intro exI [of _ "cs @ ds"]) auto
  qed
qed

lemma runs_then [runs_intros]: "runs C m \<Longrightarrow> runs C n \<Longrightarrow> runs C (io_then m n)"
  unfolding io_then_def by (rule runs_bind)

lemma runs_catch [runs_intros]:
  assumes "runs C m" and "\<And>e. runs C (h e)"
  shows "runs C (io_catch m h)"
  unfolding runs_def
proof (intro allI impI)
  fix s r s' assume run: "io_catch m h s = (r, s')"
  obtain r1 s1 where m: "m s = (r1, s1)" by fastforce
  obtain cs where cs: "ran s s1 cs" "list_all (\<lambda>(c, _). C c) cs" using assms(1) m unfolding runs_def by blast
  show "\<exists>cs. ran s s' cs \<and> list_all (\<lambda>(c, _). C c) cs"
  proof (cases r1)
    case (Inr x)
    then show ?thesis using run cs by (auto simp: io_catch_def m)
  next
    case (Inl e)
    then have "h e s1 = (r, s')" using run by (simp add: io_catch_def m)
    then obtain ds where "ran s1 s' ds" "list_all (\<lambda>(c, _). C c) ds" using assms(2) unfolding runs_def by blast
    then show ?thesis using cs ran_trans by (intro exI [of _ "cs @ ds"]) auto
  qed
qed

lemma runs_for [runs_intros]: "(\<And>x. runs C (f x)) \<Longrightarrow> runs C (io_for f xs)"
  by (induction xs) (simp_all add: runs_basic runs_then)

lemma runs_read_each [runs_intros]: "(\<And>p. runs C (f p)) \<Longrightarrow> runs C (read_each key f ps m)"
  by (induction key f ps m rule: read_each.induct) (auto intro!: runs_intros)

subsection \<open>Publishing\<close>

text \<open>The commands a push may run: none of them rewrites what the remote already has.\<close>

definition publishing :: "string list \<Rightarrow> bool" where
  "publishing c = (c = [''remote''] \<or> (\<exists>r. c = [''push'', r, ''HEAD:main''] \<or> c = [''fetch'', r, ''main''])
     \<or> c = [''rebase'', ''FETCH_HEAD''] \<or> c = [''rebase'', ''--abort''])"

lemma git_cases: obtains r s' where "git G o' args s = (r, s')" "cl_log s' = cl_log s @ [(args, \<not> isl r)]"
  using ran_git [unfolded ran_def] by (metis surj_pair)

lemma remote_name_cases:
  obtains x b s' where "remote_name G o' s = (Inr x, s')" "cl_log s' = cl_log s @ [([''remote''], b)]"
proof -
  obtain r s' where "git G o' [''remote''] s = (r, s')" "cl_log s' = cl_log s @ [([''remote''], \<not> isl r)]" by (rule git_cases)
  then show ?thesis using that by (cases r) (auto simp: remote_name_def io_catch_def io_bind_def io_return_def Let_def)
qed

text \<open>What a push comes to, with the commands it ran.\<close>

definition push_outcome :: "push_result \<Rightarrow> (string list \<times> bool) list \<Rightarrow> bool" where
  "push_outcome res cs = (list_all (\<lambda>(c, _). publishing c) cs
     \<and> (ps_pushed res \<longleftrightarrow> (\<exists>r. List.last cs = ([''push'', r, ''HEAD:main''], True)))
     \<and> (([''rebase'', ''FETCH_HEAD''], False) \<in> set cs \<longrightarrow> fst (List.last cs) = [''rebase'', ''--abort'']))"

lemma rebase_and_push_outcome:
  "\<exists>res s' cs. rebase_and_push G o' r e s = (Inr res, s') \<and> cl_log s' = cl_log s @ cs \<and> cs \<noteq> [] \<and> push_outcome res cs"
proof -
  obtain r1 s1 where f: "git G o' [''fetch'', r, ''main''] s = (r1, s1)" "cl_log s1 = cl_log s @ [([''fetch'', r, ''main''], \<not> isl r1)]" by (rule git_cases)
  obtain r2 s2 where b: "git G o' [''rebase'', ''FETCH_HEAD''] s1 = (r2, s2)" "cl_log s2 = cl_log s1 @ [([''rebase'', ''FETCH_HEAD''], \<not> isl r2)]" by (rule git_cases)
  obtain r3 s3 where a: "git G o' [''rebase'', ''--abort''] s2 = (r3, s3)" "cl_log s3 = cl_log s2 @ [([''rebase'', ''--abort''], \<not> isl r3)]" by (rule git_cases)
  obtain r4 s4 where p: "git G o' [''push'', r, ''HEAD:main''] s2 = (r4, s4)" "cl_log s4 = cl_log s2 @ [([''push'', r, ''HEAD:main''], \<not> isl r4)]" by (rule git_cases)
  show ?thesis
    using f b a p
    by (cases r1; cases r2; cases r3; cases r4)
      (auto simp: rebase_and_push_def io_then_def io_bind_def io_catch_def io_return_def push_outcome_def publishing_def pushed_def not_pushed_def)
qed

lemma push_outcomes:
  "\<exists>res s' cs. push G o' s = (Inr res, s') \<and> cl_log s' = cl_log s @ cs \<and> cs \<noteq> [] \<and> push_outcome res cs"
proof -
  obtain x b s1 where r: "remote_name G o' s = (Inr x, s1)" "cl_log s1 = cl_log s @ [([''remote''], b)]" by (rule remote_name_cases)
  show ?thesis
  proof (cases x)
    case None
    then show ?thesis using r by (auto simp: push_def io_bind_def io_return_def push_outcome_def publishing_def not_pushed_def)
  next
    case (Some remote)
    obtain r2 s2 where p: "git G o' [''push'', remote, ''HEAD:main''] s1 = (r2, s2)"
        "cl_log s2 = cl_log s1 @ [([''push'', remote, ''HEAD:main''], \<not> isl r2)]" by (rule git_cases)
    show ?thesis
    proof (cases r2)
      case (Inr out)
      then show ?thesis using r p Some by (auto simp: push_def io_bind_def io_catch_def io_return_def push_outcome_def publishing_def pushed_def)
    next
      case (Inl e)
      obtain res s' cs where b: "rebase_and_push G o' remote e s2 = (Inr res, s')" "cl_log s' = cl_log s2 @ cs" "cs \<noteq> []" "push_outcome res cs"
        using rebase_and_push_outcome by blast
      have "push G o' s = (Inr res, s')" using r p(1) Inl Some b(1) by (simp add: push_def io_bind_def io_catch_def)
      moreover have "push_outcome res ([([''remote''], b), ([''push'', remote, ''HEAD:main''], False)] @ cs)"
        using b(3,4) by (auto simp: push_outcome_def publishing_def)
      ultimately show ?thesis using r p Inl b(2) by fastforce
    qed
  qed
qed

text \<open>C31: publishing is honest and never destroys history. A push never throws; it says published exactly when its
  last command was a push of HEAD that Git accepted; nothing it runs forces a ref or merges; and a rebase
  that fails is aborted before it returns.\<close>

theorem push_is_honest:
  "\<exists>res s' cs. push G o' s = (Inr res, s') \<and> cl_log s' = cl_log s @ cs
    \<and> (ps_pushed res = (\<exists>r. cs \<noteq> [] \<and> List.last cs = ([''push'', r, ''HEAD:main''], True)))
    \<and> list_all (\<lambda>(c, _). publishing c) cs
    \<and> (([''rebase'', ''FETCH_HEAD''], False) \<in> set cs \<longrightarrow> cs \<noteq> [] \<and> fst (List.last cs) = [''rebase'', ''--abort''])"
proof -
  obtain res s' cs where "push G o' s = (Inr res, s')" "cl_log s' = cl_log s @ cs" "cs \<noteq> []" "push_outcome res cs"
    using push_outcomes by blast
  then show ?thesis by (auto simp: push_outcome_def)
qed


subsection \<open>Reading one commit\<close>

text \<open>The commands that read files at one commit.\<close>

definition reads_at :: "string \<Rightarrow> string \<Rightarrow> string list \<Rightarrow> bool" where
  "reads_at dir commit c = (c = [''ls-tree'', ''-r'', ''--name-only'', ''-z'', commit, ''--'', dir] \<or> (\<exists>p. c = [''show'', commit @ '':'' @ p]))"

lemma head_commit_Inr:
  assumes "head_commit G o' s = (Inr c, s')"
  shows "cl_log s' = cl_log s @ [([''rev-parse'', ''HEAD''], True)]"
proof -
  obtain r s1 where "git G o' [''rev-parse'', ''HEAD''] s = (r, s1)" "cl_log s1 = cl_log s @ [([''rev-parse'', ''HEAD''], \<not> isl r)]" by (rule git_cases)
  then show ?thesis using assms by (cases r) (auto simp: head_commit_def io_bind_def io_return_def)
qed

lemma list_yaml_files_runs: "runs (reads_at dir commit) (list_yaml_files G o' commit dir)"
  unfolding list_yaml_files_def by (auto intro!: runs_intros simp: reads_at_def)

lemma show_file_runs: "runs (reads_at dir commit) (show_file G o' commit p)"
  unfolding show_file_def by (auto intro!: runs_intros simp: reads_at_def)

lemma read_each_keys:
  "read_each key f ps m s = (Inr m', s') \<Longrightarrow> fst ` set m' = fst ` set m \<union> {k. \<exists>p \<in> set ps. key p = Inr k}"
proof (induction ps arbitrary: m s)
  case Nil
  then show ?case by (simp add: io_return_def)
next
  case (Cons p ps)
  obtain k where k: "key p = Inr k" using Cons.prems by (cases "key p") (auto simp: io_bind_def io_lift_def)
  obtain t s1 where t: "f p s = (Inr t, s1)"
    using Cons.prems k by (cases "f p s") (auto simp: io_bind_def io_lift_def split: sum.splits)
  have "read_each key f ps (AList.update k t m) s1 = (Inr m', s')" using Cons.prems k t by (simp add: io_bind_def io_lift_def)
  from Cons.IH [OF this] show ?case using k by auto
qed

lemma read_each_bad_key:
  "\<exists>p \<in> set ps. key p = Inl e \<Longrightarrow> \<exists>e s'. read_each key f ps m s = (Inl e, s')"
proof (induction ps arbitrary: m s)
  case (Cons p ps)
  show ?case
  proof (cases "key p")
    case (Inl a)
    then show ?thesis by (simp add: io_bind_def io_lift_def)
  next
    case (Inr k)
    then have r: "\<exists>p \<in> set ps. key p = Inl e" using Cons.prems by auto
    show ?thesis
      using Cons.IH [OF r] Inr by (cases "f p s"; cases "fst (f p s)") (auto simp: io_bind_def io_lift_def)
  qed
qed simp

text \<open>A read is of one commit. When the sources are read, HEAD is resolved once, first, and every command
  after it names the commit it gave, which is the one reported; the namespaces are exactly those of the
  YAML files that Git listed, and a file under \<open>config\<close> that is no namespace fails the read.\<close>

theorem sources_of_one_commit:
  assumes "git_read_sources G o' s = (r, s')"
  shows "(\<forall>src. r = Inr src \<longrightarrow> (\<exists>cs ps. cl_log s' = cl_log s @ [([''rev-parse'', ''HEAD''], True)] @ cs
      \<and> list_all (\<lambda>(c, _). reads_at ''config'' (src_commit src) c) cs
      \<and> (\<exists>s1 s2. head_commit G o' s = (Inr (src_commit src), s1) \<and> list_yaml_files G o' (src_commit src) ''config'' s1 = (Inr ps, s2))
      \<and> list_all (\<lambda>p. namespace_of_path p = Inr (slice 7 5 p)) ps
      \<and> fst ` set (src_files src) = (\<lambda>p. slice 7 5 p) ` set ps))"
proof (intro allI impI)
  fix src assume r: "r = Inr src"
  obtain c s1 where h: "head_commit G o' s = (Inr c, s1)"
    using assms r by (cases "head_commit G o' s") (auto simp: git_read_sources_def io_bind_def split: sum.splits)
  obtain ps s2 where l: "list_yaml_files G o' c ''config'' s1 = (Inr ps, s2)"
    using assms r h by (cases "list_yaml_files G o' c ''config'' s1") (auto simp: git_read_sources_def io_bind_def split: sum.splits)
  obtain m where m: "read_each namespace_of_path (show_file G o' c) ps [] s2 = (Inr m, s')" "src = \<lparr>src_commit = c, src_files = m\<rparr>"
    using assms r h l by (cases "read_each namespace_of_path (show_file G o' c) ps [] s2")
      (auto simp: git_read_sources_def io_bind_def io_return_def split: sum.splits)
  obtain cs where cs: "ran s1 s2 cs" "list_all (\<lambda>(x, _). reads_at ''config'' c x) cs"
    using list_yaml_files_runs l unfolding runs_def by blast
  have "runs (reads_at ''config'' c) (read_each namespace_of_path (show_file G o' c) ps [])"
    by (rule runs_read_each) (rule show_file_runs)
  then obtain ds where ds: "ran s2 s' ds" "list_all (\<lambda>(x, _). reads_at ''config'' c x) ds"
    using m(1) unfolding runs_def by blast
  have good: "namespace_of_path p = Inr (slice 7 5 p)" if "p \<in> set ps" for p
  proof (cases "namespace_of_path p")
    case (Inl e)
    then have "\<exists>p \<in> set ps. namespace_of_path p = Inl e" using that by blast
    from read_each_bad_key [OF this, of "show_file G o' c" "[]" s2] show ?thesis using m(1) by auto
  next
    case (Inr k)
    then show ?thesis by (simp add: namespace_of_path_def Let_def split: if_splits)
  qed
  have "{k. \<exists>p \<in> set ps. namespace_of_path p = Inr k} = (\<lambda>p. slice 7 5 p) ` set ps" using good by (auto simp: image_iff)
  then have ks: "fst ` set m = (\<lambda>p. slice 7 5 p) ` set ps" using read_each_keys [OF m(1)] by simp
  have log: "cl_log s' = cl_log s @ [([''rev-parse'', ''HEAD''], True)] @ cs @ ds"
    using head_commit_Inr [OF h] cs(1) ds(1) by (simp add: ran_def)
  then show "\<exists>cs ps. cl_log s' = cl_log s @ [([''rev-parse'', ''HEAD''], True)] @ cs
      \<and> list_all (\<lambda>(c, _). reads_at ''config'' (src_commit src) c) cs
      \<and> (\<exists>s1 s2. head_commit G o' s = (Inr (src_commit src), s1) \<and> list_yaml_files G o' (src_commit src) ''config'' s1 = (Inr ps, s2))
      \<and> list_all (\<lambda>p. namespace_of_path p = Inr (slice 7 5 p)) ps \<and> fst ` set (src_files src) = (\<lambda>p. slice 7 5 p) ` set ps"
    using log cs(2) ds(2) h l good m(2) ks
    by (intro exI [of _ "cs @ ds"] exI [of _ ps]) (auto simp: list_all_iff)
qed

definition demo_git :: "unit git_program" where
  "demo_git env args = io_return (if args = [''rev-parse'', ''HEAD''] then ''c0ffee'' @ [line_feed]
     else if hd args = ''ls-tree'' then ''config/iam/dev.yaml'' @ [nul] @ ''config/README'' @ [nul] else ''a: 1'')"

definition demo_options :: clone_options where
  "demo_options = \<lparr>co_dir = ''/repo'', co_ssh = None, co_pid = 1\<rparr>"

definition demo_clone :: "unit clone" where
  "demo_clone = \<lparr>cl_git = (), cl_files = \<lparr>fs_files = [], fs_clock = 0, fs_fails = (\<lambda>_. False)\<rparr>, cl_log = []\<rparr>"

theorem sources_of_one_commit_witness:
  "\<exists>src cs. git_read_sources demo_git demo_options demo_clone = (Inr src, snd (git_read_sources demo_git demo_options demo_clone))
    \<and> src_commit src = ''c0ffee''
    \<and> cl_log (snd (git_read_sources demo_git demo_options demo_clone)) = [([''rev-parse'', ''HEAD''], True)] @ cs
    \<and> list_all (\<lambda>(c, _). reads_at ''config'' ''c0ffee'' c) cs"
proof -
  let ?run = "git_read_sources demo_git demo_options demo_clone"
  let ?src = "\<lparr>src_commit = ''c0ffee'', src_files = [(''iam/dev'', ''a: 1'')]\<rparr>"
  have "fst ?run = Inr ?src" by code_simp
  then have run: "?run = (Inr ?src, snd ?run)" by (metis prod.collapse)
  have "cl_log demo_clone = []" by (simp add: demo_clone_def)
  then show ?thesis using sources_of_one_commit [OF run] run by fastforce
qed

text \<open>A remote that is ahead, with commits that conflict.\<close>

definition conflicting_git :: "unit git_program" where
  "conflicting_git env args = (if args = [''remote''] then io_return (''origin'' @ [line_feed])
     else if hd args = ''push'' \<or> args = [''rebase'', ''FETCH_HEAD''] then io_throw ''rejected'' else io_return '''')"

theorem push_is_honest_witness:
  "fst (List.last (cl_log (snd (push conflicting_git demo_options demo_clone)))) = [''rebase'', ''--abort'']"
proof -
  obtain res s' cs where p: "push conflicting_git demo_options demo_clone = (Inr res, s')" "cl_log s' = cl_log demo_clone @ cs"
      "([''rebase'', ''FETCH_HEAD''], False) \<in> set cs \<longrightarrow> cs \<noteq> [] \<and> fst (List.last cs) = [''rebase'', ''--abort'']"
    using push_is_honest [of conflicting_git demo_options demo_clone] by blast
  have "([''rebase'', ''FETCH_HEAD''], False) \<in> set (cl_log (snd (push conflicting_git demo_options demo_clone)))" by code_simp
  then show ?thesis using p by (simp add: demo_clone_def)
qed

subsection \<open>The audit trailers (commit-trailers.ts)\<close>

record signer =
  sg_email :: string
  sg_id :: string
  sg_via :: "string option"

record request_context =
  rc_id :: string
  rc_source_ip :: string

record key_change =
  kc_key :: string
  kc_old :: jsval
  kc_new :: jsval

record change_set =
  cs_message :: string
  cs_service :: string
  cs_environment :: string
  cs_keys :: "key_change list"

text \<open>\<open>sha\<close> is SHA-256 in hexadecimal.\<close>

definition hash_value :: "(string \<Rightarrow> string) \<Rightarrow> jsval \<Rightarrow> string" where
  "hash_value sha v = (case v of JUndef \<Rightarrow> ''none'' | JStr s \<Rightarrow> ''sha256:'' @ sha s | _ \<Rightarrow> ''sha256:'' @ sha (json v))"

definition key_trailers :: "(string \<Rightarrow> string) \<Rightarrow> key_change \<Rightarrow> string list" where
  "key_trailers sha k = [''Key: '' @ kc_key k, ''Old-Value-Hash: '' @ hash_value sha (kc_old k), ''New-Value-Hash: '' @ hash_value sha (kc_new k)]"

definition trailers :: "(string \<Rightarrow> string) \<Rightarrow> signer \<Rightarrow> change_set \<Rightarrow> request_context \<Rightarrow> string list" where
  "trailers sha a c q = [''Actor: '' @ sg_email a, ''Actor-Id: '' @ sg_id a]
     @ (case sg_via a of Some v \<Rightarrow> if v \<noteq> [] then [''Signed-In-With: '' @ v] else [] | None \<Rightarrow> [])
     @ [''Service: '' @ cs_service c, ''Environment: '' @ cs_environment c]
     @ concat (map (key_trailers sha) (cs_keys c))
     @ [''Request-Id: '' @ rc_id q, ''Source-IP: '' @ rc_source_ip q]"

definition build_trailers :: "(string \<Rightarrow> string) \<Rightarrow> signer \<Rightarrow> change_set \<Rightarrow> request_context \<Rightarrow> string" where
  "build_trailers sha a c q = (let ls = split_on line_feed (cs_message c); body = trim (join [line_feed] (tl ls)) in
     join [line_feed] ([hd ls, ''''] @ (if body \<noteq> [] then [body, ''''] else []) @ [join [line_feed] (trailers sha a c q)]))"

text \<open>The number one and the string of its digit have one hash, which the comment on \<open>hashValue\<close> denies.\<close>

lemma hash_value_collision: "hash_value sha (JStr ''1'') = hash_value sha (JNum (NInt 1))"
proof -
  have "json (JNum (NInt 1)) = ''1''" by code_simp
  then show ?thesis by (simp add: hash_value_def)
qed

lemma join_append: "xs \<noteq> [] \<Longrightarrow> ys \<noteq> [] \<Longrightarrow> join sep (xs @ ys) = join sep xs @ sep @ join sep ys"
proof (induction sep xs rule: join.induct)
  case (2 sep x)
  then show ?case by (cases ys) auto
qed auto

lemma message_ends_with_trailers:
  "\<exists>s. build_trailers sha a c q = s @ [line_feed, line_feed] @ join [line_feed] (trailers sha a c q)"
proof -
  let ?t = "[join [line_feed] (trailers sha a c q)]"
  have "join [line_feed] ((xs @ ['''']) @ ?t) = join [line_feed] xs @ [line_feed, line_feed] @ join [line_feed] (trailers sha a c q)" if "xs \<noteq> []" for xs
    using that by (subst join_append) (simp_all add: join_append)
  from this [of "[hd (split_on line_feed (cs_message c))]"]
    this [of "[hd (split_on line_feed (cs_message c)), '''', trim (join [line_feed] (tl (split_on line_feed (cs_message c))))]"]
  show ?thesis by (auto simp: build_trailers_def Let_def)
qed

end
