(* ===== verification/Services.thy ===== *)
theory Services
  imports EngineProps Loader Schema Backup
begin

section \<open>Services over the database (src/schema/*-service.ts, src/flags, db-repository-view.ts, bootstrap-db.ts)\<close>

text \<open>
  The global schema is saved only when everything stored still conforms to it; a feature flag is set by
  reading the flag document, changing one value and writing it back; the view gives the loader what the
  database holds; and the first boot copies a clone into an empty database.
\<close>

subsection \<open>The schema\<close>

definition service_of :: "string \<Rightarrow> string" where
  "service_of ns = (case split_on (CHR ''/'') ns of s # _ \<Rightarrow> s | [] \<Rightarrow> '''')"

definition environment_part :: "string \<Rightarrow> string" where
  "environment_part ns = (case split_on (CHR ''/'') ns of _ # e # _ \<Rightarrow> e | _ \<Rightarrow> '''')"

text \<open>What is wrong with one stored document under a candidate schema.\<close>

definition stored_problems :: "yaml \<Rightarrow> decryptor \<Rightarrow> urls \<Rightarrow> schema_set \<Rightarrow> string \<times> string \<Rightarrow> problem list" where
  "stored_problems yaml decrypt urls S = (\<lambda>(ns, source). case resolve_one yaml decrypt ns source of
     Inl e \<Rightarrow> [(ns, ''could not validate '' @ service_of ns @ ''/'' @ environment_part ns @ '': '' @ e)]
   | Inr config \<Rightarrow> (case validate urls S (service_of ns) config of
       Inl errors \<Rightarrow> map (\<lambda>(k, m). (ns @ ''.'' @ k, m)) errors | Inr _ \<Rightarrow> []))"

definition validate_existing :: "yaml \<Rightarrow> decryptor \<Rightarrow> urls \<Rightarrow> schema_set \<Rightarrow> (string \<times> string) list \<Rightarrow> problem list + unit" where
  "validate_existing yaml decrypt urls S sources = (let errors = concat (map (stored_problems yaml decrypt urls S) sources)
     in if errors \<noteq> [] then Inl errors else Inr ())"

datatype save_result =
    Saved nat string
  | SaveUnchanged nat string
  | SaveConflict string nat
  | SaveInvalid "problem list"

definition save_result_of :: "write_result \<Rightarrow> save_result" where
  "save_result_of r = (case r of WWritten e n \<Rightarrow> Saved n e | WUnchanged e n \<Rightarrow> SaveUnchanged n e
     | WConflict _ _ actual n \<Rightarrow> SaveConflict (flat actual) n | WInvalid _ errors _ \<Rightarrow> SaveInvalid errors)"

definition schema_request :: "string \<Rightarrow> string option \<Rightarrow> request" where
  "schema_request source expected = \<lparr>rq_path = ''schema.yaml'', rq_content = Some source, rq_expected = map_option Some expected,
     rq_validate = (\<lambda>_. []), rq_actor = None, rq_keys = []\<rparr>"

definition schema_save :: "yaml \<Rightarrow> dump \<Rightarrow> urls \<Rightarrow> decryptor \<Rightarrow> (string \<Rightarrow> string) \<Rightarrow> string \<Rightarrow> string \<Rightarrow> string option \<Rightarrow> save_result io" where
  "schema_save yaml dump urls decrypt sha t source expected = (case meta_validate yaml dump urls source of
     Inl errors \<Rightarrow> io_return (SaveInvalid errors)
   | Inr S \<Rightarrow> io_bind (engine_snapshot sha ''config'') (\<lambda>(_, fs).
       case validate_existing yaml decrypt urls S (namespace_sources fs) of
         Inl errors \<Rightarrow> io_return (SaveInvalid errors)
       | Inr _ \<Rightarrow> io_bind (engine_write sha t (schema_request source expected)) (\<lambda>r. io_return (save_result_of r))))"

subsection \<open>Flag documents\<close>

type_synonym flag_document = "(string \<times> (string \<times> bool) list) list"

definition flag_name :: "string \<Rightarrow> bool" where
  "flag_name s = (s \<noteq> [] \<and> is_upper (hd s) \<and> list_all (\<lambda>c. is_upper c \<or> is_lower c \<or> is_digit c) s)"

definition flag_value_problem :: "(string \<Rightarrow> bool) \<Rightarrow> string \<Rightarrow> string \<times> jsval \<Rightarrow> problem option" where
  "flag_value_problem has name = (\<lambda>(env, v).
     if \<not> has env then Some (name @ ''.'' @ env, ''unknown env '' @ quoted env)
     else case v of JBool _ \<Rightarrow> None | _ \<Rightarrow> Some (name @ ''.'' @ env, ''flag value must be true or false''))"

definition flag_problems :: "(string \<Rightarrow> bool) \<Rightarrow> string \<times> jsval \<Rightarrow> problem list" where
  "flag_problems has = (\<lambda>(name, raw).
     (if flag_name name then [] else [(name, ''flag name must be TitleCase'')])
     @ (if is_record raw then List.map_filter (flag_value_problem has name) (obj_of raw)
        else [(name, ''flag values must be an env mapping'')]))"

definition flag_of :: "jsval \<Rightarrow> bool option" where
  "flag_of v = (case v of JBool b \<Rightarrow> Some b | _ \<Rightarrow> None)"

definition flag_values_of :: "(string \<Rightarrow> bool) \<Rightarrow> jsval \<Rightarrow> (string \<times> bool) list" where
  "flag_values_of has raw = List.map_filter (\<lambda>(env, v). if has env then map_option (Pair env) (flag_of v) else None) (obj_of raw)"

definition flags_shape :: "jsval \<Rightarrow> bool" where
  "flags_shape parsed = (is_record parsed \<and> prop_of parsed ''version'' = JNum (NInt 1) \<and> is_record (prop_of parsed ''flags''))"

definition validate_flags :: "yaml \<Rightarrow> (string \<Rightarrow> bool) \<Rightarrow> string \<Rightarrow> problem list + flag_document" where
  "validate_flags yaml has source = (case yaml source of
     Inl _ \<Rightarrow> Inl [(''*'', ''flags.yaml is not valid YAML'')]
   | Inr parsed \<Rightarrow> if \<not> flags_shape parsed then Inl [(''*'', ''flags.yaml must contain version: 1 and a flags mapping'')]
       else let fs = obj_of (prop_of parsed ''flags''); errors = concat (map (flag_problems has) fs) in
         if errors \<noteq> [] then Inl errors
         else Inr (map (\<lambda>(name, raw). (name, flag_values_of has raw)) (filter (\<lambda>(_, raw). is_record raw) fs)))"

definition flag_names :: "flag_document \<Rightarrow> string list" where
  "flag_names d = keys d"

definition flag_value :: "flag_document \<Rightarrow> string \<Rightarrow> string \<Rightarrow> bool" where
  "flag_value d name env = (case map_of d name of None \<Rightarrow> False
     | Some vs \<Rightarrow> (case map_of vs env of None \<Rightarrow> False | Some b \<Rightarrow> b))"

definition resolve_for :: "flag_document \<Rightarrow> string \<Rightarrow> (string \<times> bool) list" where
  "resolve_for d env = map (\<lambda>name. (name, flag_value d name env)) (flag_names d)"

subsection \<open>Writing flags\<close>

definition read_flags :: "yaml \<Rightarrow> (string \<Rightarrow> bool) \<Rightarrow> (string \<Rightarrow> string) \<Rightarrow> flag_document io" where
  "read_flags yaml has sha = io_bind (engine_read sha ''flags.yaml'') (\<lambda>source. io_return (case source of
     None \<Rightarrow> [] | Some s \<Rightarrow> if s = [] then [] else (case validate_flags yaml has s of Inl _ \<Rightarrow> [] | Inr d \<Rightarrow> d)))"

definition flag_get :: "yaml \<Rightarrow> (string \<Rightarrow> bool) \<Rightarrow> (string \<Rightarrow> string) \<Rightarrow> string \<Rightarrow> string \<Rightarrow> bool io" where
  "flag_get yaml has sha name env = io_bind (read_flags yaml has sha) (\<lambda>d. io_return (flag_value d name env))"

definition no_flags :: jsval where
  "no_flags = JObj [(''version'', JNum (NInt 1)), (''flags'', JObj [])]"

definition set_flag :: "string \<Rightarrow> string \<Rightarrow> bool \<Rightarrow> jsval \<Rightarrow> jsval" where
  "set_flag name env b parsed = (let
     document = (if is_record parsed \<and> is_record (prop_of parsed ''flags'') then parsed else no_flags);
     fs = obj_of (prop_of document ''flags'');
     vs = (case map_of fs name of Some (JObj vs) \<Rightarrow> vs | _ \<Rightarrow> [])
   in JObj (AList.update ''flags'' (JObj (AList.update name (JObj (AList.update env (JBool b) vs)) fs)) (obj_of document)))"

definition flag_errors :: "yaml \<Rightarrow> (string \<Rightarrow> bool) \<Rightarrow> string \<Rightarrow> problem list" where
  "flag_errors yaml has source = (case validate_flags yaml has source of Inl es \<Rightarrow> es | Inr _ \<Rightarrow> [])"

definition flag_request :: "yaml \<Rightarrow> (string \<Rightarrow> bool) \<Rightarrow> string \<Rightarrow> string \<Rightarrow> string option \<Rightarrow> string option \<Rightarrow> request" where
  "flag_request yaml has name source expected who = \<lparr>rq_path = ''flags.yaml'', rq_content = Some source, rq_expected = map_option Some expected,
     rq_validate = flag_errors yaml has, rq_actor = who, rq_keys = [name]\<rparr>"

definition current_flags :: "yaml \<Rightarrow> string option \<Rightarrow> string + jsval" where
  "current_flags yaml current = (case current of None \<Rightarrow> Inr no_flags | Some s \<Rightarrow> if s = [] then Inr no_flags else yaml s)"

definition flag_set :: "yaml \<Rightarrow> dump \<Rightarrow> (string \<Rightarrow> bool) \<Rightarrow> (string \<Rightarrow> string) \<Rightarrow> string \<Rightarrow> unit io \<Rightarrow> string \<Rightarrow> string \<Rightarrow> bool
    \<Rightarrow> string option \<Rightarrow> string option \<Rightarrow> save_result io" where
  "flag_set yaml dump has sha t on_write name env b expected who =
     io_bind (engine_read sha ''flags.yaml'') (\<lambda>current.
     io_bind (io_lift (current_flags yaml current)) (\<lambda>parsed.
     let source = dump (set_flag name env b parsed) in
     case validate_flags yaml has source of Inl errors \<Rightarrow> io_return (SaveInvalid errors) | Inr _ \<Rightarrow>
       io_bind (engine_write sha t (flag_request yaml has name source expected who)) (\<lambda>r.
         let output = save_result_of r in
         case output of Saved _ _ \<Rightarrow> io_then on_write (io_return output) | _ \<Rightarrow> io_return output)))"

subsection \<open>The repository-shaped view (db-repository-view.ts)\<close>

definition view_sources :: "(string \<Rightarrow> string) \<Rightarrow> sources io" where
  "view_sources sha = io_bind (engine_snapshot sha ''config'') (\<lambda>(n, fs).
     io_return \<lparr>src_commit = nat_str n, src_files = namespace_sources fs\<rparr>)"

definition view_file :: "(string \<Rightarrow> string) \<Rightarrow> path \<Rightarrow> string io" where
  "view_file sha p = io_bind (engine_read sha p) (\<lambda>source. case source of
     None \<Rightarrow> io_throw (p @ '' is absent'') | Some s \<Rightarrow> io_return s)"

subsection \<open>First boot (bootstrap-db.ts, discard-legacy-work.ts, break-glass-source.ts)\<close>

text \<open>Copying one file of the clone; \<open>cp\<close> creates the file and then fills it.\<close>

definition copy_in :: "path \<times> string \<Rightarrow> unit io" where
  "copy_in = (\<lambda>(p, c). io_then (io_step (put_file (Db p) '''')) (io_step (put_file (Db p) c)))"

definition bootstrap_db :: "(path \<times> string) list \<Rightarrow> bool io" where
  "bootstrap_db bare = io_then ensure_directory (io_bind (io_read (\<lambda>w. files w = [] \<and> dirs w = [])) (\<lambda>empty.
     if \<not> empty then io_return False
     else io_then (io_for copy_in (filter (\<lambda>(p, _). hd (split_on (CHR ''/'') p) \<noteq> ''.git'') bare)) (io_return True)))"

definition bootstrap_from :: "(string \<Rightarrow> string) \<Rightarrow> (path \<times> string) list \<Rightarrow> bool io" where
  "bootstrap_from sha bare = io_bind (bootstrap_db bare) (\<lambda>b. io_then (recover sha) (io_return b))"

text \<open>\<open>lstat\<close> tells whether a path is a regular file, or throws.\<close>

definition discard_legacy_work :: "(path \<Rightarrow> bool fio) \<Rightarrow> path \<Rightarrow> bool fio" where
  "discard_legacy_work lstat p = io_bind (missing_as None (io_bind (lstat p) (\<lambda>b. io_return (Some b)))) (\<lambda>st. case st of
     None \<Rightarrow> io_return False
   | Some is_file \<Rightarrow> if \<not> is_file then io_throw ''legacy work path must be a regular file''
       else io_then (remove_file p) (io_return True))"

definition break_glass_reader :: "(path \<Rightarrow> 'a) \<Rightarrow> (path \<Rightarrow> 'a) \<Rightarrow> path \<Rightarrow> 'a" where
  "break_glass_reader from_repository from_filesystem p = (if starts_with ''/'' p then from_filesystem p else from_repository p)"

subsection \<open>A single write over what is served\<close>

text \<open>What a caller of \<open>write\<close> finds afterwards, for the outcomes of the two services.\<close>

definition stored_as :: "(path \<Rightarrow> string option) \<Rightarrow> path \<Rightarrow> string \<Rightarrow> path \<Rightarrow> string option" where
  "stored_as A p c = A(p \<mapsto> c)"

definition one_write :: "(string \<Rightarrow> string) \<Rightarrow> (path \<Rightarrow> string option) \<Rightarrow> nat \<Rightarrow> request \<Rightarrow> string \<Rightarrow> save_result \<Rightarrow> world \<Rightarrow> bool" where
  "one_write sha A n r c out w = (case out of
     Saved m e \<Rightarrow> m = Suc n \<and> fresh sha A r \<and> rq_validate r c = [] \<and> serving (stored_as A (rq_path r) c) (Suc n) w
   | SaveUnchanged m e \<Rightarrow> m = n \<and> fresh sha A r \<and> rq_validate r c = [] \<and> A (rq_path r) = Some c \<and> serving A n w
   | SaveConflict e m \<Rightarrow> \<not> fresh sha A r \<and> serving A n w
   | SaveInvalid es \<Rightarrow> es \<noteq> [] \<and> serving A n w)"

lemma written_db_one:
  assumes "rq_content r = Some c" and "\<forall>c'. A (rq_path r) = Some c' \<longrightarrow> sha c = sha c' \<longrightarrow> c = c'"
  shows "written_db sha [r] A = stored_as A (rq_path r) c"
  using written_db_exact [of "[r]" A sha] assms by (auto simp: stored_as_def fun_eq_iff)

lemma engine_write_run:
  assumes call: "call_ok sha t [r] [] []" and serving: "serving A n w" and c: "rq_content r = Some c"
    and apart: "\<forall>c'. A (rq_path r) = Some c' \<longrightarrow> sha c = sha c' \<longrightarrow> c = c'"
    and run: "engine_write sha t r w = (Inr res, w')"
  shows "one_write sha A n r c (save_result_of res) w'"
proof -
  obtain x w1 where x: "write_many sha t [r] [] [] w = (x, w1)" by fastforce
  then obtain b where b: "x = Inr b" using run by (cases x) (auto simp: engine_write_def io_bind_def)
  have spec: "write_spec sha A n [r] [] [] b w1"
    using tripleD [OF write_many_serving [OF call] serving x] b by simp
  have path: "database_path (rq_path r) = Inr (rq_path r)" using call by (simp add: call_ok_def write_paths_def)
  have db: "written_db sha [r] A = stored_as A (rq_path r) c" by (rule written_db_one) (use c apart in auto)
  show ?thesis
  proof (cases b)
    case (BWritten m es)
    then show ?thesis using run x b spec
      by (auto simp: engine_write_def io_bind_def io_return_def save_result_of_def one_write_def write_spec_def admitted_def request_errors_def c db)
  next
    case (BUnchanged m es)
    moreover have "A (rq_path r) = Some c" if "same sha A r"
      using that c apart by (cases "A (rq_path r)") (auto simp: same_def)
    ultimately show ?thesis using run x b spec
      by (auto simp: engine_write_def io_bind_def io_return_def save_result_of_def one_write_def write_spec_def admitted_def request_errors_def c)
  next
    case (BConflict p a m)
    then show ?thesis using run x b spec
      by (auto simp: engine_write_def io_bind_def io_return_def save_result_of_def one_write_def write_spec_def conflict_at_def)
  next
    case (BInvalid p es)
    then have s: "serving A n w1" "es \<noteq> []" using spec BInvalid by (auto simp: write_spec_def)
    obtain y w2 where y: "engine_etag sha (rq_path r) w1 = (y, w2)" by fastforce
    obtain e where e: "y = Inr e" using run x b BInvalid y by (cases y) (auto simp: engine_write_def io_bind_def)
    have "serving A n w2" using tripleD [OF engine_etag_triple [OF path] serving_ok [OF s(1)] y] e by simp
    moreover obtain z w3 where z: "engine_revision sha w2 = (z, w3)" by fastforce
    moreover obtain m where m: "z = Inr m" using run x b BInvalid y e z by (cases z) (auto simp: engine_write_def io_bind_def)
    ultimately have "serving A n w3" using tripleD [OF engine_revision_triple serving_ok z] by simp
    moreover have "w' = w3" "res = WInvalid (flat e) es m"
      using run x b BInvalid y e z m by (auto simp: engine_write_def io_bind_def io_return_def)
    ultimately show ?thesis using s(2)
      by (simp add: engine_write_def io_bind_def io_return_def save_result_of_def one_write_def)
  qed
qed

subsection \<open>The namespaces of a snapshot\<close>

lemma set_map_filter: "y \<in> set (List.map_filter f xs) \<longleftrightarrow> (\<exists>x \<in> set xs. f x = Some y)"
  by (induction xs) (auto split: option.splits)

lemma snapshot_under:
  assumes "database_path base = Inr base" and "base \<noteq> ''''"
  shows "(p, c) \<in> set (snapshot_files base w) \<longleftrightarrow> (Db p, c) \<in> set (files w) \<and> starts_with (base @ ''/'') p"
proof -
  have hd: "hd base \<noteq> CHR ''.''"
  proof
    assume h: "hd base = CHR ''.''"
    obtain s where s: "base = CHR ''.'' # s" using h assms(2) by (cases base) auto
    then have "bad_part (hd (split_on (CHR ''/'') base))"
      by (auto simp: bad_part_def starts_with_def split: list.split)
    then have "list_ex bad_part (split_on (CHR ''/'') base)"
      using split_on_not_Nil [of "CHR ''/''" base] by (cases "split_on (CHR ''/'') base") auto
    then show False using assms(1) by (simp add: database_path_def split: if_splits)
  qed
  have no_temp: "\<not> starts_with (base @ ''/'') (temp_name n)" for n
    using hd assms(2) by (cases base) (auto simp: starts_with_def temp_name_def)
  show ?thesis
  proof (cases "starts_with (base @ ''/'') p")
    case True
    then have "visible x = Some (p, c) \<longleftrightarrow> x = (Db p, c)" for x
      using no_temp by (cases x rule: visible.cases) auto
    then have "(p, c) \<in> set (List.map_filter visible (files w)) \<longleftrightarrow> (Db p, c) \<in> set (files w)" by (simp add: set_map_filter)
    then show ?thesis using True assms(2) by (simp add: snapshot_files_def under_def)
  qed (use assms(2) in \<open>simp add: snapshot_files_def under_def\<close>)
qed

lemma snapshot_run:
  assumes "serving A n w" and "engine_snapshot sha base w = (Inr (m, fs), w')" and "database_path base = Inr base" and "base \<noteq> ''''"
  shows "w' = w \<and> m = n \<and> fs = snapshot_files base w"
proof -
  have h: "recover sha w = (Inr (), w)" "assert_healthy w = (Inr (), w)" "revision_unlocked w = (Inr n, w)"
    using serving_recover_run [OF assms(1)] serving_healthy_run [OF assms(1)] serving_revision_run [OF assms(1)] by auto
  have l: "assert_no_symlinks base w = (Inr (), w) \<or> (\<exists>e. assert_no_symlinks base w = (Inl e, w))"
    by (simp add: assert_no_symlinks_def io_bind_def io_lift_def io_read_def io_return_def io_throw_def assms(3))
  show ?thesis using assms(2,4) h l
    by (auto simp: engine_snapshot_def assms(3) io_then_def io_bind_def io_lift_def io_return_def io_read_def io_throw_def split: if_splits)
qed

lemma namespace_file_path:
  assumes "starts_with ''config/'' p" and "namespace_file p = Some ns"
  shows "p = config_path ns"
proof -
  obtain q where p: "p = ''config/'' @ q" using assms(1) by (auto simp: starts_with_iff)
  obtain u where u: "p = u @ ''.yaml''" using assms(2) by (auto simp: namespace_file_def ends_with_iff split: if_splits)
  have ns: "ns = slice 7 5 p" "length (split_on (CHR ''/'') ns) = 2" using assms(2) by (auto simp: namespace_file_def split: if_splits)
  have slice: "slice 7 5 p = take (length q - 5) q" by (simp add: slice_def p)
  have "ns \<noteq> []" using ns(2) by auto
  then have "5 < length q" using ns(1) slice by (cases "5 < length q") auto
  moreover have "length p = 7 + length q" "length p = length u + 5" using p arg_cong [OF u, of length] by simp_all
  ultimately have "7 \<le> length u" by simp
  then have "drop 7 p = drop 7 u @ ''.yaml''" by (simp add: u)
  moreover have "drop 7 p = q" by (simp add: p)
  ultimately have q: "q = drop 7 u @ ''.yaml''" by simp
  have "take (length q - 5) q = drop 7 u" by (subst (2) q, simp add: q)
  then have "q = take (length q - 5) q @ ''.yaml''" using q by simp
  then show ?thesis using ns(1) slice p by (simp add: config_path_def)
qed

lemma namespace_sources_map:
  assumes "\<forall>c'. (config_path ns, c') \<in> set fs \<longrightarrow> c' = c" and "\<forall>(p, c) \<in> set fs. starts_with ''config/'' p"
    and "namespace_file (config_path ns) = Some ns" and "(config_path ns, c) \<in> set fs"
  shows "(ns, c) \<in> set (namespace_sources fs)"
proof -
  let ?f = "\<lambda>m (p, source). case namespace_file p of Some ns \<Rightarrow> AList.update ns source m | None \<Rightarrow> m"
  have "map_of (foldl ?f m xs) ns = (if config_path ns \<in> fst ` set xs then Some c else map_of m ns)"
    if "\<forall>c'. (config_path ns, c') \<in> set xs \<longrightarrow> c' = c" "\<forall>(p, c) \<in> set xs. starts_with ''config/'' p" for m xs
    using that
  proof (induction xs arbitrary: m)
    case (Cons x xs)
    obtain p d where x: "x = (p, d)" by (cases x)
    have IH: "map_of (foldl ?f m xs) ns = (if config_path ns \<in> fst ` set xs then Some c else map_of m ns)" for m
      using Cons.IH Cons.prems by simp
    show ?case
    proof (cases "p = config_path ns")
      case True
      then have "map_of (?f m x) ns = Some c" using Cons.prems(1) assms(3) x by simp
      then show ?thesis using True by (simp add: IH x)
    next
      case False
      then have "namespace_file p \<noteq> Some ns" using namespace_file_path [of p ns] Cons.prems(2) x by auto
      then have "map_of (?f m x) ns = map_of m ns" by (auto simp: x split: option.split)
      then show ?thesis using False by (simp add: IH x)
    qed
  qed simp
  from this [OF assms(1,2), of "[]"] have "map_of (namespace_sources fs) ns = Some c"
    using assms(4) by (force simp: namespace_sources_def)
  then show ?thesis by (rule map_of_SomeD)
qed

text \<open>C32: the schema in force always fits the data. A save that is accepted was of a schema that reads and
  under which every stored document of a namespace decrypts and validates; it then is the stored schema, if
  the caller's etag was that of the one it replaces. Any other answer has changed nothing.\<close>

theorem schema_saved_fits:
  assumes call: "call_ok sha t [schema_request source expected] [] []" and serving: "serving A n w" and d: "distinct (map fst (files w))"
    and apart: "\<forall>c'. A ''schema.yaml'' = Some c' \<longrightarrow> sha source = sha c' \<longrightarrow> source = c'"
    and run: "schema_save yaml dump urls decrypt sha t source expected w = (Inr res, w')"
  shows "case res of
      SaveConflict _ _ \<Rightarrow> serving A n w' | SaveInvalid _ \<Rightarrow> serving A n w'
    | _ \<Rightarrow> (\<exists>S k. meta_validate yaml dump urls source = Inr S \<and> serving (A(''schema.yaml'' \<mapsto> source)) k w'
        \<and> (\<forall>e. expected = Some e \<longrightarrow> map_option sha (A ''schema.yaml'') = Some e)
        \<and> (\<forall>s env c. CHR ''/'' \<notin> set s \<and> CHR ''/'' \<notin> set env \<and> A (config_path (s @ ''/'' @ env)) = Some c \<longrightarrow>
             (\<exists>config. resolve_one yaml decrypt (s @ ''/'' @ env) c = Inr config \<and> validate urls S s config = Inr ())))"
proof (cases "meta_validate yaml dump urls source")
  case (Inl es)
  then show ?thesis using run serving by (auto simp: schema_save_def io_return_def)
next
  case (Inr S)
  have base: "database_path ''config'' = Inr ''config''" by code_simp
  obtain m fs w1 where snap: "engine_snapshot sha ''config'' w = (Inr (m, fs), w1)"
    using run Inr by (cases "engine_snapshot sha ''config'' w") (auto simp: schema_save_def io_bind_def split: sum.splits)
  then have fs: "w1 = w" "fs = snapshot_files ''config'' w" using snapshot_run [OF serving snap base] by simp_all
  show ?thesis
  proof (cases "validate_existing yaml decrypt urls S (namespace_sources fs)")
    case (Inl es)
    then show ?thesis using run Inr snap fs serving by (auto simp: schema_save_def io_bind_def io_return_def)
  next
    case (Inr u)
    have ok: "stored_problems yaml decrypt urls S x = []" if "x \<in> set (namespace_sources fs)" for x
      using Inr that by (auto simp: validate_existing_def Let_def split: if_splits)
    have fits: "\<exists>config. resolve_one yaml decrypt (s @ ''/'' @ env) c = Inr config \<and> validate urls S s config = Inr ()"
      if slash: "CHR ''/'' \<notin> set s" "CHR ''/'' \<notin> set env" and stored: "A (config_path (s @ ''/'' @ env)) = Some c" for s env c
    proof -
      let ?ns = "s @ ''/'' @ env"
      have under: "(p, c) \<in> set fs \<longleftrightarrow> (Db p, c) \<in> set (files w) \<and> starts_with ''config/'' p" for p c
        using snapshot_under [OF base, of p c w] fs(2) by simp
      have "map_of (files w) (Db (config_path ?ns)) = Some c" using serving_db [OF serving] stored by (simp add: file_at_def)
      then have "(Db (config_path ?ns), c') \<in> set (files w) \<longleftrightarrow> c' = c" for c'
        using map_of_eq_Some_iff [OF d, of "Db (config_path ?ns)" c'] by auto
      moreover have "starts_with ''config/'' (config_path ?ns)" by (auto simp: config_path_def starts_with_iff)
      ultimately have mem: "(config_path ?ns, c') \<in> set fs \<longleftrightarrow> c' = c" for c' by (simp add: under)
      have "(?ns, c) \<in> set (namespace_sources fs)"
        by (rule namespace_sources_map) (use mem under namespace_file_config [OF slash] in auto)
      from ok [OF this] have p: "stored_problems yaml decrypt urls S (?ns, c) = []" .
      have "service_of ?ns = s" using slash by (simp add: service_of_def split_on_append)
      moreover have "validate urls S s config \<noteq> Inl []" for config by (auto simp: validate_def Let_def split: option.splits)
      ultimately show ?thesis using p by (auto simp: stored_problems_def split: sum.splits)
    qed
    obtain r where r: "engine_write sha t (schema_request source expected) w = (Inr r, w')" "res = save_result_of r"
      using run \<open>meta_validate yaml dump urls source = Inr S\<close> snap fs Inr
      by (cases "engine_write sha t (schema_request source expected) w") (auto simp: schema_save_def io_bind_def io_return_def split: sum.splits)
    have "one_write sha A n (schema_request source expected) source res w'"
      unfolding r(2) by (rule engine_write_run [OF call serving _ _ r(1)]) (use apart in \<open>simp_all add: schema_request_def\<close>)
    moreover have "A ''schema.yaml'' = Some source \<Longrightarrow> A(''schema.yaml'' \<mapsto> source) = A" by auto
    ultimately show ?thesis using fits \<open>meta_validate yaml dump urls source = Inr S\<close>
      by (cases res) (auto simp: one_write_def stored_as_def schema_request_def fresh_def split: option.splits)
  qed
qed

text \<open>A database with one document, which the schema of the example accepts.\<close>

definition stored_document :: string where
  "stored_document = json (JObj [(''TTL'', JNum (NInt 7))])"

definition fitting_world :: world where
  "fitting_world = (demo_world (\<lambda>_. False))\<lparr>files := [(Db ''config/iam/dev.yaml'', stored_document)]\<rparr>"

definition fitting_db :: "path \<Rightarrow> string option" where
  "fitting_db = [''config/iam/dev.yaml'' \<mapsto> stored_document]"

lemma fitting_serving: "serving fitting_db 0 fitting_world"
  by (auto simp: serving_def steady_def idle_def tidy_def fitting_world_def demo_world_def fitting_db_def revision_of_def file_at_def)

lemma one_call_ok:
  "database_path p = Inr p \<Longrightarrow> rq_path r = p \<Longrightarrow> call_ok demo_sha demo_id [r] [] []"
  using demo_call by (simp add: call_ok_def write_paths_def)

theorem schema_saved_fits_witness:
  "\<exists>config. resolve_one json_yaml (\<lambda>_ s. Inr s) ''iam/dev'' stored_document = Inr config \<and> validate (\<lambda>_. None) demo_schema_set ''iam'' config = Inr ()"
proof -
  let ?r = "schema_request (json demo_schema) None"
  let ?run = "schema_save json_yaml json (\<lambda>_. None) (\<lambda>_ s. Inr s) demo_sha demo_id (json demo_schema) None fitting_world"
  have "map_sum id (\<lambda>r. case r of Saved m _ \<Rightarrow> m | _ \<Rightarrow> 0) (fst ?run) = Inr 1" by code_simp
  then obtain m e where res: "fst ?run = Inr (Saved m e)" by (cases "fst ?run") (auto split: save_result.splits)
  have run: "?run = (Inr (Saved m e), snd ?run)" by (rule prod_eqI) (simp_all add: res)
  have path: "database_path ''schema.yaml'' = Inr ''schema.yaml''" by code_simp
  have call: "call_ok demo_sha demo_id [?r] [] []" by (rule one_call_ok [OF path]) (simp add: schema_request_def)
  have apart: "\<forall>c'. fitting_db ''schema.yaml'' = Some c' \<longrightarrow> demo_sha (json demo_schema) = demo_sha c' \<longrightarrow> json demo_schema = c'"
    by (simp add: fitting_db_def)
  have d: "distinct (map fst (files fitting_world))" by (simp add: fitting_world_def)
  have S: "meta_validate json_yaml json (\<lambda>_. None) (json demo_schema) = Inr S \<longleftrightarrow> S = demo_schema_set" for S
    using demo_schema_read by (auto simp: meta_validate_def)
  have stored: "fitting_db (config_path (''iam'' @ ''/'' @ ''dev'')) = Some stored_document" by (simp add: fitting_db_def config_path_def)
  have "\<forall>s env c. CHR ''/'' \<notin> set s \<and> CHR ''/'' \<notin> set env \<and> fitting_db (config_path (s @ ''/'' @ env)) = Some c \<longrightarrow>
      (\<exists>config. resolve_one json_yaml (\<lambda>_ s. Inr s) (s @ ''/'' @ env) c = Inr config \<and> validate (\<lambda>_. None) demo_schema_set s config = Inr ())"
    using schema_saved_fits [OF call fitting_serving d apart run] S by auto
  from this [rule_format, of "''iam''" "''dev''" stored_document] show ?thesis using stored by simp
qed

subsection \<open>What setting a flag does\<close>

lemma validate_flags_value:
  assumes "validate_flags yaml has source = Inr d" and "yaml source = Inr v" and "json_ok v"
  shows "flag_value d name env = (prop_of (prop_of (prop_of v ''flags'') name) env = JBool True)"
proof -
  let ?fs = "obj_of (prop_of v ''flags'')"
  have shape: "flags_shape v" and none: "concat (map (flag_problems has) ?fs) = []"
    and d: "d = map (\<lambda>(name, raw). (name, flag_values_of has raw)) (filter (\<lambda>(_, raw). is_record raw) ?fs)"
    using assms(1,2) by (auto simp: validate_flags_def Let_def split: if_splits)
  have entry: "flag_problems has (k, raw) = []" if "(k, raw) \<in> set ?fs" for k raw using none that by auto
  have rec: "is_record raw" if "(k, raw) \<in> set ?fs" for k raw
    using entry [OF that] by (auto simp: flag_problems_def split: if_splits)
  have "filter (\<lambda>(_, raw). is_record raw) ?fs = ?fs" by (rule filter_True) (use rec in auto)
  then have md: "map_of d name = map_option (flag_values_of has) (map_of ?fs name)" by (simp add: d map_of_map)
  show ?thesis
  proof (cases "map_of ?fs name")
    case None
    then show ?thesis by (simp add: flag_value_def md prop_of_def get_prop_def obj_of_def)
  next
    case (Some raw)
    then have mem: "(name, raw) \<in> set ?fs" by (rule map_of_SomeD)
    then obtain vs where raw: "raw = JObj vs" using rec [of name raw] by (cases raw) (simp_all add: is_record_def)
    have vals: "flag_value_problem has name x = None" if "x \<in> set vs" for x
    proof -
      have "List.map_filter (flag_value_problem has name) vs = []"
        using entry [OF mem] by (simp add: flag_problems_def raw is_record_def obj_of_def split: if_splits)
      then show ?thesis using that set_map_filter [of _ "flag_value_problem has name" vs] by (cases "flag_value_problem has name x") auto
    qed
    have obj: "obj_of (JObj vs) = vs" by (simp add: obj_of_def)
    have "map_of (List.map_filter (\<lambda>(env, v). if has env then map_option (Pair env) (flag_of v) else None) vs) env
        = Option.bind (map_of vs env) flag_of"
      using vals
    proof (induction vs)
      case (Cons x vs)
      obtain e u where x: "x = (e, u)" by (cases x)
      have "has e" "\<exists>b. u = JBool b" using Cons.prems [of x] by (auto simp: flag_value_problem_def x split: if_splits jsval.splits)
      then show ?case using Cons by (auto simp: x flag_of_def)
    qed simp
    then have "map_of (flag_values_of has raw) env = Option.bind (map_of vs env) flag_of" by (simp add: flag_values_of_def raw obj)
    moreover have "flag_value d name env = (map_of (flag_values_of has raw) env = Some True)"
      by (simp add: flag_value_def md Some split: option.split)
    ultimately have "flag_value d name env = (Option.bind (map_of vs env) flag_of = Some True)" by simp
    also have "\<dots> = (prop_of raw env = JBool True)"
      by (auto simp: prop_of_def get_prop_def raw obj_of_def flag_of_def split: option.split jsval.split)
    finally show ?thesis using Some by (simp add: prop_of_def [of "prop_of v ''flags''" name] get_prop_def)
  qed
qed

lemma json_ok_update: "json_ok (JObj kvs) \<Longrightarrow> json_ok v \<Longrightarrow> json_ok (JObj (AList.update k v kvs))"
  by (induction kvs) (auto simp: list_all_iff dest!: set_mp [OF set_update_subset])

lemma prop_update: "prop_of (JObj (AList.update k x kvs)) j = (if j = k then x else prop_of (JObj kvs) j)"
  by (simp add: prop_of_def get_prop_def obj_of_def)

lemma record_obj: "is_record v \<Longrightarrow> JObj (obj_of v) = v"
  by (cases v) (simp_all add: is_record_def obj_of_def)

lemma flag_values_obj: "(case map_of fs name of Some (JObj vs) \<Rightarrow> vs | _ \<Rightarrow> []) = obj_of (prop_of (JObj fs) name)"
  by (auto simp: prop_of_def get_prop_def obj_of_def split: option.split jsval.split)

lemma json_ok_prop: "json_ok v \<Longrightarrow> is_record (prop_of v k) \<Longrightarrow> json_ok (prop_of v k)"
  by (cases v) (auto simp: prop_of_def get_prop_def obj_of_def is_record_def split: option.splits intro: json_ok_member)

lemma json_ok_obj_of: "json_ok v \<Longrightarrow> json_ok (JObj (obj_of v))"
  by (cases v) (simp_all add: obj_of_def)

lemma json_ok_values: "json_ok v \<Longrightarrow> json_ok (JObj (obj_of (prop_of v k)))"
proof (cases "is_record (prop_of v k)")
  case True
  then show "json_ok v \<Longrightarrow> ?thesis" using json_ok_prop record_obj by simp
next
  case False
  then have "obj_of (prop_of v k) = []" by (cases "prop_of v k") (simp_all add: obj_of_def is_record_def)
  then show ?thesis by simp
qed

lemma set_flag_ok: "json_ok v \<Longrightarrow> json_ok (set_flag name env b v)"
proof -
  assume v: "json_ok v"
  define doc where "doc = (if is_record v \<and> is_record (prop_of v ''flags'') then v else no_flags)"
  have doc: "json_ok doc" using v by (simp add: doc_def no_flags_def)
  let ?fs = "obj_of (prop_of doc ''flags'')"
  have fs: "json_ok (JObj ?fs)" by (rule json_ok_values [OF doc])
  have "json_ok (JObj (AList.update env (JBool b) (obj_of (prop_of (JObj ?fs) name))))"
    by (rule json_ok_update [OF json_ok_values [OF fs]]) simp
  then have "json_ok (JObj (AList.update ''flags'' (JObj (AList.update name (JObj (AList.update env (JBool b) (obj_of (prop_of (JObj ?fs) name)))) ?fs)) (obj_of doc)))"
    by (rule json_ok_update [OF json_ok_obj_of [OF doc] json_ok_update [OF fs]])
  then show ?thesis unfolding set_flag_def flag_values_obj Let_def doc_def .
qed

lemma set_flag_value:
  assumes "is_record v" and "is_record (prop_of v ''flags'')"
  shows "(prop_of (prop_of (prop_of (set_flag name env b v) ''flags'') k) e = JBool True)
    = (if k = name \<and> e = env then b else prop_of (prop_of (prop_of v ''flags'') k) e = JBool True)"
proof -
  let ?F = "prop_of v ''flags''"
  have p: "prop_of (JObj (obj_of x)) k = prop_of x k" for x k by (simp add: prop_of_def obj_of_def split: jsval.split)
  have "prop_of (set_flag name env b v) ''flags''
      = JObj (AList.update name (JObj (AList.update env (JBool b) (obj_of (prop_of ?F name)))) (obj_of ?F))"
    using assms by (simp add: set_flag_def Let_def flag_values_obj prop_update p)
  then show ?thesis by (simp add: prop_update p)
qed

text \<open>C33: setting a flag changes that flag and nothing else. Over a flag document that is valid, or over none,
  a call that reports written or unchanged leaves a document in which the named flag has the value in the
  named environment and every other flag is what it was; every other answer has changed nothing; and a
  stored document of a different content with the hash of the new one is the only thing that can hide it.\<close>

theorem flag_set_exact:
  assumes yaml: "yaml_law yaml dump" and serving: "serving A n w" and hash: "\<forall>s. hex64 (sha s)" and t: "txn_id t"
    and current: "current_flags yaml (A ''flags.yaml'') = Inr v" and v: "json_ok v"
    and before: "\<exists>s. yaml s = Inr v \<and> validate_flags yaml has s = Inr d"
    and apart: "\<forall>c. A ''flags.yaml'' = Some c \<longrightarrow> sha (dump (set_flag name env b v)) = sha c \<longrightarrow> dump (set_flag name env b v) = c"
    and run: "flag_set yaml dump has sha t (io_return ()) name env b expected who w = (Inr res, w')"
  shows "case res of
      SaveConflict _ _ \<Rightarrow> serving A n w' | SaveInvalid _ \<Rightarrow> serving A n w'
    | _ \<Rightarrow> (\<exists>d' k. serving (A(''flags.yaml'' \<mapsto> dump (set_flag name env b v))) k w'
        \<and> validate_flags yaml has (dump (set_flag name env b v)) = Inr d'
        \<and> (\<forall>f e. flag_value d' f e = (if f = name \<and> e = env then b else flag_value d f e)))"
proof -
  let ?doc = "set_flag name env b v" and ?source = "dump (set_flag name env b v)"
  have path: "database_path ''flags.yaml'' = Inr ''flags.yaml''" by code_simp
  obtain x w1 where x: "engine_read sha ''flags.yaml'' w = (x, w1)" by fastforce
  then obtain c where c: "x = Inr c" using run by (cases x) (auto simp: flag_set_def io_bind_def)
  have w1: "c = A ''flags.yaml''" "serving A n w1"
    using tripleD [OF engine_read_triple [OF path] serving_ok [OF serving] x] c by simp_all
  show ?thesis
  proof (cases "validate_flags yaml has ?source")
    case (Inl es)
    then show ?thesis using run x c w1 current by (auto simp: flag_set_def io_bind_def io_lift_def io_return_def Let_def)
  next
    case (Inr d')
    let ?r = "flag_request yaml has name ?source expected who"
    obtain r where r: "engine_write sha t ?r w1 = (Inr r, w')" "res = save_result_of r"
      using run x c w1(1) current Inr
      by (cases "engine_write sha t ?r w1")
        (auto simp: flag_set_def io_bind_def io_lift_def io_return_def io_then_def Let_def split: sum.splits save_result.splits)
    have call: "call_ok sha t [?r] [] []" using hash t path by (simp add: call_ok_def write_paths_def flag_request_def)
    have "one_write sha A n ?r ?source res w'"
      unfolding r(2) by (rule engine_write_run [OF call w1(2) _ _ r(1)]) (use apart in \<open>simp_all add: flag_request_def\<close>)
    moreover have "A ''flags.yaml'' = Some ?source \<Longrightarrow> A(''flags.yaml'' \<mapsto> ?source) = A" by auto
    moreover have "flag_value d' f e = (if f = name \<and> e = env then b else flag_value d f e)" for f e
    proof -
      obtain s where s: "yaml s = Inr v" "validate_flags yaml has s = Inr d" using before by blast
      then have rec: "is_record v" "is_record (prop_of v ''flags'')"
        by (auto simp: validate_flags_def flags_shape_def split: if_splits)
      have "yaml ?source = Inr ?doc" by (rule yaml_lawD [OF yaml set_flag_ok [OF v]])
      then show ?thesis using validate_flags_value [OF Inr _ set_flag_ok [OF v]] validate_flags_value [OF s(2,1) v] set_flag_value [OF rec]
        by simp
    qed
    ultimately show ?thesis using Inr
      by (cases res) (auto simp: one_write_def stored_as_def flag_request_def)
  qed
qed

text \<open>Switching a flag on in one of two environments.\<close>

definition stored_flags :: jsval where
  "stored_flags = JObj [(''version'', JNum (NInt 1)), (''flags'', JObj [(''Beta'', JObj [(''dev'', JBool False), (''prod'', JBool True)])])]"

definition flagged_world :: world where
  "flagged_world = (demo_world (\<lambda>_. False))\<lparr>files := [(Db ''flags.yaml'', json stored_flags)]\<rparr>"

definition two_environments :: "string \<Rightarrow> bool" where
  "two_environments e = (e = ''dev'' \<or> e = ''prod'')"

theorem flag_set_exact_witness:
  "\<exists>d'. validate_flags json_yaml two_environments (json (set_flag ''Beta'' ''dev'' True stored_flags)) = Inr d'
    \<and> flag_value d' ''Beta'' ''dev'' \<and> flag_value d' ''Beta'' ''prod''"
proof -
  let ?has = two_environments and ?A = "[''flags.yaml'' \<mapsto> json stored_flags]"
  let ?run = "flag_set json_yaml json ?has demo_sha demo_id (io_return ()) ''Beta'' ''dev'' True None None flagged_world"
  have ok: "json_ok stored_flags" by (simp add: stored_flags_def)
  have y: "json_yaml (json stored_flags) = Inr stored_flags" by (rule json_yaml_json [OF ok])
  have s: "serving ?A 0 flagged_world"
    by (auto simp: serving_def steady_def idle_def tidy_def flagged_world_def demo_world_def revision_of_def file_at_def)
  have t: "txn_id demo_id" using demo_call by (simp add: call_ok_def)
  have "map_sum id (\<lambda>r. case r of Saved m _ \<Rightarrow> m | _ \<Rightarrow> 0) (fst ?run) = Inr 1" by code_simp
  then obtain m e where res: "fst ?run = Inr (Saved m e)" by (cases "fst ?run") (auto split: save_result.splits)
  have run: "?run = (Inr (Saved m e), snd ?run)" by (rule prod_eqI) (simp_all add: res)
  have "json stored_flags \<noteq> []" by code_simp
  then have c: "current_flags json_yaml (?A ''flags.yaml'') = Inr stored_flags" using y by (simp add: current_flags_def)
  have "case validate_flags json_yaml ?has (json stored_flags) of Inr d \<Rightarrow> flag_value d ''Beta'' ''prod'' | Inl _ \<Rightarrow> False" by code_simp
  then obtain d where d: "validate_flags json_yaml ?has (json stored_flags) = Inr d" "flag_value d ''Beta'' ''prod''" by (auto split: sum.splits)
  have "demo_sha (json (set_flag ''Beta'' ''dev'' True stored_flags)) \<noteq> demo_sha (json stored_flags)" by code_simp
  then have apart: "\<forall>c. ?A ''flags.yaml'' = Some c \<longrightarrow> demo_sha (json (set_flag ''Beta'' ''dev'' True stored_flags)) = demo_sha c
      \<longrightarrow> json (set_flag ''Beta'' ''dev'' True stored_flags) = c" by simp
  have before: "\<exists>s. json_yaml s = Inr stored_flags \<and> validate_flags json_yaml ?has s = Inr d" using y d(1) by blast
  show ?thesis
    using flag_set_exact [OF json_yaml_law s _ t c ok before apart run] demo_sha_hex d(2) by auto
qed

subsection \<open>A first boot that is interrupted\<close>

text \<open>The copy of the clone is not atomic and is not resumed: after a crash in the middle the directory is not
  empty, so the next boot takes the part that was copied for the whole database.\<close>

lemma bootstrap_not_resumed:
  "files w \<noteq> [] \<Longrightarrow> fails w = (\<lambda>_. False) \<Longrightarrow> fst (bootstrap_db bare w) = Inr False \<and> files (snd (bootstrap_db bare w)) = files w"
  by (simp add: bootstrap_db_def ensure_directory_def io_then_def io_bind_def io_read_def io_step_def io_return_def Let_def)

lemma bootstrap_interrupted:
  "let w = snd (bootstrap_db [(''a.yaml'', ''x''), (''b.yaml'', ''y'')] ((demo_world (\<lambda>k. 3 \<le> k))\<lparr>files := []\<rparr>))
   in file_at w (Db ''a.yaml'') = Some ''x'' \<and> file_at w (Db ''b.yaml'') = None
     \<and> fst (bootstrap_db [(''a.yaml'', ''x''), (''b.yaml'', ''y'')] (restart (\<lambda>_. False) w)) = Inr False"
  by code_simp

end
