(* ===== verification/Client.thy ===== *)
theory Client
  imports Serve Encoding
begin

section \<open>The client of the read API (src/client/config-client.ts)\<close>

text \<open>
  What a consuming service keeps of its configuration: compiled-in defaults, overlaid with what the
  cache file or the server gave last. An exchange with the server is a \<open>response\<close>: a status and a body, or
  a failed request. What the parts of a response hold is not checked by the client, so they are plain
  JavaScript values. A handler is a number and \<open>act\<close> says whether calling it throws; the callback
  \<open>onError\<close>, which the code requires not to throw, appears in the log.
\<close>

subsection \<open>State\<close>

record client_options =
  co_service :: string
  co_environment :: string
  co_cache :: "path option"
  co_directory :: path
  co_pid :: nat

record client_values =
  vc_commit :: jsval
  vc_config :: jsval
  vc_flags :: jsval

datatype client_event = ErrorReported string | HandlerCalled nat

record client =
  cl_defaults :: obj
  cl_resolved :: obj
  cl_commit :: jsval
  cl_flags :: obj
  cl_handlers :: "nat list"
  cl_watch :: "nat option"
  cl_loops :: nat
  cl_log :: "client_event list"

definition new_client :: client where
  "new_client = \<lparr>cl_defaults = [], cl_resolved = [], cl_commit = JNull, cl_flags = [], cl_handlers = [],
     cl_watch = None, cl_loops = 0, cl_log = []\<rparr>"

definition current_config :: "client \<Rightarrow> obj" where
  "current_config c = cl_resolved c"

definition nullish :: "jsval \<Rightarrow> bool" where
  "nullish v = (v = JUndef \<or> v = JNull)"

definition or_else :: "jsval \<Rightarrow> jsval \<Rightarrow> jsval" where
  "or_else v d = (if nullish v then d else v)"

definition client_flag :: "client \<Rightarrow> string \<Rightarrow> bool \<Rightarrow> jsval" where
  "client_flag c name fallback = or_else (get_prop (cl_flags c) name) (JBool fallback)"

definition on_invalidate :: "nat \<Rightarrow> client \<Rightarrow> client" where
  "on_invalidate h c = c\<lparr>cl_handlers := cl_handlers c @ [h]\<rparr>"

definition client_report :: "string \<Rightarrow> client \<Rightarrow> client" where
  "client_report e c = c\<lparr>cl_log := cl_log c @ [ErrorReported e]\<rparr>"

text \<open>\<open>{ ...base, ...v }\<close> of any value.\<close>

definition spread :: "obj \<Rightarrow> jsval \<Rightarrow> obj" where
  "spread base v = merge_members base (own_members v)"

subsection \<open>One exchange\<close>

datatype response = Failed string | Answered nat string

definition request_path :: "client_options \<Rightarrow> jsval \<Rightarrow> string" where
  "request_path o' since = ''/config/'' @ co_service o' @ ''/'' @ co_environment o'
     @ (if truthy since then ''?since='' @ encode_uri_component (to_str since) else [])"

definition parse_served :: "string \<Rightarrow> string + client_values" where
  "parse_served body = (case json_parse body of
     None \<Rightarrow> Inl ''SyntaxError''
   | Some JNull \<Rightarrow> Inl ''TypeError''
   | Some v \<Rightarrow> Inr \<lparr>vc_commit = prop_of v ''commit'', vc_config = or_else (prop_of v ''config'') (JObj []),
       vc_flags = or_else (prop_of v ''flags'') (JObj [])\<rparr>)"

definition fetch_result :: "response \<Rightarrow> string + client_values option" where
  "fetch_result r = (case r of
     Failed e \<Rightarrow> Inl e
   | Answered status body \<Rightarrow> if status \<noteq> 200 then Inr None else bind_err (parse_served body) (\<lambda>v. Inr (Some v)))"

subsection \<open>The cache file\<close>

definition cache_json :: "client_options \<Rightarrow> client_values \<Rightarrow> jsval" where
  "cache_json o' v = JObj [(''service'', JStr (co_service o')), (''environment'', JStr (co_environment o')),
     (''commit'', vc_commit v), (''config'', vc_config v), (''flags'', vc_flags v)]"

definition cache_temp :: "client_options \<Rightarrow> path" where
  "cache_temp o' = co_directory o' @ ''/.'' @ nat_str (co_pid o') @ ''.config.tmp''"

definition write_cache :: "client_options \<Rightarrow> client_values \<Rightarrow> unit fio" where
  "write_cache o' v = (case co_cache o' of
     None \<Rightarrow> io_return ()
   | Some p \<Rightarrow> write_through (cache_temp o') p (json (cache_json o' v)))"

definition read_cached :: "client_options \<Rightarrow> string \<Rightarrow> client_values option" where
  "read_cached o' text = (case json_parse text of
     None \<Rightarrow> None
   | Some v \<Rightarrow>
       if prop_of v ''service'' \<noteq> JStr (co_service o') \<or> prop_of v ''environment'' \<noteq> JStr (co_environment o') then None
       else if \<not> is_string (prop_of v ''commit'')
         \<or> \<not> (case prop_of v ''config'' of JObj _ \<Rightarrow> True | JArr _ \<Rightarrow> True | _ \<Rightarrow> False) then None
       else Some \<lparr>vc_commit = prop_of v ''commit'', vc_config = prop_of v ''config'',
         vc_flags = or_else (prop_of v ''flags'') (JObj [])\<rparr>)"

definition read_cache :: "client_options \<Rightarrow> client_values option fio" where
  "read_cache o' = (case co_cache o' of
     None \<Rightarrow> io_return None
   | Some p \<Rightarrow> io_catch (io_bind (read_file p) (\<lambda>t. io_return (read_cached o' t))) (\<lambda>_. io_return None))"

subsection \<open>Applying what was served\<close>

fun notify_handlers :: "(nat \<Rightarrow> string + unit) \<Rightarrow> nat list \<Rightarrow> client \<Rightarrow> client" where
  "notify_handlers act [] c = c"
| "notify_handlers act (h # hs) c = (let c' = c\<lparr>cl_log := cl_log c @ [HandlerCalled h]\<rparr>
     in notify_handlers act hs (case act h of Inl e \<Rightarrow> client_report e c' | Inr _ \<Rightarrow> c'))"

definition hold_values :: "client_values \<Rightarrow> client \<Rightarrow> client" where
  "hold_values v c = c\<lparr>cl_resolved := spread (spread [] (JObj (cl_defaults c))) (vc_config v), cl_flags := spread [] (vc_flags v), cl_commit := vc_commit v\<rparr>"

definition apply_served :: "client_options \<Rightarrow> (nat \<Rightarrow> string + unit) \<Rightarrow> client_values \<Rightarrow> client \<times> fsys \<Rightarrow> client \<times> fsys" where
  "apply_served o' act v = (\<lambda>(c, w). let
     changed = (vc_commit v \<noteq> cl_commit c);
     c1 = hold_values v c;
     (r, w') = write_cache o' v w;
     c2 = (case r of Inl e \<Rightarrow> client_report e c1 | Inr _ \<Rightarrow> c1)
     in (if changed then notify_handlers act (cl_handlers c2) c2 else c2, w'))"

definition refresh :: "client_options \<Rightarrow> (nat \<Rightarrow> string + unit) \<Rightarrow> response \<Rightarrow> client \<times> fsys \<Rightarrow> bool \<times> client \<times> fsys" where
  "refresh o' act r = (\<lambda>(c, w). case fetch_result r of
     Inl e \<Rightarrow> (False, client_report e c, w)
   | Inr None \<Rightarrow> (False, c, w)
   | Inr (Some v) \<Rightarrow> (vc_commit v \<noteq> cl_commit c, apply_served o' act v (c, w)))"

text \<open>\<open>load\<close> up to the refresh it starts and does not await, which is a \<open>refresh\<close> of its own.\<close>

definition client_load :: "client_options \<Rightarrow> obj \<Rightarrow> client \<times> fsys \<Rightarrow> client \<times> fsys" where
  "client_load o' defaults = (\<lambda>(c, w). let
     c1 = c\<lparr>cl_defaults := defaults, cl_resolved := spread [] (JObj defaults)\<rparr>
     in case read_cache o' w of
       (Inr (Some v), w') \<Rightarrow> (c1\<lparr>cl_resolved := spread (spread [] (JObj defaults)) (vc_config v),
           cl_flags := spread [] (vc_flags v), cl_commit := vc_commit v\<rparr>, w')
     | (_, w') \<Rightarrow> (c1, w'))"

subsection \<open>Watching\<close>

text \<open>
  Each call of \<open>watch\<close> that starts a loop gives it an abort controller of its own, here a number. What
  happens to a client is a sequence of events; an answer to a loop carries the loop's number.
\<close>

datatype client_happening =
    WatchCalled
  | WatchStopped
  | WatchAnswered nat response
  | RefreshAnswered response
  | Registered nat

definition watching :: "client \<Rightarrow> bool" where
  "watching c = (cl_watch c \<noteq> None)"

definition client_watch :: "client \<Rightarrow> client" where
  "client_watch c = (case cl_watch c of Some _ \<Rightarrow> c
     | None \<Rightarrow> c\<lparr>cl_watch := Some (cl_loops c), cl_loops := Suc (cl_loops c)\<rparr>)"

definition stop_watching :: "client \<Rightarrow> client" where
  "stop_watching c = c\<lparr>cl_watch := None\<rparr>"

definition watch_answer :: "client_options \<Rightarrow> (nat \<Rightarrow> string + unit) \<Rightarrow> nat \<Rightarrow> response \<Rightarrow> client \<times> fsys \<Rightarrow> client \<times> fsys" where
  "watch_answer o' act n r = (\<lambda>(c, w). case fetch_result r of
     Inl e \<Rightarrow> (client_report e c, w)
   | Inr served \<Rightarrow> if cl_watch c \<noteq> Some n then (c, w)
       else (case served of None \<Rightarrow> (c, w) | Some v \<Rightarrow> apply_served o' act v (c, w)))"

definition client_step :: "client_options \<Rightarrow> (nat \<Rightarrow> string + unit) \<Rightarrow> client_happening \<Rightarrow> client \<times> fsys \<Rightarrow> client \<times> fsys" where
  "client_step o' act e = (\<lambda>(c, w). case e of
     WatchCalled \<Rightarrow> (client_watch c, w)
   | WatchStopped \<Rightarrow> (stop_watching c, w)
   | WatchAnswered n r \<Rightarrow> watch_answer o' act n r (c, w)
   | RefreshAnswered r \<Rightarrow> snd (refresh o' act r (c, w))
   | Registered h \<Rightarrow> (on_invalidate h c, w))"

definition client_run :: "client_options \<Rightarrow> (nat \<Rightarrow> string + unit) \<Rightarrow> client_happening list \<Rightarrow> client \<times> fsys \<Rightarrow> client \<times> fsys" where
  "client_run o' act es s = foldl (\<lambda>s e. client_step o' act e s) s es"

text \<open>The loop goes on after an answer until it is stopped; after a failure it pauses first.\<close>

definition loop_goes_on :: "nat \<Rightarrow> client \<Rightarrow> bool" where
  "loop_goes_on n c = (cl_watch c = Some n)"

definition default_timeout_ms :: nat where
  "default_timeout_ms = 2000"

subsection \<open>The client's values\<close>

definition held_values :: "client \<Rightarrow> obj \<times> obj \<times> jsval" where
  "held_values c = (cl_resolved c, cl_flags c, cl_commit c)"

definition overlaid :: "obj \<Rightarrow> client_values \<Rightarrow> obj \<times> obj \<times> jsval" where
  "overlaid D v = (spread (spread [] (JObj D)) (vc_config v), spread [] (vc_flags v), vc_commit v)"

definition calls_of :: "client \<Rightarrow> nat list" where
  "calls_of c = concat (map (\<lambda>e. case e of HandlerCalled h \<Rightarrow> [h] | ErrorReported _ \<Rightarrow> []) (cl_log c))"

text \<open>What neither a report nor a handler's call touches.\<close>

definition client_core :: "client \<Rightarrow> (obj \<times> obj \<times> jsval) \<times> obj \<times> nat list \<times> nat option \<times> nat" where
  "client_core c = (held_values c, cl_defaults c, cl_handlers c, cl_watch c, cl_loops c)"

lemma core_eqD:
  "client_core c' = client_core c \<Longrightarrow> held_values c' = held_values c \<and> cl_defaults c' = cl_defaults c
    \<and> cl_handlers c' = cl_handlers c \<and> cl_watch c' = cl_watch c \<and> cl_loops c' = cl_loops c"
  by (simp add: client_core_def)

lemma client_log_simps [simp]:
  "client_core (client_report e c) = client_core c" "calls_of (client_report e c) = calls_of c"
  "client_core (c\<lparr>cl_log := l\<rparr>) = client_core c" "calls_of (c\<lparr>cl_log := cl_log c @ [HandlerCalled h]\<rparr>) = calls_of c @ [h]"
  by (simp_all add: client_core_def client_report_def held_values_def calls_of_def)

text \<open>Every handler is called once, in order, whichever of them throw.\<close>

lemma notify_all: "client_core (notify_handlers act hs c) = client_core c \<and> calls_of (notify_handlers act hs c) = calls_of c @ hs"
  by (induction hs arbitrary: c) (simp_all add: Let_def split: sum.split)

lemma hold_values_simps [simp]:
  "held_values (hold_values v c) = overlaid (cl_defaults c) v"
  "calls_of (hold_values v c) = calls_of c" "cl_handlers (hold_values v c) = cl_handlers c"
  "cl_defaults (hold_values v c) = cl_defaults c" "cl_watch (hold_values v c) = cl_watch c" "cl_loops (hold_values v c) = cl_loops c"
  by (simp_all add: hold_values_def held_values_def calls_of_def overlaid_def)

lemma apply_served_effect:
  assumes "apply_served o' act v (c, w) = (c', w')"
  shows "client_core c' = client_core (hold_values v c)"
    and "calls_of c' = calls_of c @ (if vc_commit v \<noteq> cl_commit c then cl_handlers c else [])"
    and "w' = snd (write_cache o' v w)"
proof -
  obtain r w1 where r: "write_cache o' v w = (r, w1)" by (cases "write_cache o' v w")
  let ?c = "case r of Inl e \<Rightarrow> client_report e (hold_values v c) | Inr _ \<Rightarrow> hold_values v c"
  have c: "client_core ?c = client_core (hold_values v c) \<and> calls_of ?c = calls_of c" by (simp split: sum.split)
  then have h: "cl_handlers ?c = cl_handlers c" using core_eqD [of ?c "hold_values v c"] by simp
  have "c' = (if vc_commit v \<noteq> cl_commit c then notify_handlers act (cl_handlers ?c) ?c else ?c)" "w' = w1"
    using assms by (auto simp: apply_served_def r Let_def)
  with c h notify_all [of act "cl_handlers ?c" ?c] show "client_core c' = client_core (hold_values v c)"
    "calls_of c' = calls_of c @ (if vc_commit v \<noteq> cl_commit c then cl_handlers c else [])" "w' = snd (write_cache o' v w)"
    by (simp_all add: r)
qed

subsection \<open>The cache file is read back\<close>

definition cache_ok :: "client_options \<Rightarrow> client_values \<Rightarrow> bool" where
  "cache_ok o' v = (json_ok (cache_json o' v) \<and> is_string (vc_commit v)
     \<and> (case vc_config v of JObj _ \<Rightarrow> True | JArr _ \<Rightarrow> True | _ \<Rightarrow> False) \<and> \<not> nullish (vc_flags v))"

lemma read_cached_json: "cache_ok o' v \<Longrightarrow> read_cached o' (json (cache_json o' v)) = Some v"
proof -
  assume ok: "cache_ok o' v"
  then have "json_parse (json (cache_json o' v)) = Some (cache_json o' v)" by (simp add: cache_ok_def)
  with ok show ?thesis
    by (simp add: read_cached_def cache_json_def prop_of_def obj_of_def get_prop_def cache_ok_def or_else_def)
qed

text \<open>A document of another service, or of another environment, is never taken.\<close>

lemma read_cached_owner:
  "read_cached o' t = Some v \<Longrightarrow> \<exists>d. json_parse t = Some d \<and> prop_of d ''service'' = JStr (co_service o')
     \<and> prop_of d ''environment'' = JStr (co_environment o') \<and> is_string (vc_commit v)"
  by (auto simp: read_cached_def split: option.splits if_splits)

lemma write_cache_result:
  assumes "co_cache o' = Some p" and "p \<noteq> cache_temp o'" and "write_cache o' v w = (r, w')"
  shows "content w' p = (case r of Inl _ \<Rightarrow> content w p | Inr _ \<Rightarrow> Some (json (cache_json o' v)))"
  using write_through_result [OF assms(2)] assms by (simp add: write_cache_def)

lemma read_cache_calm:
  "co_cache o' = Some p \<Longrightarrow> calm w \<Longrightarrow> fst (read_cache o' w) = Inr (case content w p of None \<Rightarrow> None | Some t \<Rightarrow> read_cached o' t)"
  using calm_read_file [of w p]
  by (auto simp: read_cache_def io_catch_def io_bind_def io_return_def split: option.splits prod.splits sum.splits)

lemma client_load_values:
  assumes "co_cache o' = Some p" and "calm w"
  shows "held_values (fst (client_load o' D (new_client, w))) =
    (case Option.bind (content w p) (read_cached o') of
       Some v \<Rightarrow> overlaid D v
     | None \<Rightarrow> (spread [] (JObj D), [], JNull))"
  using read_cache_calm [OF assms]
  by (auto simp: client_load_def held_values_def overlaid_def new_client_def Let_def split: option.splits prod.splits sum.splits)


definition demo_client_options :: client_options where
  "demo_client_options = \<lparr>co_service = ''iam'', co_environment = ''prod'', co_cache = Some ''/c/iam.json'', co_directory = ''/c'', co_pid = 7\<rparr>"

definition demo_values :: client_values where
  "demo_values = \<lparr>vc_commit = JStr ''8'', vc_config = JObj [(''port'', JNum (NInt 2))], vc_flags = JObj []\<rparr>"

definition demo_client :: client where
  "demo_client = new_client\<lparr>cl_defaults := [(''port'', JNum (NInt 1)), (''host'', JStr ''h'')], cl_commit := JStr ''7'', cl_handlers := [0, 1]\<rparr>"


subsection \<open>Loops and their answers\<close>

lemma apply_served_core:
  "apply_served o' act v (c, w) = (c', w') \<Longrightarrow> cl_watch c' = cl_watch c \<and> cl_loops c' = cl_loops c \<and> cl_defaults c' = cl_defaults c"
  using core_eqD [OF apply_served_effect(1)] by simp

text \<open>The document an event brings, if it is one a live listener of the client takes.\<close>

definition taken :: "client_happening \<Rightarrow> client \<Rightarrow> client_values option" where
  "taken e c = (case e of
     WatchAnswered n r \<Rightarrow> if cl_watch c = Some n then (case fetch_result r of Inr v \<Rightarrow> v | Inl _ \<Rightarrow> None) else None
   | RefreshAnswered r \<Rightarrow> (case fetch_result r of Inr v \<Rightarrow> v | Inl _ \<Rightarrow> None)
   | _ \<Rightarrow> None)"

definition took :: "client_values option \<Rightarrow> client \<Rightarrow> client \<Rightarrow> bool" where
  "took t c c' = (cl_defaults c' = cl_defaults c
     \<and> held_values c' = (case t of None \<Rightarrow> held_values c | Some v \<Rightarrow> overlaid (cl_defaults c) v)
     \<and> calls_of c' = calls_of c @ (case t of None \<Rightarrow> [] | Some v \<Rightarrow> if vc_commit v \<noteq> cl_commit c then cl_handlers c else []))"

lemma took_apply: "apply_served o' act v (c, w) = (c', w') \<Longrightarrow> took (Some v) c c'"
  using apply_served_effect [of o' act v c w c' w'] core_eqD [of c' "hold_values v c"] by (simp add: took_def)

lemma took_report: "took None c (client_report e c)" "took None c c"
  by (simp_all add: took_def client_report_def held_values_def calls_of_def)

lemma client_step_taken:
  assumes "client_step o' act e (c, w) = (c', w')"
  shows "took (taken e c) c c'" and "taken e c = None \<Longrightarrow> w' = w"
proof -
  have "took (taken e c) c c' \<and> (taken e c = None \<longrightarrow> w' = w)"
  proof (cases e)
    case (WatchAnswered n r)
    then show ?thesis using assms
      by (cases "fetch_result r") (auto simp: client_step_def watch_answer_def taken_def took_report took_apply split: option.splits if_splits)
  next
    case (RefreshAnswered r)
    then show ?thesis using assms
      by (cases "fetch_result r") (auto simp: client_step_def refresh_def taken_def took_report took_apply split: option.splits)
  qed (use assms in \<open>auto simp: client_step_def taken_def took_def client_watch_def stop_watching_def on_invalidate_def held_values_def calls_of_def split: option.split\<close>)
  then show "took (taken e c) c c'" "taken e c = None \<Longrightarrow> w' = w" by blast+
qed

text \<open>A number that was given to a loop and is not the live one never is again.\<close>

lemma client_step_watch:
  assumes "client_step o' act e (c, w) = (c', w')"
  shows "cl_loops c \<le> cl_loops c'" and "n < cl_loops c \<Longrightarrow> cl_watch c \<noteq> Some n \<Longrightarrow> cl_watch c' \<noteq> Some n"
proof -
  have re: "cl_watch (client_report e c) = cl_watch c \<and> cl_loops (client_report e c) = cl_loops c" for e
    by (simp add: client_report_def)
  have "cl_loops c \<le> cl_loops c' \<and> (n < cl_loops c \<longrightarrow> cl_watch c \<noteq> Some n \<longrightarrow> cl_watch c' \<noteq> Some n)"
  proof (cases e)
    case (WatchAnswered m r)
    then show ?thesis using assms re apply_served_core [of o' act _ c w c' w']
      by (cases "fetch_result r") (auto simp: client_step_def watch_answer_def split: option.splits if_splits)
  next
    case (RefreshAnswered r)
    then show ?thesis using assms re apply_served_core [of o' act _ c w c' w']
      by (cases "fetch_result r") (auto simp: client_step_def refresh_def split: option.splits)
  qed (use assms in \<open>auto simp: client_step_def client_watch_def stop_watching_def on_invalidate_def split: option.splits\<close>)
  then show "cl_loops c \<le> cl_loops c'" "n < cl_loops c \<Longrightarrow> cl_watch c \<noteq> Some n \<Longrightarrow> cl_watch c' \<noteq> Some n" by blast+
qed

lemma client_run_snoc: "client_run o' act (es @ [e]) s = client_step o' act e (client_run o' act es s)"
  by (simp add: client_run_def)

lemma client_run_watch:
  "client_run o' act es (c, w) = (c', w') \<Longrightarrow> cl_loops c \<le> cl_loops c' \<and> (n < cl_loops c \<longrightarrow> cl_watch c \<noteq> Some n \<longrightarrow> cl_watch c' \<noteq> Some n)"
proof (induction es arbitrary: c' w' rule: rev_induct)
  case (snoc e es)
  obtain c1 w1 where one: "client_run o' act es (c, w) = (c1, w1)" by (cases "client_run o' act es (c, w)")
  with snoc.prems have step: "client_step o' act e (c1, w1) = (c', w')" by (simp add: client_run_snoc)
  from snoc.IH [OF one] client_step_watch [OF step] show ?case by force
qed (simp add: client_run_def)

text \<open>The documents a sequence of events offers.\<close>

definition offered :: "client_happening list \<Rightarrow> client_values set" where
  "offered es = {v. \<exists>r. fetch_result r = Inr (Some v) \<and> (RefreshAnswered r \<in> set es \<or> (\<exists>n. WatchAnswered n r \<in> set es))}"

lemma taken_offered: "taken e c = Some v \<Longrightarrow> e \<in> set es \<Longrightarrow> v \<in> offered es"
  by (auto simp: taken_def offered_def split: client_happening.splits sum.splits if_splits)

lemma client_run_values:
  "client_run o' act es (c, w) = (c', w') \<Longrightarrow> cl_defaults c' = cl_defaults c \<and> (held_values c' = held_values c \<or> (\<exists>v\<in>offered es.
     held_values c' = overlaid (cl_defaults c) v))"
proof (induction es arbitrary: c' w' rule: rev_induct)
  case (snoc e es)
  obtain c1 w1 where one: "client_run o' act es (c, w) = (c1, w1)" by (cases "client_run o' act es (c, w)")
  with snoc.prems have step: "client_step o' act e (c1, w1) = (c', w')" by (simp add: client_run_snoc)
  have more: "offered es \<subseteq> offered (es @ [e])" by (auto simp: offered_def)
  show ?case
    using snoc.IH [OF one] client_step_taken(1) [OF step, unfolded took_def] taken_offered [of e c1 _ "es @ [e]"] more
    by (cases "taken e c1") auto
qed (simp add: client_run_def)

text \<open>What a client holds has one origin: after any sequence of answers, failures, stops and new
  watches its values are those it began with or the defaults overlaid with one document that was
  offered as a whole, never a mixture of two; and once a watch is stopped its loop takes nothing any
  more, whatever arrives for it later and however often a new watch is started.\<close>

theorem client_watch_stops:
  assumes "client_run o' act es (c, w) = (c1, w1)" and "client_step o' act (WatchAnswered n r) (c1, w1) = (c2, w2)"
  shows "(held_values c1 = held_values c \<or> (\<exists>v. v \<in> offered es \<and> held_values c1 = overlaid (cl_defaults c) v))
    \<and> (n < cl_loops c \<longrightarrow> cl_watch c \<noteq> Some n \<longrightarrow> held_values c2 = held_values c1 \<and> calls_of c2 = calls_of c1 \<and> w2 = w1)"
proof (intro conjI impI)
  show "held_values c1 = held_values c \<or> (\<exists>v. v \<in> offered es \<and> held_values c1 = overlaid (cl_defaults c) v)"
    using client_run_values [OF assms(1)] by blast
  assume "n < cl_loops c" "cl_watch c \<noteq> Some n"
  then have "taken (WatchAnswered n r) c1 = None" using client_run_watch [OF assms(1), of n] by (simp add: taken_def)
  then show "held_values c2 = held_values c1" "calls_of c2 = calls_of c1" "w2 = w1"
    using client_step_taken [OF assms(2)] by (simp_all add: took_def)
qed

text \<open>A loop is stopped and a new one started before the old one's answer comes in.\<close>

theorem client_watch_stops_witness:
  "let c = stop_watching (client_watch demo_client);
       w = \<lparr>fs_files = [], fs_clock = 0, fs_fails = (\<lambda>_. False)\<rparr>;
       (c1, w1) = client_run demo_client_options (\<lambda>_. Inr ()) [WatchCalled, WatchAnswered 1 (Failed ''ECONNRESET'')] (c, w);
       (c2, w2) = client_step demo_client_options (\<lambda>_. Inr ()) (WatchAnswered 0 (Answered 200 (json (cache_json demo_client_options demo_values)))) (c1, w1)
   in held_values c2 = held_values c1 \<and> cl_watch c2 = Some 1"
proof -
  let ?c = "stop_watching (client_watch demo_client)" and ?w = "\<lparr>fs_files = [], fs_clock = 0, fs_fails = (\<lambda>_. False)\<rparr>"
  let ?one = "client_run demo_client_options (\<lambda>_. Inr ()) [WatchCalled, WatchAnswered 1 (Failed ''ECONNRESET'')] (?c, ?w)"
  let ?two = "client_step demo_client_options (\<lambda>_. Inr ()) (WatchAnswered 0 (Answered 200 (json (cache_json demo_client_options demo_values)))) ?one"
  have "client_step demo_client_options (\<lambda>_. Inr ()) (WatchAnswered 0 (Answered 200 (json (cache_json demo_client_options demo_values)))) (fst ?one, snd ?one) = (fst ?two, snd ?two)"
    by simp
  moreover have "0 < cl_loops ?c" "cl_watch ?c \<noteq> Some 0" "cl_watch (fst ?two) = Some 1" by code_simp+
  ultimately show ?thesis
    using client_watch_stops [of demo_client_options "\<lambda>_. Inr ()" _ ?c ?w "fst ?one" "snd ?one" 0 _ "fst ?two" "snd ?two"]
    by (auto simp: Let_def case_prod_beta)
qed

subsection \<open>The client and the server\<close>

text \<open>The document the route sends, and the reply a client receives.\<close>

definition served_json :: "served \<Rightarrow> jsval" where
  "served_json s = (let text = (\<lambda>t. case t of Some s \<Rightarrow> JStr s | None \<Rightarrow> JNull) in
     JObj [(''service'', JStr (sd_service s)), (''environment'', JStr (sd_environment s)), (''commit'', text (sd_commit s)),
       (''retiring'', JBool (sd_retiring s)), (''config'', JObj (sd_config s)),
       (''flags'', JObj (map (\<lambda>(k, b). (k, JBool b)) (sd_flags s))), (''syncedCommit'', text (sd_synced s))])"

definition reply_response :: "read_reply \<Rightarrow> response" where
  "reply_response r = (case r of
     Forbidden d \<Rightarrow> Answered (dn_status d) (json (JObj [(''code'', JStr (dn_code d)), (''title'', JStr (dn_title d)), (''detail'', JStr (dn_detail d))]))
   | NotModified \<Rightarrow> Answered 304 []
   | NotFound \<Rightarrow> Answered 404 (json (JObj [(''code'', JStr ''not_found''), (''title'', JStr ''Not Found'')]))
   | Served s \<Rightarrow> Answered 200 (json (served_json s)))"

lemma fetch_served:
  assumes "json_ok (served_json s)"
  shows "fetch_result (reply_response (Served s)) = Inr (Some
     \<lparr>vc_commit = (case sd_commit s of Some t \<Rightarrow> JStr t | None \<Rightarrow> JNull), vc_config = JObj (sd_config s),
      vc_flags = JObj (map (\<lambda>(k, b). (k, JBool b)) (sd_flags s))\<rparr>)"
proof -
  have "json_parse (json (served_json s)) = Some (served_json s)" using assms by simp
  then show ?thesis
    by (simp add: reply_response_def fetch_result_def parse_served_def del: json.simps)
      (simp add: served_json_def Let_def prop_of_def obj_of_def get_prop_def or_else_def nullish_def)
qed

lemma unserved_response: "\<lbrakk>\<And>s. r \<noteq> Served s; \<And>d. r = Forbidden d \<Longrightarrow> d = the_denial\<rbrakk> \<Longrightarrow> fetch_result (reply_response r) = Inr None"
  by (cases r) (auto simp: reply_response_def fetch_result_def the_denial_def)

lemma answer_served:
  "answer retiring c identity service environment = (r, l) \<Longrightarrow> cache_get c service environment = Some d
    \<Longrightarrow> \<exists>s. r = Served s \<and> sd_config s = config_only d \<and> sd_commit s = cache_commit c \<and> sd_flags s = flags_for c environment"
  by (auto simp: answer_def Let_def)

definition since_of :: "client \<Rightarrow> string option" where
  "since_of c = (case cl_commit c of JStr s \<Rightarrow> Some s | _ \<Rightarrow> None)"

text \<open>C35: a watching client follows the server. After the answer to one held request a client that is
  granted the namespace, when it asks and when the wait ends, holds the commit the server has then, and
  if that is another one than it had, the served document of that commit over its defaults and the
  flags; a client that is refused, or whose namespace has no file, keeps everything it had.\<close>

theorem client_follows_server:
  assumes ask: "get_config retiring (co_service o') (co_environment o') (since_of c) before after g = ((r, l), g')"
    and take: "watch_answer o' act n (reply_response r) (c, w) = (c', w')" and live: "cl_watch c = Some n"
    and ok: "\<And>s. r = Served s \<Longrightarrow> json_ok (served_json s)"
  defines "ns \<equiv> co_service o' @ ''/'' @ co_environment o'" and "now \<equiv> (if long_poll (since_of c) before then after else before)"
  shows "if allowed before ns \<and> allowed now ns \<and> cache_get (mo_cache now) (co_service o') (co_environment o') \<noteq> None
    then cl_commit c' = (case cache_commit (mo_cache now) of Some t \<Rightarrow> JStr t | None \<Rightarrow> JNull)
      \<and> (r = NotModified \<longrightarrow> held_values c' = held_values c)
      \<and> (r \<noteq> NotModified \<longrightarrow> (\<exists>d. cache_get (mo_cache now) (co_service o') (co_environment o') = Some d
          \<and> cl_resolved c' = spread (spread [] (JObj (cl_defaults c))) (JObj (config_only d))
          \<and> cl_flags c' = spread [] (JObj (map (\<lambda>(k, b). (k, JBool b)) (flags_for (mo_cache now) (co_environment o'))))))
    else held_values c' = held_values c \<and> calls_of c' = calls_of c \<and> w' = w"
proof -
  have exact: "((\<exists>d. r = Forbidden d) \<longleftrightarrow> \<not> (allowed before ns \<and> allowed now ns))"
    "\<And>d. r = Forbidden d \<Longrightarrow> d = the_denial"
    "r = NotModified \<Longrightarrow> cache_commit (mo_cache now) = since_of c \<and> long_poll (since_of c) before"
    "r = NotFound \<Longrightarrow> cache_get (mo_cache now) (co_service o') (co_environment o') = None"
    "\<And>s. r = Served s \<Longrightarrow> \<exists>d. cache_get (mo_cache now) (co_service o') (co_environment o') = Some d \<and> sd_config s = config_only d
        \<and> sd_commit s = cache_commit (mo_cache now) \<and> sd_flags s = flags_for (mo_cache now) (co_environment o')"
    using get_config_exact [OF ask] by (auto simp: ns_def now_def)
  show ?thesis
  proof (cases "\<exists>s. r = Served s")
    case True
    then obtain s d where s: "r = Served s" and d: "cache_get (mo_cache now) (co_service o') (co_environment o') = Some d" "sd_config s = config_only d"
        "sd_commit s = cache_commit (mo_cache now)" "sd_flags s = flags_for (mo_cache now) (co_environment o')"
      using exact(5) by blast
    have "client_step o' act (WatchAnswered n (reply_response r)) (c, w) = (c', w')" using take by (simp add: client_step_def)
    from client_step_taken(1) [OF this] live
    have "held_values c' = overlaid (cl_defaults c) \<lparr>vc_commit = (case sd_commit s of Some t \<Rightarrow> JStr t | None \<Rightarrow> JNull),
        vc_config = JObj (sd_config s), vc_flags = JObj (map (\<lambda>(k, b). (k, JBool b)) (sd_flags s))\<rparr>"
      by (simp add: taken_def took_def s fetch_served [OF ok [OF s]])
    then show ?thesis using s d exact(1) by (auto simp: held_values_def overlaid_def)
  next
    case False
    then have "fetch_result (reply_response r) = Inr None" using exact(2) by (intro unserved_response) auto
    then have same: "c' = c" "w' = w" using take live by (auto simp: watch_answer_def)
    have since: "since_of c = Some t \<Longrightarrow> cl_commit c = JStr t" for t by (simp add: since_of_def split: jsval.splits)
    show ?thesis
    proof (cases r)
      case NotModified
      then obtain t where "since_of c = Some t" "cache_commit (mo_cache now) = Some t"
        using exact(3) by (cases "since_of c") (auto simp: long_poll_def)
      with same since NotModified show ?thesis by simp
    qed (use same exact False in auto)
  qed
qed

text \<open>A client at commit 7 whose held request ends when commit 8 is loaded.\<close>

theorem client_follows_server_witness:
  "let c = (client_watch demo_client)\<lparr>cl_resolved := cl_defaults demo_client\<rparr>;
       ((r, _), _) = get_config (\<lambda>_. False) ''iam'' ''prod'' (since_of c) (demo_moment demo_registry ''7'') (demo_moment demo_registry ''8'') new_guard;
       (c', _) = watch_answer demo_client_options (\<lambda>_. Inr ()) 0 (reply_response r) (c, \<lparr>fs_files = [], fs_clock = 0, fs_fails = (\<lambda>_. False)\<rparr>)
   in cl_commit c' = JStr ''8'' \<and> cl_resolved c' = [(''port'', JNum (NInt 1)), (''host'', JStr ''h'')]"
proof -
  let ?c = "(client_watch demo_client)\<lparr>cl_resolved := cl_defaults demo_client\<rparr>" and ?w = "\<lparr>fs_files = [], fs_clock = 0, fs_fails = (\<lambda>_. False)\<rparr>"
  let ?b = "demo_moment demo_registry ''7''" and ?k = "demo_moment demo_registry ''8''"
  let ?g = "get_config (\<lambda>_. False) (co_service demo_client_options) (co_environment demo_client_options) (since_of ?c) ?b ?k new_guard"
  let ?a = "watch_answer demo_client_options (\<lambda>_. Inr ()) 0 (reply_response (fst (fst ?g))) (?c, ?w)"
  have ask: "?g = ((fst (fst ?g), snd (fst ?g)), snd ?g)" and take: "?a = (fst ?a, snd ?a)" by simp_all
  have live: "cl_watch ?c = Some 0" and names: "co_service demo_client_options = ''iam''" "co_environment demo_client_options = ''prod''" by code_simp+
  have r: "fst (fst ?g) = Served \<lparr>sd_service = ''iam'', sd_environment = ''prod'', sd_commit = Some ''8'', sd_retiring = False,
      sd_config = [(''port'', JNum (NInt 1))], sd_flags = [], sd_synced = None\<rparr>" by code_simp
  have ok: "json_ok (served_json \<lparr>sd_service = ''iam'', sd_environment = ''prod'', sd_commit = Some ''8'', sd_retiring = False,
      sd_config = [(''port'', JNum (NInt 1))], sd_flags = [], sd_synced = None\<rparr>)" by code_simp
  have al: "allowed ?b ''iam/prod''" "allowed ?k ''iam/prod''"
    by (simp_all add: allowed_def demo_moment_def identify_def demo_registry_def may_read_def uid_of_def)
  have v: "long_poll (since_of ?c) ?b" "cache_commit (mo_cache ?k) = Some ''8''"
    "cache_get (mo_cache ?k) ''iam'' ''prod'' = Some [(''port'', JNum (NInt 1)), (''version'', JNum (NInt 2))]"
    "spread (spread [] (JObj (cl_defaults ?c))) (JObj (config_only [(''port'', JNum (NInt 1)), (''version'', JNum (NInt 2))]))
      = [(''port'', JNum (NInt 1)), (''host'', JStr ''h'')]" by code_simp+
  have "cl_commit (fst ?a) = JStr ''8'' \<and> cl_resolved (fst ?a) = [(''port'', JNum (NInt 1)), (''host'', JStr ''h'')]"
    using client_follows_server [OF ask take live] ok al v r by (simp add: names)
  then show ?thesis by (simp add: Let_def case_prod_beta names)
qed

text \<open>A held request outlives the client's default patience: an unchanged server answers after its wait,
  the client gives the request up before that.\<close>

lemma quiet_watch_times_out: "default_timeout_ms < default_wait_ms"
  by (simp add: default_timeout_ms_def default_wait_ms_def)

end
