(* ===== verification/Logging.thy ===== *)
theory Logging
  imports Documents
begin

section \<open>Log lines (src/logging/message.ts, src/logging.ts)\<close>

text \<open>
  How an event and its fields become a line, and the wrapper \<open>logged\<close> around an operation. A logger of
  the package pino is the list of lines given to it; an error that was caught is what the code reads of
  it. The time an operation takes is a parameter. A number is printed with one decimal as the exact
  decimal it is, halves away from zero.
\<close>

subsection \<open>The text of an event\<close>

definition to_fixed1 :: "jsnum \<Rightarrow> string" where
  "to_fixed1 n = (case n of
     NInt i \<Rightarrow> int_str i @ ''.0''
   | NDec m e \<Rightarrow> (let r = nat ((\<bar>m\<bar> * 20 + 10 ^ Suc e) div (2 * 10 ^ Suc e))
       in (if m < 0 then ''-'' else []) @ nat_str (r div 10) @ ''.'' @ nat_str (r mod 10))
   | _ \<Rightarrow> num_str n)"

definition capitalised :: "string \<Rightarrow> string" where
  "capitalised s = (case s of [] \<Rightarrow> [] | c # cs \<Rightarrow> to_upper_char c # cs)"

definition event_tokens :: "string \<Rightarrow> string list" where
  "event_tokens event = filter (\<lambda>t. t \<noteq> []) (concat (map (split_on (CHR ''-''))
     (split_on (CHR ''.'') (if starts_with ''config.'' event then drop 7 event else event))))"

definition phrase_event :: "string \<Rightarrow> string" where
  "phrase_event event = (let tokens = event_tokens event in
     if tokens = [] then event
     else let final = List.last tokens;
         head = join '' '' (map (\<lambda>t. if t = ''db'' then ''database'' else if t = ''ui'' then ''console'' else t) (butlast tokens));
         verb = (if final = ''start'' then ''started'' else if final = ''ok'' then ''completed'' else if final = ''failed'' then ''failed'' else final)
       in capitalised (if head \<noteq> [] then head @ '' '' @ verb else verb))"

definition text_field :: "jsval \<Rightarrow> string \<Rightarrow> string list" where
  "text_field fields k = (case prop_of fields k of JStr s \<Rightarrow> if s \<noteq> [] then [s] else [] | _ \<Rightarrow> [])"

definition message_extras :: "jsval \<Rightarrow> string list" where
  "message_extras fields =
     text_field fields ''service'' @ text_field fields ''name'' @ text_field fields ''environment''
     @ (case (prop_of fields ''method'', prop_of fields ''path'') of (JStr m, JStr p) \<Rightarrow> [m @ '' '' @ p] | _ \<Rightarrow> [])
     @ (case prop_of fields ''status'' of JNum n \<Rightarrow> [num_str n] | _ \<Rightarrow> [])
     @ map (\<lambda>c. ''git '' @ c) (text_field fields ''cmd'')
     @ text_field fields ''code'' @ text_field fields ''detail'' @ text_field fields ''error_messages'' @ text_field fields ''reason''"

definition middle_dot :: string where
  "middle_dot = [CHR '' '', CHR 0xC2, CHR 0xB7, CHR '' '']"

definition processed_message :: "string \<Rightarrow> jsval \<Rightarrow> string" where
  "processed_message event fields = (let phrase = phrase_event event; extras = message_extras fields;
       text = (if extras \<noteq> [] then phrase @ '': '' @ join middle_dot extras else phrase)
     in case prop_of fields ''duration_ms'' of
       JNum n \<Rightarrow> if num_is_finite n then text @ '' ('' @ to_fixed1 n @ ''ms)'' else text
     | _ \<Rightarrow> text)"

subsection \<open>Lines\<close>

datatype log_level = LogDebug | LogWarn | LogError

record caught =
  ct_message :: string
  ct_code :: string
  ct_status :: jsval

record log_line =
  ln_level :: log_level
  ln_fields :: obj
  ln_error :: "caught option"
  ln_msg :: string

definition line_for :: "log_level \<Rightarrow> string \<Rightarrow> obj \<Rightarrow> caught option \<Rightarrow> log_line" where
  "line_for level event fs err = (let msg = processed_message event (JObj fs) in
     \<lparr>ln_level = level, ln_fields = merge_members [(''event'', JStr event)] fs, ln_error = err,
       ln_msg = (case err of
         Some e \<Rightarrow> if ct_message e \<noteq> [] \<and> \<not> contains (ct_message e) msg then msg @ '': '' @ ct_message e else msg
       | None \<Rightarrow> msg)\<rparr>)"

definition log_caught :: "caught \<Rightarrow> string \<Rightarrow> obj \<Rightarrow> log_line" where
  "log_caught error event fs = (
     if ct_code error = ''ENOENT'' then line_for LogDebug event (merge_members fs [(''code'', JStr (ct_code error))]) (Some error)
     else line_for LogError event (merge_members fs (if ct_code error \<noteq> [] then [(''code'', JStr (ct_code error))] else [])) (Some error))"

definition log_refused :: "string \<Rightarrow> obj \<Rightarrow> log_line" where
  "log_refused event fs = line_for LogWarn event fs None"

subsection \<open>What an operation's answer says\<close>

definition string_member :: "jsval \<Rightarrow> string \<Rightarrow> obj" where
  "string_member v k = (case prop_of v k of JStr s \<Rightarrow> [(k, JStr s)] | _ \<Rightarrow> [])"

definition is_object :: "jsval \<Rightarrow> bool" where
  "is_object v = (case v of JObj _ \<Rightarrow> True | JArr _ \<Rightarrow> True | _ \<Rightarrow> False)"

definition problem_texts :: "jsval \<Rightarrow> string list" where
  "problem_texts e = (if \<not> truthy e \<or> \<not> is_object e then [to_str e] else text_field e ''message'')"

definition problem_keys :: "jsval \<Rightarrow> string list" where
  "problem_keys e = (if \<not> truthy e \<or> \<not> is_object e then [] else text_field e ''key'')"

definition flatten_problems :: "jsval \<Rightarrow> obj" where
  "flatten_problems errors = (case errors of
     JArr es \<Rightarrow> (let ks = concat (map problem_keys es); ms = concat (map problem_texts es) in
       (if ks \<noteq> [] then [(''error_keys'', JStr (join '','' ks))] else [])
       @ (if ms \<noteq> [] then [(''error_messages'', JStr (join ''; '' ms))] else []))
   | _ \<Rightarrow> [])"

definition flatten_failure :: "jsval \<Rightarrow> obj" where
  "flatten_failure error = (case error of
     JArr _ \<Rightarrow> flatten_problems error
   | JObj _ \<Rightarrow> string_member error ''code'' @ string_member error ''detail'' @ string_member error ''title''
       @ string_member error ''reason'' @ flatten_problems (prop_of error ''errors'')
   | _ \<Rightarrow> [(''detail'', JStr (to_str error))])"

definition outcome_failure :: "jsval \<Rightarrow> (log_level \<times> obj) option" where
  "outcome_failure result = (
     if \<not> is_object result then None
     else if prop_of result ''ok'' = JBool False then (let fs = flatten_failure (prop_of result ''error'') in
       Some (if get_prop fs ''code'' = JStr ''failed'' then LogError else LogWarn, fs))
     else if prop_of result ''kind'' \<in> {JStr ''invalid'', JStr ''conflict'', JStr ''deferred''} then
       Some (LogWarn, [(''kind'', JStr (to_str (prop_of result ''kind'')))] @ string_member result ''path''
         @ string_member result ''reason'' @ flatten_problems (prop_of result ''errors''))
     else if prop_of result ''pushed'' = JBool False then
       Some (LogWarn, [(''pushed'', JBool False)] @ string_member result ''reason'')
     else None)"

subsection \<open>The wrapper\<close>

text \<open>An operation turns a state into an answer or an error and a new state; \<open>show\<close> is its answer as the
  wrapper sees it, \<open>ms\<close> the time it took.\<close>

definition client_error :: "jsval \<Rightarrow> bool" where
  "client_error status = (case status of JNum n \<Rightarrow> num_less n (NInt 500) | _ \<Rightarrow> False)"

definition logged :: "bool \<Rightarrow> string \<Rightarrow> obj \<Rightarrow> jsnum \<Rightarrow> ('a \<Rightarrow> jsval) \<Rightarrow> ('s \<Rightarrow> (caught + 'a) \<times> 's) \<Rightarrow> 's \<Rightarrow> ((caught + 'a) \<times> 's) \<times> log_line list" where
  "logged logger event fs ms show_answer fn s = (
     if \<not> logger then (fn s, [])
     else let start = line_for LogDebug (event @ ''.start'') fs None; r = fn s;
         duration = [(''duration_ms'', JNum ms)]
       in case fst r of
         Inr a \<Rightarrow> (case outcome_failure (show_answer a) of
             Some (level, more_fields) \<Rightarrow>
               (r, [start, line_for level (event @ ''.failed'') (merge_members (merge_members fs duration) more_fields) None])
           | None \<Rightarrow> (r, [start, line_for LogDebug (event @ ''.ok'') (merge_members fs duration) None]))
       | Inl e \<Rightarrow> (r, [start, line_for (if client_error (ct_status e) then LogWarn else LogError) (event @ ''.failed'')
             (merge_members fs duration) (Some e)]))"

lemma message_examples:
  "processed_message ''config.db.snapshot.start'' (JObj [(''logger'', JStr ''store.db'')]) = ''Database snapshot started''"
  "processed_message ''config.db.snapshot.ok'' (JObj [(''duration_ms'', JNum (NDec 124355 3))]) = ''Database snapshot completed (12.4ms)''"
  by code_simp+

text \<open>Logging never changes what an operation does or answers, and writes its start and its end.\<close>

lemma logged_transparent:
  "fst (logged logger event fs ms show_answer fn s) = fn s"
  "logger \<Longrightarrow> \<exists>line. snd (logged logger event fs ms show_answer fn s) = [line_for LogDebug (event @ ''.start'') fs None, line]
     \<and> (ln_level line = LogDebug \<longleftrightarrow> (\<exists>a. fst (fn s) = Inr a \<and> outcome_failure (show_answer a) = None))"
proof -
  have l: "ln_level (line_for level event fs err) = level" for level event fs err by (simp add: line_for_def Let_def)
  have o: "outcome_failure v = Some (level, more_fs) \<Longrightarrow> level \<noteq> LogDebug" for v level more_fs
    by (auto simp: outcome_failure_def Let_def split: if_splits)
  show "fst (logged logger event fs ms show_answer fn s) = fn s"
    by (simp add: logged_def Let_def split: sum.split option.split)
  show "logger \<Longrightarrow> \<exists>line. snd (logged logger event fs ms show_answer fn s) = [line_for LogDebug (event @ ''.start'') fs None, line]
     \<and> (ln_level line = LogDebug \<longleftrightarrow> (\<exists>a. fst (fn s) = Inr a \<and> outcome_failure (show_answer a) = None))"
    using o by (auto simp: logged_def Let_def l split: sum.split option.split)
qed

end
