(* ===== verification/LogSink.thy ===== *)
theory LogSink
  imports Logging "HOL-Library.Multiset"
begin

section \<open>The log database (src/logging/db-sink.ts, src/logging/access-log.ts)\<close>

text \<open>
  Lines and access rows are buffered, taken in batches by \<open>flush\<close>, and inserted with one statement per
  table. The pool is a service: a batch in flight is settled by an event that says whether the query
  succeeded, and what the two tables have accepted is part of the state. A date is the text it was
  made from; \<open>now\<close> is the text of the current time.
\<close>

subsection \<open>Rows\<close>

definition redaction_mark :: string where
  "redaction_mark = ''__redacted__''"

definition secret_keys :: "string list" where
  "secret_keys = [''password'', ''token'', ''secret'', ''handle'', ''totp'', ''csrf'', ''authorization'', ''cookie'', ''age'', ''sops'']"

definition pii_keys :: "string list" where
  "pii_keys = [''email'', ''ip'', ''fingerprint'', ''phone'', ''address'']"

definition reserved_keys :: "string list" where
  "reserved_keys = [''level'', ''time'', ''pid'', ''hostname'', ''event'', ''msg'', ''message'', ''trace_id'', ''span_id'',
     ''request_id'', ''request_sid'', ''user_email'', ''err'', ''logger'', ''access'']"

definition sensitive :: "string \<Rightarrow> bool" where
  "sensitive key = (let lowered = to_lower key in
     list_ex (\<lambda>hint. contains hint lowered) secret_keys
     \<or> list_ex (\<lambda>hint. lowered = hint \<or> ends_with (''_'' @ hint) lowered) pii_keys)"

definition redact :: "obj \<Rightarrow> obj" where
  "redact attributes = foldl (\<lambda>safe (k, v). AList.update k (if sensitive k then JStr redaction_mark else v) safe) [] attributes"

text \<open>The error of a parsed line: its string members.\<close>

definition err_of :: "jsval \<Rightarrow> obj" where
  "err_of line = (let err = prop_of line ''err'' in
     if is_object err then string_member err ''type'' @ string_member err ''message'' @ string_member err ''stack'' else [])"

definition nullish_or :: "jsval \<Rightarrow> jsval \<Rightarrow> jsval" where
  "nullish_or v d = (if v = JUndef \<or> v = JNull then d else v)"

definition to_number :: "jsval \<Rightarrow> jsnum" where
  "to_number v = (case v of JUndef \<Rightarrow> NNaN | JNull \<Rightarrow> NInt 0 | JBool b \<Rightarrow> NInt (if b then 1 else 0) | JNum n \<Rightarrow> n
     | JStr s \<Rightarrow> js_number s | _ \<Rightarrow> js_number (to_str v))"

definition line_level :: "jsval \<Rightarrow> jsnum" where
  "line_level line = to_number (nullish_or (prop_of line ''level'') (JNum (NInt 30)))"

definition at_least :: "jsnum \<Rightarrow> int \<Rightarrow> bool" where
  "at_least n i = (n \<noteq> NNaN \<and> \<not> num_less n (NInt i))"

definition line_break :: string where
  "line_break = [CHR 0x0A]"

definition message_of :: "jsval \<Rightarrow> obj \<Rightarrow> string" where
  "message_of line err = (let
     event = to_str (nullish_or (prop_of line ''event'') (JStr []));
     msg = (case text_field line ''msg'' of m # _ \<Rightarrow> m
       | [] \<Rightarrow> (case text_field line ''message'' of m # _ \<Rightarrow> m | [] \<Rightarrow> processed_message event line))
     in case (at_least (line_level line) 50, get_prop err ''stack'', get_prop err ''message'') of
       (True, JStr (c # stack), _) \<Rightarrow> msg @ line_break @ c # stack
     | (_, _, JStr (c # text)) \<Rightarrow> if \<not> contains (c # text) msg then msg @ '': '' @ c # text else msg
     | _ \<Rightarrow> msg)"

record app_row =
  ar_occurred :: string
  ar_level :: jsnum
  ar_message :: string
  ar_logger :: jsval
  ar_error_type :: jsval
  ar_error_stack :: jsval
  ar_trace :: jsval
  ar_span :: jsval
  ar_request :: jsval
  ar_sid :: jsval
  ar_pid :: jsval
  ar_attributes :: obj

text \<open>\<open>accept\<close>: an access row, or a row made of the line.\<close>

definition line_attributes :: "jsval \<Rightarrow> obj" where
  "line_attributes line = filter (\<lambda>(k, _). k \<notin> set reserved_keys) (entries line)"

definition app_row_of :: "string \<Rightarrow> jsval \<Rightarrow> app_row" where
  "app_row_of now line = (let err = err_of line;
     sid = to_str (nullish_or (nullish_or (prop_of line ''request_sid'') (prop_of line ''request_id'')) (JStr []));
     request = (if sid \<noteq> [] then JStr sid else JUndef)
   in \<lparr>ar_occurred = (if truthy (prop_of line ''time'') then to_str (prop_of line ''time'') else now),
     ar_level = line_level line, ar_message = message_of line err, ar_logger = prop_of line ''logger'',
     ar_error_type = get_prop err ''type'',
     ar_error_stack = (if at_least (line_level line) 50 then get_prop err ''stack'' else JUndef),
     ar_trace = prop_of line ''trace_id'', ar_span = prop_of line ''span_id'', ar_request = request, ar_sid = request,
     ar_pid = prop_of line ''pid'', ar_attributes = redact (line_attributes line)\<rparr>)"

subsection \<open>Statements\<close>

record statement =
  st_table :: string
  st_columns :: "string list"
  st_placeholders :: string
  st_values :: "jsval list"

definition level_name :: "jsnum \<Rightarrow> string" where
  "level_name n = (if n = NInt 10 then ''trace'' else if n = NInt 20 then ''debug'' else if n = NInt 30 then ''info''
     else if n = NInt 40 then ''warn'' else if n = NInt 50 then ''error'' else if n = NInt 60 then ''fatal'' else num_str n)"

definition mark_cell :: "string list \<times> jsval list \<Rightarrow> jsval \<Rightarrow> string list \<times> jsval list" where
  "mark_cell = (\<lambda>(marks, vs) v. (marks @ [''$'' @ nat_str (length (vs @ [v]))], vs @ [v]))"

definition mark_row :: "string list \<times> jsval list \<Rightarrow> jsval list \<Rightarrow> string list \<times> jsval list" where
  "mark_row = (\<lambda>(chunks, vs) row. case foldl mark_cell ([], vs) row of
     (marks, vs') \<Rightarrow> (chunks @ [''('' @ join '','' marks @ '')''], vs'))"

definition multi_values :: "jsval list list \<Rightarrow> string \<times> jsval list" where
  "multi_values rows = (case foldl mark_row ([], []) rows of (chunks, vs) \<Rightarrow> (join '','' chunks, vs))"

record sink_options =
  so_service :: string
  so_version :: string
  so_environment :: string
  so_host :: string

definition app_columns :: "string list" where
  "app_columns = [''occurred_at'', ''service_name'', ''service_version'', ''environment'', ''pid'', ''level'', ''level_name'',
     ''message'', ''logger'', ''error_type'', ''error_stack'', ''trace_id'', ''span_id'', ''request_id'', ''request_sid'', ''attributes'']"

definition access_columns :: "string list" where
  "access_columns = [''occurred_at'', ''service_name'', ''environment'', ''hostname'', ''method'', ''route'', ''path'', ''status_code'',
     ''duration_ms'', ''response_bytes'', ''source_ip'', ''user_agent'', ''user_id'', ''user_email'', ''service_id'', ''trace_id'',
     ''request_id'', ''request_sid'']"

definition or_null :: "jsval \<Rightarrow> jsval" where
  "or_null v = nullish_or v JNull"

definition app_cells :: "sink_options \<Rightarrow> app_row \<Rightarrow> jsval list" where
  "app_cells o' r = [JStr (ar_occurred r), JStr (so_service o'), JStr (so_version o'), JStr (so_environment o'), or_null (ar_pid r),
     JNum (ar_level r), JStr (level_name (ar_level r)), JStr (ar_message r), or_null (ar_logger r), or_null (ar_error_type r),
     or_null (ar_error_stack r), or_null (ar_trace r), or_null (ar_span r), or_null (ar_request r),
     or_null (nullish_or (ar_sid r) (ar_request r)), JStr (json (JObj (ar_attributes r)))]"

definition access_cells :: "sink_options \<Rightarrow> jsval \<Rightarrow> jsval list" where
  "access_cells o' r = [prop_of r ''occurredAt'', JStr (so_service o'), JStr (so_environment o'), JStr (so_host o'), prop_of r ''method'',
     or_null (prop_of r ''route''), prop_of r ''path'', prop_of r ''statusCode'', prop_of r ''durationMs'', or_null (prop_of r ''responseBytes''),
     or_null (prop_of r ''sourceIp''), or_null (prop_of r ''userAgent''), or_null (prop_of r ''userId''), or_null (prop_of r ''userEmail''),
     or_null (prop_of r ''serviceId''), or_null (prop_of r ''traceId''), prop_of r ''requestId'', prop_of r ''requestId'']"

definition insert_app :: "sink_options \<Rightarrow> app_row list \<Rightarrow> statement" where
  "insert_app o' rows = (case multi_values (map (app_cells o') rows) of (marks, vs) \<Rightarrow>
     \<lparr>st_table = ''log.app_log'', st_columns = app_columns, st_placeholders = marks, st_values = vs\<rparr>)"

definition insert_access :: "sink_options \<Rightarrow> jsval list \<Rightarrow> statement" where
  "insert_access o' rows = (case multi_values (map (access_cells o') rows) of (marks, vs) \<Rightarrow>
     \<lparr>st_table = ''log.access_log'', st_columns = access_columns, st_placeholders = marks, st_values = vs\<rparr>)"

subsection \<open>The sink\<close>

datatype stage = InsertingApp | InsertingAccess

record batch =
  bt_app :: "app_row list"
  bt_access :: "jsval list"
  bt_stage :: stage

record sink =
  sk_app :: "app_row list"
  sk_access :: "jsval list"
  sk_timer :: bool
  sk_closed :: bool
  sk_dropped :: nat
  sk_flight :: "(nat \<times> batch) list"
  sk_next :: nat
  sk_app_table :: "app_row list"
  sk_access_table :: "jsval list"

definition new_sink :: sink where
  "new_sink = \<lparr>sk_app = [], sk_access = [], sk_timer = False, sk_closed = False, sk_dropped = 0, sk_flight = [], sk_next = 0,
     sk_app_table = [], sk_access_table = []\<rparr>"

definition batch_rows :: nat where
  "batch_rows = 100"

definition max_buffered :: nat where
  "max_buffered = 5000"

text \<open>\<open>flush\<close> up to its first query; how the queries end are events of their own.\<close>

definition flush :: "sink \<Rightarrow> sink" where
  "flush s = (let s' = s\<lparr>sk_timer := False, sk_app := [], sk_access := []\<rparr> in
     if sk_app s = [] \<and> sk_access s = [] then s'
     else s'\<lparr>sk_flight := sk_flight s @ [(sk_next s, \<lparr>bt_app = sk_app s, bt_access = sk_access s,
         bt_stage = (if sk_app s \<noteq> [] then InsertingApp else InsertingAccess)\<rparr>)], sk_next := Suc (sk_next s)\<rparr>)"

definition lose :: "nat \<Rightarrow> sink \<Rightarrow> sink" where
  "lose n s = s\<lparr>sk_dropped := sk_dropped s + n\<rparr>"

definition after_push :: "nat \<Rightarrow> sink \<Rightarrow> sink" where
  "after_push n s = (if batch_rows \<le> n then flush s else s\<lparr>sk_timer := True\<rparr>)"

definition push_app :: "app_row \<Rightarrow> sink \<Rightarrow> sink" where
  "push_app r s = (if sk_closed s then s
     else let s1 = (if max_buffered \<le> length (sk_app s) then lose 1 (s\<lparr>sk_app := tl (sk_app s)\<rparr>) else s);
         s2 = s1\<lparr>sk_app := sk_app s1 @ [r]\<rparr>
       in after_push (length (sk_app s2)) s2)"

definition push_access :: "jsval \<Rightarrow> sink \<Rightarrow> sink" where
  "push_access r s = (if sk_closed s then s
     else let s1 = (if max_buffered \<le> length (sk_access s) then lose 1 (s\<lparr>sk_access := tl (sk_access s)\<rparr>) else s);
         s2 = s1\<lparr>sk_access := sk_access s1 @ [r]\<rparr>
       in after_push (length (sk_access s2)) s2)"

definition sink_accept :: "string \<Rightarrow> jsval \<Rightarrow> sink \<Rightarrow> sink" where
  "sink_accept now line s = (if prop_of line ''access'' \<noteq> JUndef then push_access (prop_of line ''access'') s
     else push_app (app_row_of now line) s)"

definition sink_write :: "string \<Rightarrow> string \<Rightarrow> sink \<Rightarrow> sink" where
  "sink_write now chunk s = (case json_parse chunk of
     None \<Rightarrow> lose 1 s | Some JNull \<Rightarrow> lose 1 s | Some line \<Rightarrow> sink_accept now line s)"

text \<open>A query of batch \<open>n\<close> ends.\<close>

definition settle :: "nat \<Rightarrow> bool \<Rightarrow> sink \<Rightarrow> sink" where
  "settle n ok s = (case map_of (sk_flight s) n of
     None \<Rightarrow> s
   | Some b \<Rightarrow> let landed = s\<lparr>sk_flight := AList.delete n (sk_flight s)\<rparr> in
       if \<not> ok then lose (length (bt_app b) + length (bt_access b)) landed
       else (case bt_stage b of
         InsertingApp \<Rightarrow> if bt_access b \<noteq> []
           then s\<lparr>sk_app_table := sk_app_table s @ bt_app b, sk_flight := AList.update n (b\<lparr>bt_stage := InsertingAccess\<rparr>) (sk_flight s)\<rparr>
           else landed\<lparr>sk_app_table := sk_app_table s @ bt_app b\<rparr>
       | InsertingAccess \<Rightarrow> landed\<lparr>sk_access_table := sk_access_table s @ bt_access b\<rparr>))"

definition close_end :: "sink \<Rightarrow> sink" where
  "close_end s = s\<lparr>sk_closed := True\<rparr>"

datatype sink_event =
    Written string string
  | Requested jsval
  | TimerFired
  | Flushed
  | QueryEnded nat bool
  | CloseCalled
  | CloseReturned

definition sink_step :: "sink_event \<Rightarrow> sink \<Rightarrow> sink" where
  "sink_step e s = (case e of
     Written now chunk \<Rightarrow> sink_write now chunk s
   | Requested row \<Rightarrow> push_access row s
   | TimerFired \<Rightarrow> if sk_timer s then flush s else s
   | Flushed \<Rightarrow> flush s
   | QueryEnded n ok \<Rightarrow> settle n ok s
   | CloseCalled \<Rightarrow> flush s
   | CloseReturned \<Rightarrow> close_end s)"

definition sink_run :: "sink_event list \<Rightarrow> sink \<Rightarrow> sink" where
  "sink_run es s = foldl (\<lambda>s e. sink_step e s) s es"

subsection \<open>Access rows\<close>

record http_exchange =
  hx_method :: string
  hx_route :: "string option"
  hx_url :: string
  hx_status :: nat
  hx_elapsed :: jsnum
  hx_length :: jsval
  hx_session :: "string option"
  hx_id :: string

definition path_of :: "string \<Rightarrow> string" where
  "path_of url = takeWhile (\<lambda>c. c \<noteq> CHR ''?'') url"

definition access_row :: "string \<Rightarrow> string option \<Rightarrow> http_exchange \<Rightarrow> jsval" where
  "access_row now user x = JObj ([(''occurredAt'', JStr now), (''method'', JStr (hx_method x))]
     @ (case hx_route x of Some r \<Rightarrow> if r \<noteq> [] then [(''route'', JStr r)] else [] | None \<Rightarrow> [])
     @ [(''path'', JStr (path_of (hx_url x))), (''statusCode'', JNum (NInt (int (hx_status x)))), (''durationMs'', JNum (hx_elapsed x))]
     @ (if num_is_finite (to_number (hx_length x)) then [(''responseBytes'', JNum (to_number (hx_length x)))] else [])
     @ (case user of Some u \<Rightarrow> if u \<noteq> [] then [(''userEmail'', JStr u)] else [] | None \<Rightarrow> [])
     @ (case hx_session x of Some i \<Rightarrow> if i \<noteq> [] then [(''userId'', JStr i)] else [] | None \<Rightarrow> [])
     @ [(''requestId'', JStr (hx_id x))])"

definition failure_line :: "http_exchange \<Rightarrow> log_line option" where
  "failure_line x = (let fs = [(''logger'', JStr ''http''), (''method'', JStr (hx_method x)), (''path'', JStr (path_of (hx_url x))),
       (''status'', JNum (NInt (int (hx_status x))))]
     in if 500 \<le> hx_status x then Some (line_for LogError ''config.request.failed'' fs None)
       else if 400 \<le> hx_status x then Some (log_refused ''config.request.failed'' fs) else None)"

definition on_response :: "string \<Rightarrow> string option \<Rightarrow> http_exchange \<Rightarrow> sink \<Rightarrow> sink \<times> log_line option" where
  "on_response now user x s = (push_access (access_row now user x) s, failure_line x)"

subsection \<open>Nothing is lost without being counted\<close>

lemma flight_delete:
  fixes g :: "batch \<Rightarrow> 'a multiset"
  shows "distinct (map fst xs) \<Longrightarrow> map_of xs n = Some b \<Longrightarrow>
    sum_list (map (\<lambda>(n, b). g b) xs) = g b + sum_list (map (\<lambda>(n, b). g b) (AList.delete n xs))"
proof (induction xs)
  case (Cons x xs)
  then show ?case
    by (cases x) (auto simp: delete_conv image_iff dest: map_of_SomeD intro!: arg_cong [where f = sum_list] arg_cong2 [where f = map] filter_True [symmetric])
qed simp

lemma flight_update:
  fixes g :: "batch \<Rightarrow> 'a multiset"
  shows "distinct (map fst xs) \<Longrightarrow> map_of xs n = Some b \<Longrightarrow>
    sum_list (map (\<lambda>(n, b). g b) (AList.update n b' xs)) + g b = sum_list (map (\<lambda>(n, b). g b) xs) + g b'"
  by (induction xs) (auto simp: ac_simps split: if_splits)

lemma list_all_update: "list_all P xs \<Longrightarrow> P (n, y) \<Longrightarrow> list_all P (AList.update n y xs)"
  by (induction xs) auto

definition waiting_app :: "batch \<Rightarrow> app_row multiset" where
  "waiting_app b = (if bt_stage b = InsertingApp then mset (bt_app b) else {#})"

definition all_app :: "sink \<Rightarrow> app_row multiset" where
  "all_app s = mset (sk_app s) + sum_list (map (\<lambda>(n, b). waiting_app b) (sk_flight s)) + mset (sk_app_table s)"

definition all_access :: "sink \<Rightarrow> jsval multiset" where
  "all_access s = mset (sk_access s) + sum_list (map (\<lambda>(n, b). mset (bt_access b)) (sk_flight s)) + mset (sk_access_table s)"

definition batch_ok :: "batch \<Rightarrow> bool" where
  "batch_ok b = (length (bt_app b) \<le> batch_rows \<and> length (bt_access b) \<le> batch_rows
     \<and> (case bt_stage b of InsertingApp \<Rightarrow> bt_app b \<noteq> [] | InsertingAccess \<Rightarrow> bt_access b \<noteq> []))"

definition sink_ok :: "sink \<Rightarrow> bool" where
  "sink_ok s = (length (sk_app s) < batch_rows \<and> length (sk_access s) < batch_rows
     \<and> (sk_app s \<noteq> [] \<or> sk_access s \<noteq> [] \<longrightarrow> sk_timer s)
     \<and> distinct (map fst (sk_flight s)) \<and> list_all (\<lambda>(n, b). n < sk_next s \<and> batch_ok b) (sk_flight s))"

lemma sink_new: "sink_ok new_sink" "all_app new_sink = {#}" "all_access new_sink = {#}"
  by (simp_all add: sink_ok_def new_sink_def batch_rows_def all_app_def all_access_def)

text \<open>What an event adds to the two tables' rows.\<close>

definition line_rows :: "string \<Rightarrow> string \<Rightarrow> app_row list \<times> jsval list" where
  "line_rows now chunk = (case json_parse chunk of
     None \<Rightarrow> ([], []) | Some JNull \<Rightarrow> ([], [])
   | Some line \<Rightarrow> if prop_of line ''access'' \<noteq> JUndef then ([], [prop_of line ''access'']) else ([app_row_of now line], []))"

definition event_rows :: "sink_event \<Rightarrow> sink \<Rightarrow> app_row list \<times> jsval list" where
  "event_rows e s = (if sk_closed s then ([], []) else case e of
     Written now chunk \<Rightarrow> line_rows now chunk | Requested row \<Rightarrow> ([], [row]) | _ \<Rightarrow> ([], []))"

fun given_app :: "sink_event list \<Rightarrow> sink \<Rightarrow> app_row multiset" where
  "given_app [] s = {#}"
| "given_app (e # es) s = mset (fst (event_rows e s)) + given_app es (sink_step e s)"

fun given_access :: "sink_event list \<Rightarrow> sink \<Rightarrow> jsval multiset" where
  "given_access [] s = {#}"
| "given_access (e # es) s = mset (snd (event_rows e s)) + given_access es (sink_step e s)"

definition counted :: "sink \<Rightarrow> app_row multiset \<Rightarrow> jsval multiset \<Rightarrow> sink \<Rightarrow> bool" where
  "counted s a x s' = (sink_ok s' \<and> (\<exists>la lx. all_app s + a = all_app s' + la \<and> all_access s + x = all_access s' + lx
     \<and> sk_dropped s + size la + size lx \<le> sk_dropped s'))"

lemma countedI:
  "sink_ok s' \<Longrightarrow> all_app s + a = all_app s' + la \<Longrightarrow> all_access s + x = all_access s' + lx
    \<Longrightarrow> sk_dropped s + size la + size lx \<le> sk_dropped s' \<Longrightarrow> counted s a x s'"
  by (auto simp: counted_def)

lemma counted_trans: "counted s a x s1 \<Longrightarrow> counted s1 b y s2 \<Longrightarrow> counted s (a + b) (x + y) s2"
proof -
  assume 1: "counted s a x s1" and 2: "counted s1 b y s2"
  obtain la lx where l: "all_app s + a = all_app s1 + la" "all_access s + x = all_access s1 + lx" "sk_dropped s + size la + size lx \<le> sk_dropped s1"
    using 1 by (auto simp: counted_def)
  obtain ma mx where m: "all_app s1 + b = all_app s2 + ma" "all_access s1 + y = all_access s2 + mx" "sk_dropped s1 + size ma + size mx \<le> sk_dropped s2"
    and ok: "sink_ok s2" using 2 by (auto simp: counted_def)
  have "all_app s + (a + b) = all_app s2 + (la + ma)" using l(1) m(1) by (metis add.assoc add.commute)
  moreover have "all_access s + (x + y) = all_access s2 + (lx + mx)" using l(2) m(2) by (metis add.assoc add.commute)
  ultimately show ?thesis using l(3) m(3) by (intro countedI [OF ok]) auto
qed

lemma flush_counted:
  assumes "length (sk_app s) \<le> batch_rows" "length (sk_access s) \<le> batch_rows" "distinct (map fst (sk_flight s))"
    "list_all (\<lambda>(n, b). n < sk_next s \<and> batch_ok b) (sk_flight s)"
  shows "counted s {#} {#} (flush s)"
proof (rule countedI [where la = "{#}" and lx = "{#}"])
  have fresh: "sk_next s \<notin> fst ` set (sk_flight s)" using assms(4) by (auto simp: list_all_iff)
  have "list_all (\<lambda>(n, b). n < Suc (sk_next s) \<and> batch_ok b) (sk_flight s)" using assms(4) by (auto simp: list_all_iff)
  then show "sink_ok (flush s)"
    using assms fresh by (auto simp: sink_ok_def flush_def Let_def batch_rows_def batch_ok_def)
qed (auto simp: flush_def all_app_def all_access_def waiting_app_def Let_def lose_def)

lemma after_push_counted:
  assumes "length (sk_app s) \<le> batch_rows" "length (sk_access s) \<le> batch_rows" "distinct (map fst (sk_flight s))"
    "list_all (\<lambda>(n, b). n < sk_next s \<and> batch_ok b) (sk_flight s)"
    and "n < batch_rows \<Longrightarrow> length (sk_app s) < batch_rows \<and> length (sk_access s) < batch_rows"
  shows "counted s {#} {#} (after_push n s)"
proof (cases "batch_rows \<le> n")
  case False
  then show ?thesis unfolding after_push_def
    by (intro countedI [where la = "{#}" and lx = "{#}"]) (use assms in \<open>auto simp: sink_ok_def all_app_def all_access_def\<close>)
qed (simp add: after_push_def flush_counted assms)

lemma push_app_counted: "sink_ok s \<Longrightarrow> counted s (if sk_closed s then {#} else {#r#}) {#} (push_app r s)"
proof (cases "sk_closed s")
  case False
  assume ok: "sink_ok s"
  let ?s = "s\<lparr>sk_app := sk_app s @ [r]\<rparr>"
  have "counted ?s {#} {#} (after_push (length (sk_app ?s)) ?s)"
    by (rule after_push_counted) (use ok in \<open>auto simp: sink_ok_def\<close>)
  moreover have "push_app r s = after_push (length (sk_app ?s)) ?s"
    using ok False by (simp add: push_app_def sink_ok_def batch_rows_def max_buffered_def Let_def)
  moreover have "all_app s + {#r#} = all_app ?s" "all_access s = all_access ?s" by (simp_all add: all_app_def all_access_def)
  ultimately show ?thesis using False by (simp add: counted_def)
qed (auto simp: push_app_def counted_def)

lemma push_access_counted: "sink_ok s \<Longrightarrow> counted s {#} (if sk_closed s then {#} else {#r#}) (push_access r s)"
proof (cases "sk_closed s")
  case False
  assume ok: "sink_ok s"
  let ?s = "s\<lparr>sk_access := sk_access s @ [r]\<rparr>"
  have "counted ?s {#} {#} (after_push (length (sk_access ?s)) ?s)"
    by (rule after_push_counted) (use ok in \<open>auto simp: sink_ok_def\<close>)
  moreover have "push_access r s = after_push (length (sk_access ?s)) ?s"
    using ok False by (simp add: push_access_def sink_ok_def batch_rows_def max_buffered_def Let_def)
  moreover have "all_access s + {#r#} = all_access ?s" "all_app s = all_app ?s" by (simp_all add: all_app_def all_access_def)
  ultimately show ?thesis using False by (simp add: counted_def)
qed (auto simp: push_access_def counted_def)

lemma lose_counted: "sink_ok s \<Longrightarrow> counted s {#} {#} (lose n s)"
  by (rule countedI [where la = "{#}" and lx = "{#}"]) (simp_all add: lose_def sink_ok_def all_app_def all_access_def)

lemma settle_counted:
  assumes ok: "sink_ok s"
  shows "counted s {#} {#} (settle n b s)"
proof (cases "map_of (sk_flight s) n")
  case None
  then show ?thesis using ok by (auto simp: settle_def counted_def)
next
  case (Some x)
  have d: "distinct (map fst (sk_flight s))" and x: "batch_ok x" "n < sk_next s"
    and all: "list_all (\<lambda>(n, b). n < sk_next s \<and> batch_ok b) (sk_flight s)"
    using ok Some by (auto simp: sink_ok_def list_all_iff dest!: map_of_SomeD)
  note del = flight_delete [OF d Some] and upd = flight_update [OF d Some]
  have del_ok: "list_all (\<lambda>(n, b). n < sk_next s \<and> batch_ok b) (AList.delete n (sk_flight s))"
    using all by (auto simp: list_all_iff AList.delete_eq)
  have upd_ok: "batch_ok y \<Longrightarrow> list_all (\<lambda>(n, b). n < sk_next s \<and> batch_ok b) (AList.update n y (sk_flight s))" for y
    using list_all_update [OF all] x(2) by simp
  show ?thesis
  proof (cases b)
    case False
    show ?thesis unfolding settle_def Some option.case Let_def if_P [OF False]
      by (rule countedI [where la = "waiting_app x" and lx = "mset (bt_access x)"])
        (use ok del_ok del [of waiting_app] del [of "\<lambda>b. mset (bt_access b)"] in
          \<open>auto simp: sink_ok_def lose_def all_app_def all_access_def waiting_app_def distinct_delete\<close>)
  next
    case True
    show ?thesis
    proof (cases "bt_stage x")
      case InsertingAccess
      show ?thesis unfolding settle_def Some option.case Let_def
        by (rule countedI [where la = "{#}" and lx = "{#}"])
          (use True InsertingAccess ok del_ok del [of waiting_app] del [of "\<lambda>b. mset (bt_access b)"] in
            \<open>auto simp: sink_ok_def all_app_def all_access_def waiting_app_def distinct_delete\<close>)
    next
      case InsertingApp
      let ?y = "x\<lparr>bt_stage := InsertingAccess\<rparr>"
      show ?thesis
      proof (cases "bt_access x = []")
        case empty: True
        show ?thesis unfolding settle_def Some option.case Let_def
          by (rule countedI [where la = "{#}" and lx = "{#}"])
            (use True InsertingApp empty ok del_ok del [of waiting_app] del [of "\<lambda>b. mset (bt_access b)"] in
              \<open>auto simp: sink_ok_def all_app_def all_access_def waiting_app_def distinct_delete\<close>)
      next
        case False
        then have y: "batch_ok ?y" using x(1) by (simp add: batch_ok_def)
        show ?thesis unfolding settle_def Some option.case Let_def
          by (rule countedI [where la = "{#}" and lx = "{#}"])
            (use True InsertingApp False ok upd_ok [OF y] upd [of waiting_app ?y] upd [of "\<lambda>b. mset (bt_access b)" ?y] in
              \<open>auto simp: sink_ok_def all_app_def all_access_def waiting_app_def distinct_update\<close>)
      qed
    qed
  qed
qed

lemma sink_step_counted:
  assumes ok: "sink_ok s"
  shows "counted s (mset (fst (event_rows e s))) (mset (snd (event_rows e s))) (sink_step e s)"
proof -
  have same: "counted s {#} {#} s" using ok by (auto simp: counted_def)
  have flushed: "counted s {#} {#} (flush s)" using ok by (intro flush_counted) (auto simp: sink_ok_def)
  show ?thesis
  proof (cases e)
    case (Written now chunk)
    show ?thesis
      using Written push_app_counted [OF ok, of "app_row_of now (the (json_parse chunk))"] lose_counted [OF ok, of 1]
        push_access_counted [OF ok, of "prop_of (the (json_parse chunk)) ''access''"]
      by (auto simp: sink_step_def event_rows_def line_rows_def sink_write_def sink_accept_def split: option.split jsval.split)
  next
    case (Requested row)
    then show ?thesis using push_access_counted [OF ok, of row] by (cases "sk_closed s") (simp_all add: sink_step_def event_rows_def)
  next
    case (QueryEnded n b)
    then show ?thesis using settle_counted [OF ok, of n b] by (simp add: sink_step_def event_rows_def)
  next
    case CloseReturned
    then show ?thesis using ok by (auto simp: sink_step_def event_rows_def counted_def close_end_def sink_ok_def all_app_def all_access_def)
  qed (use same flushed in \<open>simp_all add: sink_step_def event_rows_def\<close>)
qed

lemma sink_run_counted: "sink_ok s \<Longrightarrow> counted s (given_app es s) (given_access es s) (sink_run es s)"
proof (induction es arbitrary: s)
  case Nil
  then show ?case by (auto simp: sink_run_def counted_def)
next
  case (Cons e es)
  from sink_step_counted [OF Cons.prems] have step: "counted s (mset (fst (event_rows e s))) (mset (snd (event_rows e s))) (sink_step e s)" .
  then have "sink_ok (sink_step e s)" by (simp add: counted_def)
  from counted_trans [OF step Cons.IH [OF this]] show ?case by (simp add: sink_run_def)
qed

text \<open>C37: the log sink accounts for every row. Whatever is written, whichever queries fail and in whatever
  order they end, each row given to the open sink is buffered, in an insertion that is under way, in its
  table, or lost and counted as dropped; the buffers stay below one batch, so no single insertion takes
  more than one hundred rows of a kind; and what is buffered has a timer that will flush it.\<close>

theorem log_rows_accounted:
  "\<exists>lost_app lost_access. (let s = sink_run es new_sink in
     given_app es new_sink = mset (sk_app s) + sum_list (map (\<lambda>(n, b). waiting_app b) (sk_flight s)) + mset (sk_app_table s) + lost_app
   \<and> given_access es new_sink = mset (sk_access s) + sum_list (map (\<lambda>(n, b). mset (bt_access b)) (sk_flight s)) + mset (sk_access_table s) + lost_access
   \<and> size lost_app + size lost_access \<le> sk_dropped s
   \<and> length (sk_app s) < batch_rows \<and> length (sk_access s) < batch_rows
   \<and> list_all (\<lambda>(n, b). length (bt_app b) \<le> batch_rows \<and> length (bt_access b) \<le> batch_rows) (sk_flight s)
   \<and> (sk_timer s \<or> (sk_app s = [] \<and> sk_access s = [])))"
proof -
  let ?s = "sink_run es new_sink"
  have c: "counted new_sink (given_app es new_sink) (given_access es new_sink) ?s" by (rule sink_run_counted [OF sink_new(1)])
  then obtain la lx where l: "given_app es new_sink = all_app ?s + la" "given_access es new_sink = all_access ?s + lx"
    "size la + size lx \<le> sk_dropped ?s" by (auto simp: counted_def sink_new)
  from c have "sink_ok ?s" by (simp add: counted_def)
  with l show ?thesis by (auto simp: sink_ok_def batch_ok_def list_all_iff Let_def all_app_def all_access_def ac_simps intro!: exI [of _ la] exI [of _ lx])
qed

text \<open>The limit of five thousand buffered rows is never reached: a full batch leaves the buffer first. And
  when only the second statement of a batch fails, the rows the first one stored are counted too.\<close>

lemma buffer_limit_unreached: "sink_ok s \<Longrightarrow> length (sk_app s) < max_buffered \<and> length (sk_access s) < max_buffered"
  by (simp add: sink_ok_def batch_rows_def max_buffered_def)

lemma dropped_overcounts:
  "let s = sink_run [Written ''t'' (json (JObj [(''event'', JStr ''a'')])), Requested (JObj []), Flushed, QueryEnded 0 True, QueryEnded 0 False] new_sink
   in length (sk_app_table s) = 1 \<and> sk_dropped s = 2"
  by code_simp

subsection \<open>Redaction\<close>

lemma redact_member: "(k, v) \<in> set (redact a) \<Longrightarrow> sensitive k \<Longrightarrow> v = JStr redaction_mark"
proof -
  let ?f = "\<lambda>safe (k, v). AList.update k (if sensitive k then JStr redaction_mark else v) safe"
  have "(\<forall>(k, v) \<in> set acc. sensitive k \<longrightarrow> v = JStr redaction_mark) \<Longrightarrow> (\<forall>(k, v) \<in> set (foldl ?f acc a). sensitive k \<longrightarrow> v = JStr redaction_mark)" for acc
  proof (induction a arbitrary: acc)
    case (Cons x a)
    obtain k v where x: "x = (k, v)" by (cases x)
    have "list_all (\<lambda>(k, v). sensitive k \<longrightarrow> v = JStr redaction_mark) (AList.update k (if sensitive k then JStr redaction_mark else v) acc)"
      by (rule list_all_update) (use Cons.prems in \<open>auto simp: list_all_iff\<close>)
    then show ?case using Cons.IH x by (auto simp: list_all_iff)
  qed simp
  from this [of "[]"] show "(k, v) \<in> set (redact a) \<Longrightarrow> sensitive k \<Longrightarrow> v = JStr redaction_mark" by (auto simp: redact_def)
qed

lemma redact_keys: "distinct (map fst a) \<Longrightarrow> redact a = map (\<lambda>(k, v). (k, if sensitive k then JStr redaction_mark else v)) a"
proof -
  assume "distinct (map fst a)"
  then have "distinct (map fst ([] @ map (\<lambda>(k, v). (k, if sensitive k then JStr redaction_mark else v)) a))"
    by (simp add: case_prod_beta comp_def)
  from foldl_update_distinct [OF this] show ?thesis by (simp add: redact_def foldl_map case_prod_unfold)
qed

lemma given_rows: "r \<in># given_app es s \<Longrightarrow> \<exists>now line. r = app_row_of now line"
  by (induction es arbitrary: s)
    (auto simp: event_rows_def line_rows_def split: if_splits sink_event.splits option.splits jsval.splits)

lemma stored_rows:
  assumes "r \<in> set (sk_app_table (sink_run es new_sink))"
  shows "\<exists>now line. r = app_row_of now line"
proof -
  have "counted new_sink (given_app es new_sink) (given_access es new_sink) (sink_run es new_sink)" by (rule sink_run_counted [OF sink_new(1)])
  then obtain la where "given_app es new_sink = all_app (sink_run es new_sink) + la" by (auto simp: counted_def sink_new)
  then have "r \<in># given_app es new_sink" using assms by (simp add: all_app_def)
  then show ?thesis by (rule given_rows)
qed


definition demo_line :: string where
  "demo_line = json (JObj [(''event'', JStr ''config.write.failed''), (''SMTP_PASSWORD'', JStr ''hunter2''), (''n'', JNum (NInt 1))])"


text \<open>A value inside an object keeps what it holds, and so does a name in the middle of another word.\<close>

lemma nested_not_redacted:
  "redact [(''user'', JObj [(''password'', JStr ''hunter2'')]), (''userEmail'', JStr ''a@b.c'')]
   = [(''user'', JObj [(''password'', JStr ''hunter2'')]), (''userEmail'', JStr ''a@b.c'')]"
  by code_simp

subsection \<open>Placeholders\<close>

text \<open>The reference: row after row, mark after mark, numbered from one; the values in the same order.\<close>

definition numbered :: "nat \<Rightarrow> nat \<Rightarrow> string" where
  "numbered k n = ''('' @ join '','' (map (\<lambda>i. ''$'' @ nat_str (Suc (k + i))) [0..<n]) @ '')''"

lemma mark_cell_simp: "mark_cell (marks, vs) v = (marks @ [''$'' @ nat_str (Suc (length vs))], vs @ [v])"
  by (simp add: mark_cell_def)

lemma mark_cells:
  "foldl mark_cell (marks, vs) row = (marks @ map (\<lambda>i. ''$'' @ nat_str (Suc (length vs + i))) [0..<length row], vs @ row)"
proof (induction row arbitrary: marks vs)
  case (Cons v row)
  have "[0..<Suc (length row)] = 0 # map Suc [0..<length row]" by (simp add: map_Suc_upt upt_conv_Cons del: upt_Suc)
  then show ?case by (simp add: Cons mark_cell_simp comp_def del: upt_Suc)
qed simp

lemma mark_rows:
  "list_all (\<lambda>row. length row = w) rows \<Longrightarrow>
    foldl mark_row (chunks, vs) rows = (chunks @ map (\<lambda>i. numbered (length vs + i * w) w) [0..<length rows], vs @ concat rows)"
proof (induction rows arbitrary: chunks vs)
  case (Cons row rows)
  have "[0..<Suc (length rows)] = 0 # map Suc [0..<length rows]" by (simp add: map_Suc_upt upt_conv_Cons del: upt_Suc)
  then show ?case using Cons by (simp add: mark_row_def mark_cells numbered_def comp_def add.assoc del: upt_Suc)
qed simp

lemma multi_values_reference:
  "list_all (\<lambda>row. length row = w) rows \<Longrightarrow>
    multi_values rows = (join '','' (map (\<lambda>i. numbered (i * w) w) [0..<length rows]), concat rows)"
  using mark_rows [of w rows "[]" "[]"] by (simp add: multi_values_def)

lemma concat_rows_nth: "list_all (\<lambda>row. length row = w) rows \<Longrightarrow> i < length rows \<Longrightarrow> j < w \<Longrightarrow> concat rows ! (i * w + j) = rows ! i ! j"
proof (induction rows arbitrary: i)
  case (Cons row rows)
  then show ?case by (cases i) (auto simp: nth_append algebra_simps)
qed simp

text \<open>A multi-row insertion binds every cell to its column: the placeholders of a statement are the
  rows' marks numbered through from one, one mark per column, and the value a mark numbers is the cell
  of that row and column; and a batch stays far below the 65535 parameters a statement may have.\<close>

theorem log_insert_aligned:
  assumes "i < length rows" and "j < length app_columns" and "length rows \<le> batch_rows"
  shows "st_placeholders (insert_app o' rows) = join '','' (map (\<lambda>i. numbered (i * length app_columns) (length app_columns)) [0..<length rows])
    \<and> st_columns (insert_app o' rows) = app_columns
    \<and> st_values (insert_app o' rows) ! (i * length app_columns + j) = app_cells o' (rows ! i) ! j
    \<and> length (st_values (insert_app o' rows)) \<le> 65535"
proof -
  have w: "list_all (\<lambda>row. length row = length app_columns) (map (app_cells o') rows)"
    by (simp add: list_all_iff app_cells_def app_columns_def)
  have "length (concat rows') = w * length rows'" if "list_all (\<lambda>row. length row = w) rows'" for w and rows' :: "jsval list list"
    using that by (induction rows') auto
  from this [OF w] have "length (concat (map (app_cells o') rows)) \<le> 65535"
    using assms(3) by (simp add: batch_rows_def app_columns_def)
  then show ?thesis using assms multi_values_reference [OF w] concat_rows_nth [OF w, of i j]
    by (simp add: insert_app_def)
qed

theorem log_insert_aligned_witness:
  "let rows = [app_row_of ''t'' JNull, app_row_of ''u'' JNull]; o' = \<lparr>so_service = ''s'', so_version = ''1'', so_environment = ''dev'', so_host = ''h''\<rparr>
   in st_values (insert_app o' rows) ! (1 * length app_columns + 0) = JStr ''u''"
proof -
  have "app_cells o' (app_row_of ''u'' JNull) ! 0 = JStr ''u''" for o' by (simp add: app_cells_def app_row_of_def Let_def prop_of_def obj_of_def get_prop_def)
  then show ?thesis
    using log_insert_aligned [of 1 "[app_row_of ''t'' JNull, app_row_of ''u'' JNull]" 0 "\<lparr>so_service = ''s'', so_version = ''1'', so_environment = ''dev'', so_host = ''h''\<rparr>"]
    by (simp add: app_columns_def batch_rows_def Let_def)
qed

end
