(* ===== verification/Settings.thy ===== *)
theory Settings
  imports GitRepo
begin

section \<open>Settings of the process (src/config.ts, src/views/settings.ts)\<close>

text \<open>
  What the process reads from its environment, and the page that shows it. An environment gives each
  variable a text or nothing; \<open>parse_url\<close> is \<open>new URL\<close> as in \<open>GitRepo\<close>. A secret is ASCII text, so
  that a prefix of its bytes is one of its characters.
\<close>

type_synonym variables = "string \<Rightarrow> string option"

record ssh_settings =
  sh_key_path :: string
  sh_known_hosts :: "string option"

record iam_settings =
  is_issuer :: string
  is_client_id :: string
  is_client_secret :: string
  is_redirect_uri :: string

record service_config =
  sf_environment :: string
  sf_repo_dir :: string
  sf_db_path :: string
  sf_sync_interval :: jsnum
  sf_git_remote :: "string option"
  sf_repo_web_url :: "string option"
  sf_ssh :: "ssh_settings option"
  sf_socket_path :: string
  sf_snapshot_path :: string
  sf_drafts_path :: string
  sf_age_key :: string
  sf_http_host :: string
  sf_http_port :: jsnum
  sf_log_level :: string
  sf_session_secret :: string
  sf_insecure_cookie :: bool
  sf_iam :: "iam_settings option"
  sf_iam_health_url :: string
  sf_iam_check_interval :: jsnum
  sf_break_glass_path :: string
  sf_webhook_secret :: "string option"
  sf_webhook_port :: jsnum
  sf_push_retry_interval :: jsnum
  sf_poll_interval :: jsnum
  sf_enable_settings :: bool
  sf_settings_allow :: "string list"
  sf_log_database_url :: "string option"

definition required :: "string \<Rightarrow> variables \<Rightarrow> string + string" where
  "required name env = (case env name of
     Some v \<Rightarrow> if v \<noteq> [] then Inr v else Inl (name @ '' is required'')
   | None \<Rightarrow> Inl (name @ '' is required''))"

definition environments_known :: "string list" where
  "environments_known = [''dev'', ''staging'', ''prod'']"

text \<open>\<open>env.NAME ?? d\<close>, \<open>Number(env.NAME ?? n)\<close>, \<open>env.NAME?.trim()\<close> when that is not empty, and a variable
  that is set to more than the empty text.\<close>

definition env_or :: "variables \<Rightarrow> string \<Rightarrow> string \<Rightarrow> string" where
  "env_or env name d = (case env name of Some v \<Rightarrow> v | None \<Rightarrow> d)"

definition env_number :: "variables \<Rightarrow> string \<Rightarrow> int \<Rightarrow> jsnum" where
  "env_number env name n = (case env name of Some v \<Rightarrow> js_number v | None \<Rightarrow> NInt n)"

definition env_trimmed :: "variables \<Rightarrow> string \<Rightarrow> string option" where
  "env_trimmed env name = (case env name of Some v \<Rightarrow> if trim v \<noteq> [] then Some (trim v) else None | None \<Rightarrow> None)"

definition env_set :: "variables \<Rightarrow> string \<Rightarrow> string option" where
  "env_set env name = (case env name of Some v \<Rightarrow> if v \<noteq> [] then Some v else None | None \<Rightarrow> None)"

definition load_config :: "(string \<Rightarrow> (string \<times> string) option) \<Rightarrow> variables \<Rightarrow> string + service_config" where
  "load_config parse_url env = (let environment = env_or env ''CONFIG_ENVIRONMENT'' ''dev'' in
     bind_err (when_err (environment \<notin> set environments_known)
       (''CONFIG_ENVIRONMENT must be one of '' @ join '', '' environments_known @ ''; got '' @ quoted environment)) (\<lambda>_.
     bind_err (required ''CONFIG_AGE_KEY'' env) (\<lambda>age_key.
     bind_err (required ''CONFIG_SESSION_SECRET'' env) (\<lambda>session_secret. Inr \<lparr>
       sf_environment = environment,
       sf_repo_dir = env_or env ''CONFIG_REPO_DIR'' ''/var/lib/config/repo'',
       sf_db_path = env_or env ''CONFIG_DB_PATH'' ''/var/lib/config/db'',
       sf_sync_interval = env_number env ''CONFIG_SYNC_INTERVAL_MS'' 600000,
       sf_git_remote = env ''CONFIG_GIT_REMOTE'',
       sf_repo_web_url = (case env ''CONFIG_REPO_WEB_URL'' of Some u \<Rightarrow> Some u
         | None \<Rightarrow> web_url_for parse_url (env ''CONFIG_GIT_REMOTE'')),
       sf_ssh = map_option (\<lambda>k. \<lparr>sh_key_path = k, sh_known_hosts = env_set env ''CONFIG_GIT_KNOWN_HOSTS''\<rparr>) (env_set env ''CONFIG_GIT_SSH_KEY''),
       sf_socket_path = env_or env ''CONFIG_SOCKET_PATH'' ''/run/config/config.sock'',
       sf_snapshot_path = env_or env ''CONFIG_SNAPSHOT_PATH'' ''/var/lib/config/snapshot.json'',
       sf_drafts_path = env_or env ''CONFIG_DRAFTS_PATH'' ''/var/lib/config/drafts.json'',
       sf_age_key = age_key,
       sf_http_host = env_or env ''CONFIG_HTTP_HOST'' ''127.0.0.1'',
       sf_http_port = env_number env ''CONFIG_HTTP_PORT'' 8200,
       sf_log_level = env_or env ''CONFIG_LOG_LEVEL'' ''info'',
       sf_session_secret = session_secret,
       sf_insecure_cookie = (environment \<noteq> ''prod'' \<and> env ''CONFIG_INSECURE_COOKIE'' = Some ''1''),
       sf_iam = (case (env_set env ''CONFIG_IAM_ISSUER'', env_set env ''CONFIG_IAM_CLIENT_ID'', env_set env ''CONFIG_IAM_CLIENT_SECRET'') of
           (Some i, Some c, Some s) \<Rightarrow> Some \<lparr>is_issuer = i, is_client_id = c, is_client_secret = s,
             is_redirect_uri = env_or env ''CONFIG_IAM_REDIRECT_URI'' ''https://config.anudeep.pro/login/callback''\<rparr>
         | _ \<Rightarrow> None),
       sf_iam_health_url = (case env_trimmed env ''CONFIG_IAM_HEALTH_URL'' of Some u \<Rightarrow> u | None \<Rightarrow> ''http://127.0.0.1:8000/healthz''),
       sf_iam_check_interval = env_number env ''CONFIG_IAM_CHECK_INTERVAL_MS'' 10000,
       sf_break_glass_path = env_or env ''CONFIG_BREAK_GLASS_PATH'' ''/var/lib/config/break-glass.yaml'',
       sf_webhook_secret = env ''CONFIG_WEBHOOK_SECRET'',
       sf_webhook_port = env_number env ''CONFIG_WEBHOOK_PORT'' 8201,
       sf_push_retry_interval = env_number env ''CONFIG_PUSH_RETRY_INTERVAL_MS'' 60000,
       sf_poll_interval = env_number env ''CONFIG_POLL_INTERVAL_MS'' 60000,
       sf_enable_settings = (to_lower (trim (env_or env ''CONFIG_ENABLE_SETTINGS'' [])) \<in> {''1'', ''true'', ''yes'', ''on''}),
       sf_settings_allow = filter (\<lambda>e. e \<noteq> []) (map (\<lambda>e. to_lower (trim e))
         (split_on (CHR '','') (env_or env ''CONFIG_SETTINGS_ALLOW'' []))),
       sf_log_database_url = env_trimmed env ''CONFIG_LOG_DATABASE_URL''\<rparr>))))"

subsection \<open>The page\<close>

definition known_variables :: "string list" where
  "known_variables = [''CONFIG_ENVIRONMENT'', ''CONFIG_LOG_LEVEL'', ''CONFIG_HTTP_HOST'', ''CONFIG_HTTP_PORT'', ''CONFIG_REPO_DIR'',
     ''CONFIG_GIT_REMOTE'', ''CONFIG_REPO_WEB_URL'', ''CONFIG_GIT_SSH_KEY'', ''CONFIG_GIT_KNOWN_HOSTS'', ''CONFIG_AGE_KEY'',
     ''CONFIG_SNAPSHOT_PATH'', ''CONFIG_DRAFTS_PATH'', ''CONFIG_SOCKET_PATH'', ''CONFIG_SESSION_SECRET'', ''CONFIG_INSECURE_COOKIE'',
     ''CONFIG_BREAK_GLASS_PATH'', ''CONFIG_IAM_ISSUER'', ''CONFIG_IAM_CLIENT_ID'', ''CONFIG_IAM_CLIENT_SECRET'', ''CONFIG_IAM_REDIRECT_URI'',
     ''CONFIG_IAM_HEALTH_URL'', ''CONFIG_WEBHOOK_SECRET'', ''CONFIG_WEBHOOK_PORT'', ''CONFIG_PUSH_RETRY_INTERVAL_MS'',
     ''CONFIG_POLL_INTERVAL_MS'', ''CONFIG_ENABLE_SETTINGS'', ''CONFIG_SETTINGS_ALLOW'']"

definition secret_markers :: "string list" where
  "secret_markers = [''SECRET'', ''AGE_KEY'', ''PASSWORD'', ''TOKEN'']"

definition secret_variable :: "string \<Rightarrow> bool" where
  "secret_variable name = list_ex (\<lambda>marker. contains marker name) secret_markers"

definition shown_prefix :: nat where
  "shown_prefix = 6"

definition ellipsis :: string where
  "ellipsis = [CHR 0xE2, CHR 0x80, CHR 0xA6]"

record settings_row =
  sw_name :: string
  sw_secret :: bool
  sw_set :: bool
  sw_shown :: string

definition settings_row_of :: "variables \<Rightarrow> string \<Rightarrow> settings_row" where
  "settings_row_of env name = (let secret = secret_variable name in
     case env_set env name of
       None \<Rightarrow> \<lparr>sw_name = name, sw_secret = secret, sw_set = False, sw_shown = ''not set''\<rparr>
     | Some v \<Rightarrow> \<lparr>sw_name = name, sw_secret = secret, sw_set = True,
         sw_shown = (if secret then take shown_prefix v @ ellipsis else v)\<rparr>)"

definition settings_rows :: "variables \<Rightarrow> settings_row list" where
  "settings_rows env = map (settings_row_of env) known_variables"

subsection \<open>What the settings guarantee\<close>

lemma required_Inr: "required name env = Inr v \<longleftrightarrow> env name = Some v \<and> v \<noteq> []"
  by (auto simp: required_def split: option.split)

text \<open>C39: the process never starts less protected than it should be: settings that load name one of the
  three environments, carry a key and a session secret that are not empty, give up the secure cookie
  only on request and never in production, and show the settings page to nobody unless it is asked
  for, with an allow list of trimmed, non-empty addresses in lower case that is empty by default.\<close>

theorem settings_fail_closed:
  assumes "load_config parse_url env = Inr c"
  shows "sf_environment c \<in> set environments_known \<and> sf_age_key c \<noteq> [] \<and> sf_session_secret c \<noteq> []
    \<and> (sf_insecure_cookie c \<longrightarrow> sf_environment c \<noteq> ''prod'' \<and> env ''CONFIG_INSECURE_COOKIE'' = Some ''1'')
    \<and> env ''CONFIG_ENVIRONMENT'' \<noteq> Some []
    \<and> (env ''CONFIG_ENABLE_SETTINGS'' = None \<longrightarrow> \<not> sf_enable_settings c)
    \<and> (env ''CONFIG_SETTINGS_ALLOW'' = None \<longrightarrow> sf_settings_allow c = [])
    \<and> list_all (\<lambda>a. a \<noteq> [] \<and> (\<exists>e. a = to_lower (trim e))) (sf_settings_allow c)"
proof -
  have e: "[] \<notin> set environments_known" by (simp add: environments_known_def)
  have off: "to_lower (trim []) \<notin> {''1'', ''true'', ''yes'', ''on''}" "filter (\<lambda>e. e \<noteq> []) (map (\<lambda>e. to_lower (trim e)) (split_on (CHR '','') [])) = []"
    by code_simp+
  show ?thesis
    using assms e off by (auto simp: load_config_def Let_def required_Inr env_or_def bind_err_Inr_iff list_all_iff)
qed

definition demo_variables :: variables where
  "demo_variables = (\<lambda>_. None)(''CONFIG_AGE_KEY'' \<mapsto> ''AGE-SECRET-KEY-1'', ''CONFIG_SESSION_SECRET'' \<mapsto> ''session-secret'', ''CONFIG_ENVIRONMENT'' \<mapsto> ''prod'', ''CONFIG_INSECURE_COOKIE'' \<mapsto> ''1'')"

theorem settings_fail_closed_witness:
  "\<exists>c. load_config (\<lambda>_. None) demo_variables = Inr c \<and> \<not> sf_insecure_cookie c \<and> sf_settings_allow c = []"
proof -
  have "\<exists>c. load_config (\<lambda>_. None) demo_variables = Inr c"
    by (simp add: load_config_def Let_def demo_variables_def env_or_def environments_known_def required_def when_err_def)
  then obtain c where c: "load_config (\<lambda>_. None) demo_variables = Inr c" by blast
  then have "sf_environment c = ''prod''"
    by (auto simp: load_config_def Let_def demo_variables_def env_or_def environments_known_def required_def when_err_def)
  with settings_fail_closed [OF c] c show ?thesis by (auto simp: demo_variables_def)
qed

text \<open>A number is not checked: the empty text, which an unset interpolation produces, is the number zero,
  and anything that is no number is not a number, so a timer would fire without a pause.\<close>

lemma empty_interval_is_zero:
  "load_config parse_url env = Inr c \<Longrightarrow> env ''CONFIG_POLL_INTERVAL_MS'' = Some [] \<Longrightarrow> sf_poll_interval c = NInt 0"
  "load_config parse_url env = Inr c \<Longrightarrow> env ''CONFIG_POLL_INTERVAL_MS'' = Some ''soon'' \<Longrightarrow> sf_poll_interval c = NNaN"
proof -
  have "js_number [] = NInt 0" "js_number ''soon'' = NNaN" by code_simp+
  then show "load_config parse_url env = Inr c \<Longrightarrow> env ''CONFIG_POLL_INTERVAL_MS'' = Some [] \<Longrightarrow> sf_poll_interval c = NInt 0"
    "load_config parse_url env = Inr c \<Longrightarrow> env ''CONFIG_POLL_INTERVAL_MS'' = Some ''soon'' \<Longrightarrow> sf_poll_interval c = NNaN"
    by (auto simp: load_config_def Let_def bind_err_Inr_iff env_number_def)
qed

text \<open>The page shows no more of a secret than its first characters: environments that agree on these and
  on everything that is no secret give the same page.\<close>

lemma settings_page_masks:
  assumes "\<And>name. \<not> secret_variable name \<Longrightarrow> env name = env' name"
    and "\<And>name. secret_variable name \<Longrightarrow> map_option (take shown_prefix) (env_set env name) = map_option (take shown_prefix) (env_set env' name)"
  shows "settings_rows env = settings_rows env'"
proof -
  have "settings_row_of env name = settings_row_of env' name" for name
  proof (cases "secret_variable name")
    case True
    from assms(2) [OF this] show ?thesis using True
      by (cases "env_set env name"; cases "env_set env' name") (auto simp: settings_row_of_def Let_def)
  next
    case False
    from assms(1) [OF this] show ?thesis by (simp add: settings_row_of_def env_set_def Let_def)
  qed
  then show ?thesis by (simp add: settings_rows_def)
qed

text \<open>Four variables that are read are not on the page.\<close>

lemma settings_not_shown:
  "list_all (\<lambda>name. name \<notin> set known_variables) [''CONFIG_DB_PATH'', ''CONFIG_SYNC_INTERVAL_MS'', ''CONFIG_IAM_CHECK_INTERVAL_MS'', ''CONFIG_LOG_DATABASE_URL'']"
  by code_simp

end
