(* ===== verification/RequestIds.thy ===== *)
theory RequestIds
  imports Json
begin

section \<open>Request identifiers (src/logging/request-sid.ts)\<close>

text \<open>
  A UUID of version 7 behind a prefix. The clock in milliseconds, the sixteen random bytes and the two
  random bytes of a fresh counter are inputs of every call; the two module variables are the state.
\<close>

record sid_state =
  si_last :: nat
  si_counter :: nat

definition first_sid :: sid_state where
  "first_sid = \<lparr>si_last = 0, si_counter = 0\<rparr>"

record sid_input =
  in_now :: nat
  in_bytes :: "nat list"
  in_fresh :: nat

definition tick :: "sid_input \<Rightarrow> sid_state \<Rightarrow> sid_state" where
  "tick i s = (
     if in_now i = si_last s then
       (if si_counter s + 1 > 4095 then \<lparr>si_last = si_last s + 1, si_counter = in_fresh i mod 2048\<rparr>
        else \<lparr>si_last = si_last s, si_counter = si_counter s + 1\<rparr>)
     else \<lparr>si_last = (if in_now i < si_last s then si_last s else in_now i), si_counter = in_fresh i mod 2048\<rparr>)"

definition uuid_bytes :: "nat list \<Rightarrow> nat \<Rightarrow> nat \<Rightarrow> nat list" where
  "uuid_bytes bytes ms counter =
     [ms div 2 ^ 40 mod 256, ms div 2 ^ 32 mod 256, ms div 2 ^ 24 mod 256, ms div 2 ^ 16 mod 256, ms div 2 ^ 8 mod 256, ms mod 256,
      112 + counter div 256 mod 16, counter mod 256, 128 + bytes ! 8 mod 64] @ drop 9 bytes"

definition hex_byte :: "nat \<Rightarrow> string" where
  "hex_byte b = [hex_digit (b div 16), hex_digit (b mod 16)]"

definition dashed :: "string \<Rightarrow> string" where
  "dashed hex = take 8 hex @ ''-'' @ take 4 (drop 8 hex) @ ''-'' @ take 4 (drop 12 hex) @ ''-'' @ take 4 (drop 16 hex) @ ''-'' @ drop 20 hex"

definition mint_request_sid :: "sid_input \<Rightarrow> sid_state \<Rightarrow> string \<times> sid_state" where
  "mint_request_sid i s = (let s' = tick i s in
     (''sid_'' @ dashed (concat (map hex_byte (uuid_bytes (in_bytes i) (si_last s') (si_counter s')))), s'))"

fun mint_all :: "sid_input list \<Rightarrow> sid_state \<Rightarrow> string list" where
  "mint_all [] s = []"
| "mint_all (i # is) s = (case mint_request_sid i s of (sid, s') \<Rightarrow> sid # mint_all is s')"

subsection \<open>The order of strings\<close>

fun text_less :: "string \<Rightarrow> string \<Rightarrow> bool" where
  "text_less [] (b # bs) = True"
| "text_less (a # as) (b # bs) = (of_char a < (of_char b :: nat) \<or> a = b \<and> text_less as bs)"
| "text_less _ _ = False"

lemma text_less_prefix [simp]: "text_less (p @ a) (p @ b) = text_less a b"
  by (induction p) auto

lemma text_less_extend: "text_less a b \<Longrightarrow> length a = length b \<Longrightarrow> text_less (a @ x) (b @ y)"
  by (induction a b rule: text_less.induct) auto

text \<open>A number in hexadecimal with a fixed number of digits: the order of the numbers is that of the texts.\<close>

fun hex_wide :: "nat \<Rightarrow> nat \<Rightarrow> string" where
  "hex_wide 0 n = []"
| "hex_wide (Suc w) n = hex_wide w (n div 16) @ [hex_digit (n mod 16)]"

lemma length_hex_wide [simp]: "length (hex_wide w n) = w"
  by (induction w arbitrary: n) simp_all

lemma of_char_hex_digit: "d < 16 \<Longrightarrow> (of_char (hex_digit d) :: nat) = (if d < 10 then 48 + d else 87 + d)"
  by (simp add: hex_digit_def)

lemma hex_digit_less: "d < e \<Longrightarrow> e < 16 \<Longrightarrow> (of_char (hex_digit d) :: nat) < of_char (hex_digit e)"
  by (simp add: of_char_hex_digit)

lemma hex_wide_less: "m < n \<Longrightarrow> n < 16 ^ w \<Longrightarrow> text_less (hex_wide w m) (hex_wide w n)"
proof (induction w arbitrary: m n)
  case (Suc w)
  show ?case
  proof (cases "m div 16 < n div 16")
    case True
    moreover have "n div 16 < 16 ^ w" using Suc.prems(2) by (simp add: less_mult_imp_div_less mult.commute)
    ultimately show ?thesis using Suc.IH by (simp add: text_less_extend)
  next
    case False
    then have "m div 16 = n div 16" using Suc.prems(1) by (simp add: div_le_mono less_imp_le order.antisym not_less)
    moreover from this have "m mod 16 < n mod 16" using Suc.prems(1) div_mult_mod_eq [of m 16] div_mult_mod_eq [of n 16] by linarith
    ultimately show ?thesis by (simp add: hex_digit_less)
  qed
qed simp

text \<open>The text of an identifier, field by field.\<close>

lemma byte_digits: "(x::nat) mod 256 div 16 = x div 16 mod 16" "(x::nat) mod 256 mod 16 = x mod 16"
proof -
  have "x mod (16 * 16) div 16 = x div 16 mod 16" using mod_mult2_eq [of x 16 16] by linarith
  then show "x mod 256 div 16 = x div 16 mod 16" by simp
  show "x mod 256 mod 16 = x mod 16" by (simp add: mod_mod_cancel)
qed

lemma low_digits:
  "(x::nat) mod 65536 mod 16 = x mod 16" "x mod 65536 div 16 mod 16 = x div 16 mod 16"
  "x mod 65536 div 256 mod 16 = x div 256 mod 16" "x mod 65536 div 4096 mod 16 = x div 4096 mod 16"
proof -
  show "x mod 65536 mod 16 = x mod 16" by (simp add: mod_mod_cancel)
  have *: "x mod (n * (16 * m)) div n mod 16 = x div n mod 16" if "0 < n" for n m
    using that by (simp add: mod_mult2_eq mod_mod_cancel)
  show "x mod 65536 div 16 mod 16 = x div 16 mod 16" using * [of 16 256] by simp
  show "x mod 65536 div 256 mod 16 = x div 256 mod 16" using * [of 256 16] by simp
  show "x mod 65536 div 4096 mod 16 = x div 4096 mod 16" using * [of 4096 1] by simp
qed

lemma hex_wide_numeral: "hex_wide (numeral k) n = hex_wide (pred_numeral k) (n div 16) @ [hex_digit (n mod 16)]"
  by (subst numeral_eq_Suc) (rule hex_wide.simps(2))

lemma hex_wides:
  "hex_wide 3 c = map (\<lambda>k. hex_digit (c div k mod 16)) [256, 16, 1]"
  "hex_wide 4 c = map (\<lambda>k. hex_digit (c div k mod 16)) [4096, 256, 16, 1]"
  "hex_wide 8 c = map (\<lambda>k. hex_digit (c div k mod 16)) [268435456, 16777216, 1048576, 65536, 4096, 256, 16, 1]"
  by (simp_all add: hex_wide_numeral div_mult2_eq [symmetric])

lemma char_of_seven: "char_of (55::nat) = CHR ''7''"
  by code_simp

lemma sid_text:
  assumes "length bytes = 16" and "c < 4096"
  shows "\<exists>rest. dashed (concat (map hex_byte (uuid_bytes bytes ms c)))
    = hex_wide 8 (ms div 65536) @ ''-'' @ hex_wide 4 (ms mod 65536) @ ''-'' @ ''7'' @ hex_wide 3 c @ ''-'' @ rest \<and> length rest = 17"
proof -
  obtain b where b: "drop 9 bytes = b" "length b = 7" using assms(1) by simp
  then obtain b9 b10 b11 b12 b13 b14 b15 where b: "drop 9 bytes = [b9, b10, b11, b12, b13, b14, b15]"
    by (auto simp: length_Suc_conv eval_nat_numeral)
  have seven: "hex_digit ((112 + c div 256 mod 16) div 16) = CHR ''7''" "(112 + c div 256 mod 16) mod 16 = c div 256 mod 16"
    by (simp_all add: hex_digit_def div_add1_eq mod_add_left_eq [symmetric] char_of_seven)
  show ?thesis
    by (simp add: dashed_def uuid_bytes_def b hex_byte_def seven byte_digits low_digits hex_wides div_mult2_eq [symmetric])
qed

subsection \<open>Identifiers in order\<close>

text \<open>The moment of an identifier as one number.\<close>

definition sid_key :: "sid_state \<Rightarrow> nat" where
  "sid_key s = si_last s * 4096 + si_counter s"

definition sid_input_ok :: "sid_input \<Rightarrow> bool" where
  "sid_input_ok i = (length (in_bytes i) = 16)"

lemma tick_counter: "si_counter s < 4096 \<Longrightarrow> si_counter (tick i s) < 4096"
  by (auto simp: tick_def intro: less_trans [OF mod_less_divisor])

lemma tick_key: "si_last s \<le> in_now i \<Longrightarrow> si_counter s < 4096 \<Longrightarrow> sid_key s < sid_key (tick i s)"
proof -
  assume a: "si_last s \<le> in_now i" "si_counter s < 4096"
  have "in_fresh i mod 2048 < 2048" by simp
  moreover have "si_last s < m \<Longrightarrow> si_last s * 4096 + 4096 \<le> m * 4096" for m by simp
  ultimately show ?thesis using a by (auto simp: tick_def sid_key_def add.commute add_strict_increasing)
qed

lemma sid_less:
  assumes "sid_key s < sid_key t" "si_counter s < 4096" "si_counter t < 4096" "si_last t < 2 ^ 48" "length a = 16" "length b = 16"
  shows "text_less (dashed (concat (map hex_byte (uuid_bytes a (si_last s) (si_counter s)))))
    (dashed (concat (map hex_byte (uuid_bytes b (si_last t) (si_counter t)))))"
proof -
  let ?m = "si_last s" and ?n = "si_last t" and ?c = "si_counter s" and ?d = "si_counter t"
  obtain r1 r2 where shape: "dashed (concat (map hex_byte (uuid_bytes a ?m ?c))) = hex_wide 8 (?m div 65536) @ ''-'' @ hex_wide 4 (?m mod 65536) @ ''-'' @ ''7'' @ hex_wide 3 ?c @ ''-'' @ r1"
    "dashed (concat (map hex_byte (uuid_bytes b ?n ?d))) = hex_wide 8 (?n div 65536) @ ''-'' @ hex_wide 4 (?n mod 65536) @ ''-'' @ ''7'' @ hex_wide 3 ?d @ ''-'' @ r2"
    using sid_text [OF assms(5,2)] sid_text [OF assms(6,3)] by metis
  have order: "?m < ?n \<or> ?m = ?n \<and> ?c < ?d" using assms(1-3) by (auto simp: sid_key_def)
  then have "?m div 65536 \<le> ?n div 65536" by (auto intro: div_le_mono)
  then consider "?m div 65536 < ?n div 65536" | "?m div 65536 = ?n div 65536" "?m mod 65536 < ?n mod 65536" | "?m = ?n" "?c < ?d"
    using order div_mult_mod_eq [of ?m 65536] div_mult_mod_eq [of ?n 65536] by linarith
  then show ?thesis
  proof cases
    case 1
    moreover have "?n div 65536 < 16 ^ 8" using assms(4) by (simp add: less_mult_imp_div_less)
    ultimately have "text_less (hex_wide 8 (?m div 65536)) (hex_wide 8 (?n div 65536))" by (rule hex_wide_less)
    then show ?thesis unfolding shape by (rule text_less_extend) simp
  next
    case 2
    have "text_less (hex_wide 4 (?m mod 65536)) (hex_wide 4 (?n mod 65536))" by (rule hex_wide_less [OF 2(2)]) simp
    then show ?thesis unfolding shape 2(1) text_less_prefix by (rule text_less_extend) simp
  next
    case 3
    have "text_less (hex_wide 3 ?c) (hex_wide 3 ?d)" by (rule hex_wide_less [OF 3(2)]) (use assms(3) in simp)
    then show ?thesis using shape 3(1) by (simp add: text_less_extend)
  qed
qed

text \<open>Calls whose clock is never behind the state.\<close>

fun clock_ahead :: "sid_input list \<Rightarrow> sid_state \<Rightarrow> bool" where
  "clock_ahead [] s = True"
| "clock_ahead (i # is) s = (si_last s \<le> in_now i \<and> sid_input_ok i \<and> si_last (tick i s) < 2 ^ 48 \<and> clock_ahead is (tick i s))"

definition sid_of :: "nat list \<Rightarrow> sid_state \<Rightarrow> string" where
  "sid_of bytes s = ''sid_'' @ dashed (concat (map hex_byte (uuid_bytes bytes (si_last s) (si_counter s))))"

lemma mint_all_Cons: "mint_all (i # is) s = sid_of (in_bytes i) (tick i s) # mint_all is (tick i s)"
  by (simp add: mint_request_sid_def sid_of_def Let_def)

lemma mint_all_later:
  "clock_ahead is s \<Longrightarrow> si_counter s < 4096 \<Longrightarrow> sid_key t \<le> sid_key s \<Longrightarrow> si_counter t < 4096 \<Longrightarrow> length bytes = 16 \<Longrightarrow> x \<in> set (mint_all is s)
    \<Longrightarrow> text_less (sid_of bytes t) x"
proof (induction "is" arbitrary: s)
  case (Cons i "is")
  have k: "sid_key t < sid_key (tick i s)" using tick_key [of s i] Cons.prems by simp
  have c: "si_counter (tick i s) < 4096" using tick_counter Cons.prems(2) by blast
  show ?case
  proof (cases "x = sid_of (in_bytes i) (tick i s)")
    case True
    then show ?thesis using sid_less [OF k Cons.prems(4) c] Cons.prems by (simp add: sid_of_def sid_input_ok_def)
  next
    case False
    then have "x \<in> set (mint_all is (tick i s))" using Cons.prems(6) unfolding mint_all_Cons by simp
    then show ?thesis using Cons.IH [of "tick i s"] Cons.prems k c by simp
  qed
qed simp

text \<open>C38: request identifiers sort by time: as long as the clock is not behind the last identifier's
  millisecond, the identifiers of a process are strictly increasing as strings, so no two are equal,
  whatever the random bytes are.\<close>

theorem request_ids_increase:
  assumes "clock_ahead is s" and "si_counter s < 4096"
  shows "sorted_wrt text_less (mint_all is s)"
  using assms
proof (induction "is" arbitrary: s)
  case (Cons i "is")
  have c: "si_counter (tick i s) < 4096" using tick_counter Cons.prems(2) by blast
  have "text_less (sid_of (in_bytes i) (tick i s)) x" if "x \<in> set (mint_all is (tick i s))" for x
    using mint_all_later [of "is" "tick i s" "tick i s"] that Cons.prems c by (simp add: sid_input_ok_def)
  then show ?case using Cons c unfolding mint_all_Cons by simp
qed simp

definition demo_input :: "nat \<Rightarrow> sid_input" where
  "demo_input now = \<lparr>in_now = now, in_bytes = replicate 16 255, in_fresh = 7\<rparr>"

text \<open>Three calls, two in one millisecond.\<close>

theorem request_ids_increase_witness:
  "sorted_wrt text_less (mint_all [demo_input 1000, demo_input 1000, demo_input 1001] first_sid)
   \<and> length (mint_all [demo_input 1000, demo_input 1000, demo_input 1001] first_sid) = 3"
proof
  have "clock_ahead [demo_input 1000, demo_input 1000, demo_input 1001] first_sid"
    by (simp add: demo_input_def first_sid_def tick_def sid_input_ok_def)
  then show "sorted_wrt text_less (mint_all [demo_input 1000, demo_input 1000, demo_input 1001] first_sid)"
    by (rule request_ids_increase) (simp add: first_sid_def)
qed (simp add: case_prod_beta)

text \<open>When the clock is set back, or when the counter of a millisecond has run out and the next call still
  falls into it, the millisecond stays and the counter is drawn afresh: a later identifier can then be
  the smaller one.\<close>

lemma request_ids_step_back:
  "let s = \<lparr>si_last = 1000, si_counter = 4095\<rparr>; i = demo_input 1000; j = (demo_input 1000)\<lparr>in_fresh := 3\<rparr>
   in sid_key (tick j (tick i s)) < sid_key (tick i s) \<and> text_less (mint_all [i, j] s ! 1) (mint_all [i, j] s ! 0)"
proof -
  let ?s = "\<lparr>si_last = 1000, si_counter = 4095\<rparr>" and ?i = "demo_input 1000" and ?j = "(demo_input 1000)\<lparr>in_fresh := 3\<rparr>"
  have t: "tick ?i ?s = \<lparr>si_last = 1001, si_counter = 7\<rparr>" "tick ?j \<lparr>si_last = 1001, si_counter = 7\<rparr> = \<lparr>si_last = 1001, si_counter = 3\<rparr>"
    by (simp_all add: tick_def demo_input_def)
  moreover have "text_less (sid_of (replicate 16 255) \<lparr>si_last = 1001, si_counter = 3\<rparr>) (sid_of (replicate 16 255) \<lparr>si_last = 1001, si_counter = 7\<rparr>)"
    using sid_less [of "\<lparr>si_last = 1001, si_counter = 3\<rparr>" "\<lparr>si_last = 1001, si_counter = 7\<rparr>" "replicate 16 255" "replicate 16 255"]
    by (simp add: sid_of_def sid_key_def)
  moreover have "in_bytes ?i = replicate 16 255" "in_bytes ?j = replicate 16 255" by (simp_all add: demo_input_def)
  ultimately show ?thesis by (simp add: Let_def mint_all_Cons sid_key_def del: mint_all.simps(2))
qed

end
