(* ===== verification/Webhook.thy ===== *)
theory Webhook
  imports Session RequestIds
begin

section \<open>The push webhook (src/routes/webhook.ts)\<close>

text \<open>
  The one route the public internet reaches. \<open>hmac\<close> is HMAC-SHA256 of a key and a text. The bytes of a
  delivery are kept as they arrived; a header is a value, since a repeated one is an array. What a push
  starts runs after the answer: here the answer says whether it is started.
\<close>

definition served_ref :: string where
  "served_ref = ''refs/heads/main''"

record delivery =
  de_body :: string
  de_signature :: jsval
  de_event :: jsval

record hook_reply =
  hk_status :: nat
  hk_code :: "string option"
  hk_pull :: bool

definition refuse_hook :: "nat \<Rightarrow> string option \<Rightarrow> hook_reply" where
  "refuse_hook status code = \<lparr>hk_status = status, hk_code = code, hk_pull = False\<rparr>"

definition hook_signature :: "hmac \<Rightarrow> string \<Rightarrow> string \<Rightarrow> string" where
  "hook_signature hmac secret raw = ''sha256='' @ concat (map hex_byte (hmac secret raw))"

definition verify_signature :: "hmac \<Rightarrow> string \<Rightarrow> string option \<Rightarrow> string \<Rightarrow> bool" where
  "verify_signature hmac raw header secret = (case header of
     None \<Rightarrow> False
   | Some h \<Rightarrow> h \<noteq> [] \<and> length h = length (hook_signature hmac secret raw) \<and> h = hook_signature hmac secret raw)"

definition github_webhook :: "hmac \<Rightarrow> string option \<Rightarrow> delivery \<Rightarrow> hook_reply" where
  "github_webhook hmac secret d = (case secret of
     None \<Rightarrow> refuse_hook 503 (Some ''not_configured'')
   | Some key \<Rightarrow>
       if key = [] then refuse_hook 503 (Some ''not_configured'')
       else if \<not> verify_signature hmac (de_body d) (case de_signature d of JStr s \<Rightarrow> Some s | _ \<Rightarrow> None) key
         then refuse_hook 401 (Some ''bad_signature'')
       else if de_event d \<noteq> JStr ''push'' then refuse_hook 204 None
       else (case json_parse (de_body d) of
           None \<Rightarrow> refuse_hook 400 (Some ''bad_payload'')
         | Some JNull \<Rightarrow> refuse_hook 500 None
         | Some payload \<Rightarrow> if prop_of payload ''ref'' \<noteq> JStr served_ref then refuse_hook 204 None
             else \<lparr>hk_status = 202, hk_code = None, hk_pull = True\<rparr>))"

lemma webhook_pulls_iff:
  "hk_pull (github_webhook hmac secret d) \<longleftrightarrow> (\<exists>key payload. secret = Some key \<and> key \<noteq> []
     \<and> de_signature d = JStr (hook_signature hmac key (de_body d)) \<and> de_event d = JStr ''push''
     \<and> json_parse (de_body d) = Some payload \<and> payload \<noteq> JNull \<and> prop_of payload ''ref'' = JStr served_ref)"
proof -
  have n: "hook_signature hmac key raw \<noteq> []" for key raw by (simp add: hook_signature_def)
  have r: "hk_pull (refuse_hook n c) = False" for n c by (simp add: refuse_hook_def)
  show ?thesis
    by (cases secret; cases "de_signature d"; cases "json_parse (de_body d)")
      (auto simp: github_webhook_def r n verify_signature_def split: jsval.splits)
qed

text \<open>A digest's text determines its bytes.\<close>

lemma hex_byte_inj: "a < 256 \<Longrightarrow> b < 256 \<Longrightarrow> hex_byte a = hex_byte b \<Longrightarrow> a = b"
proof -
  assume ab: "a < 256" "b < 256" and e: "hex_byte a = hex_byte b"
  have d: "hex_digit c = hex_digit d \<Longrightarrow> c < 16 \<Longrightarrow> d < 16 \<Longrightarrow> c = d" for c d
    using hex_digit_less [of c d] hex_digit_less [of d c] by (cases c d rule: linorder_cases) auto
  have "a div 16 < 16" "b div 16 < 16" using ab by (simp_all add: less_mult_imp_div_less)
  with e d [of "a div 16" "b div 16"] d [of "a mod 16" "b mod 16"] have "a div 16 = b div 16" "a mod 16 = b mod 16"
    by (simp_all add: hex_byte_def)
  then show "a = b" by (metis div_mult_mod_eq)
qed

lemma hex_text_inj: "byte_list as \<Longrightarrow> byte_list bs \<Longrightarrow> concat (map hex_byte as) = concat (map hex_byte bs) \<Longrightarrow> as = bs"
proof (induction as arbitrary: bs)
  case Nil
  then show ?case by (cases bs) (simp_all add: hex_byte_def)
next
  case (Cons a as)
  then obtain b bs' where bs: "bs = b # bs'" by (cases bs) (auto simp: hex_byte_def)
  have two: "length (hex_byte x) = 2" for x by (simp add: hex_byte_def)
  have "hex_byte a = hex_byte b" "concat (map hex_byte as) = concat (map hex_byte bs')"
    using Cons.prems(3) bs append_eq_append_conv [of "hex_byte a" "hex_byte b" "concat (map hex_byte as)" "concat (map hex_byte bs')"] two by simp_all
  then show ?case using Cons.IH [of bs'] Cons.prems(1,2) bs hex_byte_inj [of a b] by (simp add: byte_list_def)
qed

text \<open>Only the bytes that were signed can start a pull. A signature the webhook accepts for one body is
  refused for every body with another digest, so a changed delivery starts nothing; and without a key
  that is set no delivery does.\<close>

theorem webhook_no_tampering:
  assumes "\<And>t. byte_list (hmac key t)"
    and "hk_pull (github_webhook hmac secret d)" and "secret = Some key \<or> secret = None"
    and "hmac key (de_body d') \<noteq> hmac key (de_body d)" and "de_signature d' = de_signature d"
  shows "\<not> hk_pull (github_webhook hmac secret d') \<and> key \<noteq> [] \<and> secret = Some key
    \<and> hk_status (github_webhook hmac secret d') = 401"
proof -
  from assms(2,3) have k: "secret = Some key" "key \<noteq> []" "de_signature d = JStr (hook_signature hmac key (de_body d))"
    by (auto simp: webhook_pulls_iff)
  have "hook_signature hmac key (de_body d') \<noteq> hook_signature hmac key (de_body d)"
    using hex_text_inj [of "hmac key (de_body d')" "hmac key (de_body d)"] assms(1,4) by (auto simp: hook_signature_def)
  then have "github_webhook hmac secret d' = refuse_hook 401 (Some ''bad_signature'')"
    using k assms(5) by (auto simp: github_webhook_def verify_signature_def)
  then show ?thesis using k by (simp add: refuse_hook_def)
qed

definition demo_hook_hmac :: hmac where
  "demo_hook_hmac key t = map of_char t"

definition demo_delivery :: delivery where
  "demo_delivery = (let body = json (JObj [(''ref'', JStr served_ref)]) in
     \<lparr>de_body = body, de_signature = JStr (hook_signature demo_hook_hmac ''k'' body), de_event = JStr ''push''\<rparr>)"

theorem webhook_no_tampering_witness:
  "hk_pull (github_webhook demo_hook_hmac (Some ''k'') demo_delivery)
   \<and> \<not> hk_pull (github_webhook demo_hook_hmac (Some ''k'') (demo_delivery\<lparr>de_body := ''{}''\<rparr>))"
proof -
  have "byte_list (demo_hook_hmac ''k'' t)" for t by (auto simp: demo_hook_hmac_def byte_list_def list_all_iff of_char_lt_256)
  moreover have "hk_pull (github_webhook demo_hook_hmac (Some ''k'') demo_delivery)" by code_simp
  moreover have "demo_hook_hmac ''k'' (de_body (demo_delivery\<lparr>de_body := ''{}''\<rparr>)) \<noteq> demo_hook_hmac ''k'' (de_body demo_delivery)" by code_simp
  ultimately show ?thesis
    using webhook_no_tampering [of demo_hook_hmac "''k''" "Some ''k''" demo_delivery "demo_delivery\<lparr>de_body := ''{}''\<rparr>"] by simp
qed

end
