(* ===== verification/RepoCheck.thy ===== *)
theory RepoCheck
  imports Services Identity
begin

section \<open>The repository check (src/cli/validate-repo.ts)\<close>

text \<open>
  What runs on every push to the configuration repository, without the key. What Git gives is the record
  \<open>repo_reads\<close>: the schemas or the error reading them, the committed sources or an error that is not
  caught, and \<open>services.yaml\<close> if it could be read. \<open>issues\<close> is the schema library's text as in \<open>Identity\<close>.
\<close>

record repo_reads =
  rr_schemas :: "string + (string \<times> string) list"
  rr_sources :: "string + sources"
  rr_services :: "string option"

type_synonym repo_finding = "string \<times> string"

definition schema_text :: "schema_exn \<Rightarrow> string" where
  "schema_text e = (case e of SchemaError m \<Rightarrow> m | OtherError m \<Rightarrow> m)"

definition registry_text :: "registry_exn \<Rightarrow> string" where
  "registry_text e = (case e of RegistryError m \<Rightarrow> m | YamlError m \<Rightarrow> m)"

definition without_sops :: "jsval \<Rightarrow> obj" where
  "without_sops v = filter (\<lambda>(k, _). k \<noteq> ''sops'') (own_members (if v = JUndef \<or> v = JNull then JObj [] else v))"

definition unencrypted :: "schema_set \<Rightarrow> string \<Rightarrow> string \<times> jsval \<Rightarrow> bool" where
  "unencrypted S service = (\<lambda>(k, v). is_secret S service k \<and> \<not> (case v of JStr s \<Rightarrow> sops_encrypted s | _ \<Rightarrow> False))"

definition document_findings :: "yaml \<Rightarrow> urls \<Rightarrow> schema_set \<Rightarrow> string \<times> string \<Rightarrow> repo_finding list" where
  "document_findings yaml urls S = (\<lambda>(namespace, source). let file = config_path namespace; service = service_of namespace in
     case yaml source of
       Inl e \<Rightarrow> [(file, ''is not valid YAML: '' @ e)]
     | Inr v \<Rightarrow> let config = without_sops v in
         (case validate urls S service config of Inl ps \<Rightarrow> map (\<lambda>(_, m). (file, m)) ps | Inr _ \<Rightarrow> [])
         @ map (\<lambda>(k, _). (file, quoted k @ '' is declared secret but was committed unencrypted '' @ em_dash @ '' check .sops.yaml''))
             (filter (unencrypted S service) config))"

definition ungranted :: "(string \<times> string) list \<Rightarrow> service \<Rightarrow> repo_finding list" where
  "ungranted sources s = map (\<lambda>ns. (''services.yaml'', quoted (sv_name s) @ '' is granted '' @ quoted ns @ '', which has no config file''))
     (filter (\<lambda>ns. \<not> has_key sources ns) (sv_namespaces s))"

definition validate_grants :: "yaml \<Rightarrow> (jsval \<Rightarrow> string) \<Rightarrow> (string \<times> string) list \<Rightarrow> string option \<Rightarrow> repo_finding list" where
  "validate_grants yaml issues sources services = (case services of
     None \<Rightarrow> [(''services.yaml'', ''is missing '' @ em_dash @ '' no service could read anything'')]
   | Some text \<Rightarrow> (case registry_from_yaml yaml issues text of
       Inl e \<Rightarrow> [(''services.yaml'', registry_text e)]
     | Inr R \<Rightarrow> concat (map (ungranted sources) (registry_services R))))"

definition validate_repository :: "yaml \<Rightarrow> urls \<Rightarrow> (jsval \<Rightarrow> string) \<Rightarrow> repo_reads \<Rightarrow> string + repo_finding list" where
  "validate_repository yaml urls issues r = (case map_sum OtherError id (rr_schemas r) of
     Inl e \<Rightarrow> Inr [(''schema/'', schema_text e)]
   | Inr fs \<Rightarrow> (case from_files yaml urls fs of
       Inl e \<Rightarrow> Inr [(''schema/'', schema_text e)]
     | Inr S \<Rightarrow> bind_err (rr_sources r) (\<lambda>s.
         Inr (concat (map (document_findings yaml urls S) (src_files s)) @ validate_grants yaml issues (src_files s) (rr_services r)))))"

text \<open>What \<open>main\<close> prints and the status it exits with.\<close>

definition check_output :: "repo_finding list \<Rightarrow> string list \<times> nat" where
  "check_output fs = (if fs = [] then ([''configuration is valid''], 0)
     else (map (\<lambda>(f, m). f @ '': '' @ m) fs @ [nat_str (length fs) @ '' problem(s) found''], 1))"

subsection \<open>What passing means\<close>

definition document_passes :: "yaml \<Rightarrow> urls \<Rightarrow> schema_set \<Rightarrow> string \<times> string \<Rightarrow> bool" where
  "document_passes yaml urls S = (\<lambda>(namespace, source). \<exists>v. yaml source = Inr v
     \<and> validate urls S (service_of namespace) (without_sops v) = Inr ()
     \<and> (\<forall>(k, x) \<in> set (without_sops v). is_secret S (service_of namespace) k \<longrightarrow> (\<exists>s. x = JStr s \<and> sops_encrypted s)))"

lemma validate_reports_something: "validate urls S service config = Inl ps \<Longrightarrow> ps \<noteq> []"
  by (auto simp: validate_def Let_def split: option.splits if_splits)

lemma unencrypted_iff: "unencrypted S service (k, v) \<longleftrightarrow> is_secret S service k \<and> \<not> (\<exists>s. v = JStr s \<and> sops_encrypted s)"
  by (cases v) (simp_all add: unencrypted_def)

lemma document_findings_Nil: "document_findings yaml urls S d = [] \<longleftrightarrow> document_passes yaml urls S d"
proof -
  obtain ns source where d: "d = (ns, source)" by (cases d)
  show ?thesis
    using validate_reports_something [of urls S "service_of ns"]
    by (cases "yaml source") (fastforce simp: d document_findings_def document_passes_def Let_def filter_empty_conv unencrypted_iff split: sum.splits)+
qed

lemma validate_grants_Nil:
  "validate_grants yaml issues sources services = [] \<longleftrightarrow> (\<exists>text R. services = Some text \<and> registry_from_yaml yaml issues text = Inr R
     \<and> (\<forall>s \<in> set (registry_services R). \<forall>ns \<in> set (sv_namespaces s). has_key sources ns))"
  by (auto simp: validate_grants_def ungranted_def filter_empty_conv split: option.splits sum.splits)

text \<open>C40: the check passes exactly the repositories the service can serve: it reports nothing if and only if
  the schemas load, every committed document is one its schema accepts and whose declared secrets are
  all ciphertext, and the grant table loads and grants no namespace that has no document; and it always
  reports, without a decryption, unless the sources cannot be read.\<close>

theorem repository_check_exact:
  "(validate_repository yaml urls issues r = Inr []) =
    (\<exists>fs S s text R. rr_schemas r = Inr fs \<and> from_files yaml urls fs = Inr S \<and> rr_sources r = Inr s
       \<and> list_all (document_passes yaml urls S) (src_files s)
       \<and> rr_services r = Some text \<and> registry_from_yaml yaml issues text = Inr R
       \<and> list_all (\<lambda>g. list_all (has_key (src_files s)) (sv_namespaces g)) (registry_services R))
   \<and> ((\<exists>e. validate_repository yaml urls issues r = Inl e) =
       (\<exists>fs S e. rr_schemas r = Inr fs \<and> from_files yaml urls fs = Inr S \<and> rr_sources r = Inl e))"
proof
  show "(validate_repository yaml urls issues r = Inr []) =
    (\<exists>fs S s text R. rr_schemas r = Inr fs \<and> from_files yaml urls fs = Inr S \<and> rr_sources r = Inr s
       \<and> list_all (document_passes yaml urls S) (src_files s)
       \<and> rr_services r = Some text \<and> registry_from_yaml yaml issues text = Inr R
       \<and> list_all (\<lambda>g. list_all (has_key (src_files s)) (sv_namespaces g)) (registry_services R))"
    by (cases "rr_schemas r") (auto simp: validate_repository_def document_findings_Nil validate_grants_Nil list_all_iff bind_err_Inr_iff split: sum.splits)
  show "(\<exists>e. validate_repository yaml urls issues r = Inl e) =
       (\<exists>fs S e. rr_schemas r = Inr fs \<and> from_files yaml urls fs = Inr S \<and> rr_sources r = Inl e)"
    by (cases "rr_schemas r") (auto simp: validate_repository_def bind_err_def split: sum.splits)
qed

end
