(* ===== verification/Spec2Isabelle.thy ===== *)
theory Spec2Isabelle
  imports EngineProps Builder Identity Locks BreakGlass Session Sops Serve ProductSafety Backup Scheduler GitRepo Services Client LogSink Settings Webhook RepoCheck
begin

text \<open>
  This development models config.anudeep.pro, a configuration registry: the files of a small database
  hold every service's schema, grants and environment documents; an operator's console edits them in
  transactions; services read their documents over a Unix socket that tells the service who they are;
  and a back-up mirrors the database into a Git checkout. All paths below are under src/.

  \<^bold>\<open>The parts and where they are.\<close>

  \<^item> The data engine. \<open>Paths\<close> (store/database-path.ts), \<open>Disk\<close> (store/file-writer.ts and the world: files,
    links, the events raised and an oracle that says which durable operations fail), \<open>Journal\<close>
    (store/transaction-journal.ts), \<open>Engine\<close> (store/data-layer.ts). \<open>Writes\<close> proves what each step of
    \<open>writeMany\<close> leaves, as triples over programs that may fail at any step, and \<open>EngineProps\<close> states the
    properties: atomic under crashes, conflicts refused, calls that return, reads after writes.
  \<^item> Documents and schemas. \<open>Prelude\<close> has JavaScript values, \<open>Json\<close> their text and its parser,
    \<open>Documents\<close> store/metadata.ts, namespace.ts and store/environment-order.ts, \<open>Schema\<close> schema/validator.ts
    and meta-schema.ts, \<open>Builder\<close> schema/builder.ts and routes/product-form.ts.
  \<^item> Who may do what. \<open>Identity\<close> (identity/), \<open>Locks\<close> (git/write-lock.ts, as a queue machine), \<open>Base32\<close> and
    \<open>Encoding\<close>, \<open>BreakGlass\<close> (auth/totp.ts, auth/break-glass.ts), \<open>Session\<close> (auth/session.ts, auth/oidc.ts and
    routes/auth.ts).
  \<^item> What is served. \<open>Fsys\<close> is the plain file system of everything outside the database; \<open>Sops\<close> (store/sops.ts,
    sops-encryptor.ts), \<open>Loader\<close> (store/loader.ts, cache.ts, snapshot.ts), \<open>Serve\<close> (routes/internal.ts and
    boot/repository-state.ts).
  \<^item> The console's operations on a product. \<open>Products\<close> has store/product-write-operations.ts as plans over a
    session; \<open>ProductProps\<close> follows a plan from its snapshot to its writes, and \<open>ProductSafety\<close> states that
    products stay valid, secrets stay encrypted and commits are optimistic.
  \<^item> Services over the database. \<open>Services\<close> has schema/schema-dry-run.ts and schema-write-service.ts, flags/,
    store/db-repository-view.ts, store/bootstrap-db.ts and the helpers of boot/.
  \<^item> The back-up. \<open>Ledger\<close> (store/write-journal.ts, pending-sync.ts, unsynced.ts), \<open>Backup\<close> (store/sync-engine.ts,
    sync-status.ts, auto-sync-store.ts), \<open>Scheduler\<close> (store/sync-scheduler.ts as a step relation) and \<open>GitRepo\<close>
    (git/repository.ts, syncer.ts, deploy-key.ts, commit-trailers.ts).

  \<^bold>\<open>How the code is rendered.\<close> A function that only computes is a HOL function; one that may throw returns a
  sum, whose left side is the error. A function that acts is a program over the state it acts on,
  \<open>'s \<Rightarrow> (string + 'a) \<times> 's\<close>, composed with \<open>io_bind\<close>, \<open>io_catch\<close> and \<open>io_finally\<close> as the code composes
  awaits, catches and finallys; every durable operation is a step that the world's oracle may fail, so a
  crash is the run in which all operations from some point on fail. Code that interleaves is a step
  relation (locks, the held read, the back-up's timers). Numbers of documents are exact: an integer or
  a decimal, with the infinities and NaN; the 32-bit fields of the kernel and of base32 are words.
  Objects are association lists in insertion order. Strings are lists of bytes, so sorting compares
  bytes where the code compares UTF-16 units.

  \<^bold>\<open>What is a parameter.\<close> Code that is not in the repository: the YAML package (\<open>yaml\<close>, \<open>dump\<close>), \<open>new URL\<close>,
  the sops program (\<open>spawn\<close>), Git (\<open>G\<close>, \<open>git_port\<close>), scrypt, HMAC and SHA-256, iam's HTTP answers, clocks
  and random identifiers. What a property needs of one is a hypothesis about it, or an assumption of a locale that is
  interpreted on the model's own definitions, and each such property has a witness at a concrete one.

  \<^bold>\<open>Bounds and fuel.\<close> The JSON parser takes the length of its input as fuel; \<open>json_need_le\<close> and
  \<open>json_roundtrip\<close> show that this is enough for every printed value. All other recursion is structural or
  over a finite list.

  \<^bold>\<open>Not modelled.\<close> Logging calls; the HTML and the browser scripts (views/, whose templates are another
  language, and views/assets/); the wiring of server.ts and app.ts; command-line tools; directories as
  entries of the file system, and reads that fail in the database. The manifest lists every component with
  its state.
\<close>

end
